(* ===== verification/Prelude.thy ===== *)
theory Prelude
  imports Main "HOL-Library.Word"
begin

text \<open>
  Shared vocabulary of the development: the machine types of an LP64 C implementation, the faults
  that end a defined C execution, little-endian memory, and the generic lemmas the components use.
  Where the source would read or write outside an object, dereference a null pointer or overflow a
  signed integer, the model returns a fault (the left side of a sum), so that every such case is a
  visible branch.
\<close>

unbundle bit_operations_syntax

section \<open>Types and faults\<close>

type_synonym u8 = "8 word"
type_synonym u16 = "16 word"
type_synonym u32 = "32 word"
type_synonym u64 = "64 word"

datatype fault =
    Out_Of_Bounds
  | Null_Deref
  | Signed_Overflow
  | Uninit_Read
  | Bad_Vararg
  | Exit_Failure
  | Bad_Free

type_synonym 'a outcome = "fault + 'a"

named_theorems mem_frame "reads of memory after a write elsewhere"
named_theorems mem_read "reads of memory after a write to the same place"

text \<open>Sequencing of computations that may end early: the right sides go on, a left side is final.\<close>

definition and_then :: "'e + 'a \<Rightarrow> ('a \<Rightarrow> 'e + 'b) \<Rightarrow> 'e + 'b" where
  "and_then r f = (case r of Inl e \<Rightarrow> Inl e | Inr x \<Rightarrow> f x)"

lemma and_then_simps [simp]: "and_then (Inl e) f = Inl e" "and_then (Inr x) f = f x"
  by (simp_all add: and_then_def)

lemma and_then_Inr: "and_then r f = Inr y \<longleftrightarrow> (\<exists>x. r = Inr x \<and> f x = Inr y)"
  by (cases r) simp_all

section \<open>Little-endian memory\<close>

text \<open>
  Memory is a function from byte addresses to bytes. \<open>le_load m a n\<close> reads \<open>n\<close> bytes at \<open>a\<close> as an
  unsigned little-endian number and \<open>le_store m a n v\<close> writes the low \<open>n\<close> bytes of \<open>v\<close>, the way
  x86-64 lays out the integer and pointer fields of a struct.
\<close>

type_synonym mem = "nat \<Rightarrow> u8"

fun le_load :: "mem \<Rightarrow> nat \<Rightarrow> nat \<Rightarrow> nat" where
  "le_load m a 0 = 0"
| "le_load m a (Suc n) = unat (m a) + 256 * le_load m (Suc a) n"

lemma le_load_numeral:
  "le_load m a (numeral k) = unat (m a) + 256 * le_load m (Suc a) (pred_numeral k)"
  by (simp add: numeral_eq_Suc)

definition le_store :: "mem \<Rightarrow> nat \<Rightarrow> nat \<Rightarrow> nat \<Rightarrow> mem" where
  "le_store m a n v = (\<lambda>x. if a \<le> x \<and> x < a + n then of_nat (v div 256 ^ (x - a)) else m x)"

lemma le_load_less: "le_load m a n < 256 ^ n"
proof (induction n arbitrary: a)
  case 0
  then show ?case by simp
next
  case (Suc n)
  have "unat (m a) < 256" using unsigned_less [of "m a"] by simp
  moreover have "le_load m (Suc a) n < 256 ^ n" by (rule Suc.IH)
  ultimately show ?case by simp
qed

lemma le_load_cong: "(\<And>x. a \<le> x \<Longrightarrow> x < a + n \<Longrightarrow> m x = m' x) \<Longrightarrow> le_load m a n = le_load m' a n"
  by (induction n arbitrary: a) auto

lemma le_load_bytes: "(\<And>i. i < n \<Longrightarrow> m (a + i) = of_nat (v div 256 ^ i)) \<Longrightarrow> le_load m a n = v mod 256 ^ n"
proof (induction n arbitrary: a v)
  case 0
  then show ?case by simp
next
  case (Suc n)
  have "m a = of_nat v" using Suc.prems [of 0] by simp
  then have hd: "unat (m a) = v mod 256" by (simp add: unat_of_nat)
  have "le_load m (Suc a) n = (v div 256) mod 256 ^ n"
  proof (rule Suc.IH)
    fix i assume "i < n"
    then show "m (Suc a + i) = of_nat (v div 256 div 256 ^ i)"
      using Suc.prems [of "Suc i"] by (simp add: div_mult2_eq)
  qed
  then show ?case by (simp add: hd mod_mult2_eq)
qed

lemma le_load_store [mem_read]: "le_load (le_store m a n v) a n = v mod 256 ^ n"
  by (rule le_load_bytes) (simp add: le_store_def)

lemma le_load_store_frame [mem_frame]:
  "b + k \<le> a \<or> a + n \<le> b \<Longrightarrow> le_load (le_store m a n v) b k = le_load m b k"
  by (rule le_load_cong) (auto simp: le_store_def)

lemma le_store_other: "x < a \<or> a + n \<le> x \<Longrightarrow> le_store m a n v x = m x"
  by (auto simp: le_store_def)

section \<open>Words\<close>

lemma unat_u64_less: "unat (w :: u64) < 18446744073709551616"
  using unsigned_less [of w] by simp

lemma unat_u32_less: "unat (w :: u32) < 4294967296"
  using unsigned_less [of w] by simp

lemma unat_of_nat_u64: "n < 18446744073709551616 \<Longrightarrow> unat (of_nat n :: u64) = n"
  by (simp add: unat_of_nat)

lemma unat_of_nat_u32: "n < 4294967296 \<Longrightarrow> unat (of_nat n :: u32) = n"
  by (simp add: unat_of_nat)

end
