(* ===== verification/CString.thy ===== *)
theory CString
  imports Prelude
begin

text \<open>
  What the programs use of the C string and stdio library, as documented: decimal conversion,
  character classes of the C locale, \<^verbatim>\<open>strcspn\<close>, \<^verbatim>\<open>strtok\<close>, truncating copies, and \<^verbatim>\<open>fgets\<close>
  over the bytes still to be read. A string is a \<open>char list\<close> without its terminator; \<open>NUL\<close> is the
  terminator character.
\<close>

section \<open>Decimal numbers\<close>

abbreviation NUL :: char where
  "NUL \<equiv> CHR 0x00"

abbreviation NL :: char where
  "NL \<equiv> CHR 0x0A"

definition digit :: "nat \<Rightarrow> char" where
  "digit d = char_of (48 + d)"

definition isdigit :: "char \<Rightarrow> bool" where
  "isdigit c \<longleftrightarrow> 48 \<le> (of_char c :: nat) \<and> (of_char c :: nat) \<le> 57"

definition digit_val :: "char \<Rightarrow> nat" where
  "digit_val c = of_char c - 48"

fun dec_nat :: "nat \<Rightarrow> string" where
  "dec_nat n = (if n < 10 then [digit n] else dec_nat (n div 10) @ [digit (n mod 10)])"

declare dec_nat.simps [simp del]

definition dec_int :: "int \<Rightarrow> string" where
  "dec_int i = (if i < 0 then CHR ''-'' # dec_nat (nat (- i)) else dec_nat (nat i))"

definition val_dec :: "string \<Rightarrow> nat" where
  "val_dec ds = foldl (\<lambda>n c. 10 * n + digit_val c) 0 ds"

lemma of_char_digit: "d < 10 \<Longrightarrow> of_char (digit d) = 48 + d"
  by (simp add: digit_def)

lemma digit_val_digit [simp]: "d < 10 \<Longrightarrow> digit_val (digit d) = d"
  by (simp add: digit_val_def of_char_digit)

lemma isdigit_digit [simp]: "d < 10 \<Longrightarrow> isdigit (digit d)"
  by (simp add: isdigit_def of_char_digit)

lemma val_dec_snoc [simp]: "val_dec (ds @ [c]) = 10 * val_dec ds + digit_val c"
  by (simp add: val_dec_def)

lemma val_dec_Nil [simp]: "val_dec [] = 0"
  by (simp add: val_dec_def)

lemma val_dec_dec_nat [simp]: "val_dec (dec_nat n) = n"
proof (induction n rule: dec_nat.induct)
  case (1 n)
  show ?case
  proof (cases "n < 10")
    case True
    then show ?thesis using val_dec_snoc [of "[]"] by (subst dec_nat.simps) simp
  next
    case False
    with 1 show ?thesis by (subst dec_nat.simps) simp
  qed
qed

lemma dec_nat_digits: "c \<in> set (dec_nat n) \<Longrightarrow> isdigit c"
proof (induction n rule: dec_nat.induct)
  case (1 n)
  then show ?case by (subst (asm) dec_nat.simps) (auto split: if_splits)
qed

lemma dec_nat_not_Nil [simp]: "dec_nat n \<noteq> []"
  by (subst dec_nat.simps) simp

lemma dec_nat_inj: "dec_nat m = dec_nat n \<Longrightarrow> m = n"
  by (metis val_dec_dec_nat)

lemma length_dec_nat: "n < 10 ^ k \<Longrightarrow> 0 < k \<Longrightarrow> length (dec_nat n) \<le> k"
proof (induction k arbitrary: n)
  case 0
  then show ?case by simp
next
  case (Suc k)
  show ?case
  proof (cases "n < 10")
    case True
    then show ?thesis by (subst dec_nat.simps) simp
  next
    case False
    then have "0 < k" using Suc.prems by (cases k) auto
    moreover have "n div 10 < 10 ^ k" using Suc.prems by simp
    ultimately have "length (dec_nat (n div 10)) \<le> k" by (rule Suc.IH [rotated])
    with False show ?thesis by (subst dec_nat.simps) simp
  qed
qed


lemma digit_simps [simp]:
  "digit 0 = CHR ''0''" "digit 1 = CHR ''1''" "digit (Suc 0) = CHR ''1''" "digit 2 = CHR ''2''"
  "digit 3 = CHR ''3''" "digit 4 = CHR ''4''" "digit 5 = CHR ''5''" "digit 6 = CHR ''6''"
  "digit 7 = CHR ''7''" "digit 8 = CHR ''8''" "digit 9 = CHR ''9''"
  by (simp_all add: digit_def char_of_def bit_Suc_0_iff)


section \<open>Hexadecimal numbers\<close>

definition hex_digit :: "nat \<Rightarrow> char" where
  "hex_digit d = (if d < 10 then digit d else char_of (87 + d))"

fun hex_nat :: "nat \<Rightarrow> string" where
  "hex_nat n = (if n < 16 then [hex_digit n] else hex_nat (n div 16) @ [hex_digit (n mod 16)])"

declare hex_nat.simps [simp del]

lemma hex_nat_not_Nil [simp]: "hex_nat n \<noteq> []"
  by (subst hex_nat.simps) simp

text \<open>A number padded to a minimal width.\<close>

definition pad_with :: "char \<Rightarrow> nat \<Rightarrow> string \<Rightarrow> string" where
  "pad_with c w s = replicate (w - length s) c @ s"

section \<open>String scanning\<close>

text \<open>The C string in a buffer: what precedes the first terminator.\<close>

definition cstr :: "string \<Rightarrow> string" where
  "cstr s = takeWhile (\<lambda>c. c \<noteq> NUL) s"

text \<open>\<^verbatim>\<open>s[strcspn(s, "\n")] = '\0'\<close>.\<close>

definition chomp :: "string \<Rightarrow> string" where
  "chomp s = takeWhile (\<lambda>c. c \<noteq> NL) s"

text \<open>
  \<^verbatim>\<open>strtok\<close> with one delimiter: the token, or \<open>None\<close> for a null pointer, and the text at the saved
  position, which the next call with a null first argument continues from.
\<close>

definition strtok :: "char \<Rightarrow> string \<Rightarrow> string option \<times> string" where
  "strtok d s =
     (case dropWhile (\<lambda>c. c = d) s of
        [] \<Rightarrow> (None, [])
      | t \<Rightarrow> (Some (takeWhile (\<lambda>c. c \<noteq> d) t), drop 1 (dropWhile (\<lambda>c. c \<noteq> d) t)))"

lemma cstr_id [simp]: "NUL \<notin> set s \<Longrightarrow> cstr s = s"
  by (auto simp: cstr_def takeWhile_eq_all_conv)

lemma chomp_id [simp]: "NL \<notin> set s \<Longrightarrow> chomp s = s"
  by (auto simp: chomp_def takeWhile_eq_all_conv)

lemma chomp_NL [simp]: "NL \<notin> set s \<Longrightarrow> chomp (s @ NL # t) = s"
  by (auto simp: chomp_def takeWhile_append)

lemma strtok_token:
  "t \<noteq> [] \<Longrightarrow> d \<notin> set t \<Longrightarrow> strtok d (t @ d # rest) = (Some t, rest)"
  by (cases t) (auto simp: strtok_def takeWhile_append dropWhile_append)

lemma strtok_last:
  assumes "t \<noteq> []" and "d \<notin> set t"
  shows "strtok d t = (Some t, [])"
proof -
  have 1: "takeWhile (\<lambda>c. c \<noteq> d) t = t" and 2: "dropWhile (\<lambda>c. c \<noteq> d) t = []"
    and 3: "dropWhile (\<lambda>c. c = d) t = t"
    using assms by (auto simp: takeWhile_eq_all_conv dropWhile_eq_Nil_conv dropWhile_eq_self_iff)
  have "(case t of [] \<Rightarrow> (None, []) | x # xs \<Rightarrow> (Some t, [])) = (Some t, [])"
    using assms(1) by (cases t) auto
  then show ?thesis using assms(1) 1 2 3 by (cases t) (auto simp: strtok_def)
qed

lemma strtok_Nil [simp]: "strtok d [] = (None, [])"
  by (simp add: strtok_def)

lemma strtok_progress: "strtok d s = (Some t, r) \<Longrightarrow> length r < length s"
proof -
  assume a: "strtok d s = (Some t, r)"
  then obtain c u where u: "dropWhile (\<lambda>c. c = d) s = c # u"
    by (auto simp: strtok_def split: list.splits)
  then have "c \<noteq> d" using hd_dropWhile [of "\<lambda>c. c = d" s] by simp
  with a u have "r = drop 1 (dropWhile (\<lambda>c. c \<noteq> d) u)" by (auto simp: strtok_def)
  then have "length r \<le> length u"
    using length_dropWhile_le [of "\<lambda>c. c \<noteq> d" u] by simp
  moreover have "length (c # u) \<le> length s"
    using length_dropWhile_le [of "\<lambda>c. c = d" s] u by simp
  ultimately show ?thesis by simp
qed

lemma strtok_tok: "strtok d s = (Some t, r) \<Longrightarrow> t \<noteq> [] \<and> d \<notin> set t"
proof -
  assume a: "strtok d s = (Some t, r)"
  then obtain c u where u: "dropWhile (\<lambda>c. c = d) s = c # u"
    by (auto simp: strtok_def split: list.splits)
  then have "c \<noteq> d" using hd_dropWhile [of "\<lambda>c. c = d" s] by simp
  with a u show ?thesis by (auto simp: strtok_def dest: set_takeWhileD)
qed

section \<open>Reading lines\<close>

text \<open>
  \<^verbatim>\<open>fgets(buf, n, f)\<close> on the bytes left in the file: at most \<open>n - 1\<close> of them, up to and including a
  newline; \<open>None\<close> (a null pointer) at end of file.
\<close>

fun take_line :: "nat \<Rightarrow> string \<Rightarrow> string \<times> string" where
  "take_line 0 cs = ([], cs)"
| "take_line (Suc n) [] = ([], [])"
| "take_line (Suc n) (c # cs) =
     (if c = NL then ([c], cs) else (let (l, r) = take_line n cs in (c # l, r)))"

definition fgets :: "nat \<Rightarrow> string \<Rightarrow> (string \<times> string) option" where
  "fgets n cs = (if cs = [] then None else Some (take_line (n - 1) cs))"

lemma take_line_append: "take_line n cs = (l, r) \<Longrightarrow> l @ r = cs"
  by (induction n cs arbitrary: l r rule: take_line.induct) (auto split: if_splits prod.splits)

lemma take_line_length: "take_line n cs = (l, r) \<Longrightarrow> length l \<le> n"
  by (induction n cs arbitrary: l r rule: take_line.induct) (auto split: if_splits prod.splits)

lemma take_line_not_Nil: "take_line (Suc n) (c # cs) = (l, r) \<Longrightarrow> l \<noteq> []"
  by (auto split: if_splits prod.splits)

lemma take_line_full:
  "NL \<notin> set l \<Longrightarrow> length l < n \<Longrightarrow> take_line n (l @ NL # r) = (l @ [NL], r)"
proof (induction l arbitrary: n)
  case Nil
  then show ?case by (cases n) auto
next
  case (Cons c l)
  then show ?case by (cases n) auto
qed

text \<open>The loop \<^verbatim>\<open>while (fgets(buf, n, f) != NULL)\<close>: the successive contents of the buffer.\<close>

function fgets_all :: "nat \<Rightarrow> string \<Rightarrow> string list" where
  "fgets_all n cs =
     (if n < 2 \<or> cs = [] then [] else let (l, r) = take_line (n - 1) cs in l # fgets_all n r)"
  by pat_completeness auto
termination
proof (relation "measure (\<lambda>(n, cs). length cs)", goal_cases)
  case 1
  then show ?case by simp
next
  case (2 n cs x l r)
  then obtain m c cs' where m: "n - 1 = Suc m" "cs = c # cs'"
    by (cases "n - 1"; cases cs) auto
  from 2 have tl: "take_line (n - 1) cs = (l, r)" by simp
  have "l \<noteq> []" using tl take_line_not_Nil [of m c cs' l r] m by simp
  with take_line_append [OF tl] show ?case by auto
qed

declare fgets_all.simps [simp del]

lemma fgets_all_Nil [simp]: "fgets_all n [] = []"
  by (simp add: fgets_all.simps)

lemma fgets_all_step: "2 \<le> n \<Longrightarrow> fgets n cs = Some (l, r) \<Longrightarrow> fgets_all n cs = l # fgets_all n r"
  by (subst fgets_all.simps) (auto simp: fgets_def split: if_splits)

lemma fgets_line:
  "NL \<notin> set l \<Longrightarrow> length l + 1 < n \<Longrightarrow> fgets n (l @ NL # r) = Some (l @ [NL], r)"
  by (simp add: fgets_def take_line_full)

lemma concat_fgets_all: "2 \<le> n \<Longrightarrow> concat (fgets_all n cs) = cs"
proof (induction n cs rule: fgets_all.induct)
  case (1 n cs)
  then show ?case
    by (subst fgets_all.simps) (auto split: prod.splits dest: take_line_append)
qed

lemma fgets_all_length: "l \<in> set (fgets_all n cs) \<Longrightarrow> length l < n"
proof (induction n cs rule: fgets_all.induct)
  case (1 n cs)
  then show ?case
    by (subst (asm) (2) fgets_all.simps)
      (fastforce split: prod.splits if_splits dest: take_line_length [OF sym])
qed

lemma fgets_all_line:
  "NL \<notin> set l \<Longrightarrow> length l + 1 < n \<Longrightarrow> fgets_all n (l @ NL # r) = (l @ [NL]) # fgets_all n r"
  by (subst fgets_all.simps) (auto simp: take_line_full)

lemma take_line_last: "NL \<notin> set l \<Longrightarrow> length l \<le> n \<Longrightarrow> take_line n l = (l, [])"
  by (induction n l rule: take_line.induct) auto

lemma fgets_all_last: "NL \<notin> set l \<Longrightarrow> length l + 1 < n \<Longrightarrow> l \<noteq> [] \<Longrightarrow> fgets_all n l = [l]"
  by (subst fgets_all.simps) (simp add: take_line_last)

lemma fgets_all_lines:
  "\<forall>l \<in> set ls. NL \<notin> set l \<and> length l + 1 < n \<Longrightarrow>
   fgets_all n (concat (map (\<lambda>l. l @ [NL]) ls)) = map (\<lambda>l. l @ [NL]) ls"
  by (induction ls) (auto simp: fgets_all_line)

end
