(* ===== verification/RegionHeap.thy ===== *)
theory RegionHeap
  imports Prelude
begin

text \<open>
  The contract between a heap and its clients: requests return 0 or a region that overlaps no live
  region, a live region can be given back, and clients may write inside live regions. Clients are
  traces of such operations; inside the contract a live region keeps its place and its bytes.
\<close>

datatype 'n heap_op = Get 'n nat | Put nat | Poke nat u8

inductive heap_trace ::
  "('n \<Rightarrow> 's \<Rightarrow> ('s \<times> nat) option) \<Rightarrow> (nat \<Rightarrow> 's \<Rightarrow> 's) \<Rightarrow> (nat \<Rightarrow> u8 \<Rightarrow> 's \<Rightarrow> 's) \<Rightarrow>
   ('s \<Rightarrow> (nat \<times> nat) set) \<Rightarrow> 'n heap_op list \<Rightarrow> 's \<Rightarrow> 's \<Rightarrow> bool"
  for alloc dealloc poke live where
  stop: "heap_trace alloc dealloc poke live [] s s"
| get: "alloc n s = Some (s1, p) \<Longrightarrow> heap_trace alloc dealloc poke live ops s1 s2 \<Longrightarrow>
     heap_trace alloc dealloc poke live (Get n p # ops) s s2"
| put: "(p, k) \<in> live s \<Longrightarrow> heap_trace alloc dealloc poke live ops (dealloc p s) s2 \<Longrightarrow>
     heap_trace alloc dealloc poke live (Put p # ops) s s2"
| poke: "(p, k) \<in> live s \<Longrightarrow> p \<le> a \<Longrightarrow> a < p + k \<Longrightarrow>
     heap_trace alloc dealloc poke live ops (poke a v s) s2 \<Longrightarrow>
     heap_trace alloc dealloc poke live (Poke a v # ops) s s2"

inductive_simps heap_trace_simps:
  "heap_trace alloc dealloc poke live [] s s'"
  "heap_trace alloc dealloc poke live (Get r p # ops) s s'"
  "heap_trace alloc dealloc poke live (Put p # ops) s s'"
  "heap_trace alloc dealloc poke live (Poke a v # ops) s s'"

locale region_heap =
  fixes inv :: "'s \<Rightarrow> bool"
    and live :: "'s \<Rightarrow> (nat \<times> nat) set"
    and data :: "'s \<Rightarrow> nat \<Rightarrow> u8"
    and alloc :: "'n \<Rightarrow> 's \<Rightarrow> ('s \<times> nat) option"
    and dealloc :: "nat \<Rightarrow> 's \<Rightarrow> 's"
    and poke :: "nat \<Rightarrow> u8 \<Rightarrow> 's \<Rightarrow> 's"
    and need :: "'n \<Rightarrow> nat"
  assumes alloc_total: "inv s \<Longrightarrow> \<exists>s' p. alloc r s = Some (s', p)"
    and alloc_inv: "inv s \<Longrightarrow> alloc r s = Some (s', p) \<Longrightarrow> inv s'"
    and alloc_fail: "inv s \<Longrightarrow> alloc r s = Some (s', 0) \<Longrightarrow> live s' = live s"
    and alloc_live: "inv s \<Longrightarrow> alloc r s = Some (s', p) \<Longrightarrow> p \<noteq> 0 \<Longrightarrow>
      \<exists>k \<ge> need r. (p, k) \<notin> live s \<and> live s' = insert (p, k) (live s)"
    and alloc_data: "inv s \<Longrightarrow> alloc r s = Some (s', p) \<Longrightarrow> (q, j) \<in> live s \<Longrightarrow>
      q \<le> x \<Longrightarrow> x < q + j \<Longrightarrow> data s' x = data s x"
    and live_disjoint: "inv s \<Longrightarrow> (p, n) \<in> live s \<Longrightarrow> (q, k) \<in> live s \<Longrightarrow>
      p = q \<and> n = k \<or> p + n \<le> q \<or> q + k \<le> p"
    and dealloc_inv: "inv s \<Longrightarrow> (p, k) \<in> live s \<Longrightarrow> inv (dealloc p s)"
    and dealloc_live: "inv s \<Longrightarrow> (p, k) \<in> live s \<Longrightarrow> live (dealloc p s) = live s - {(p, k)}"
    and dealloc_data: "inv s \<Longrightarrow> (p, k) \<in> live s \<Longrightarrow> (q, j) \<in> live s \<Longrightarrow>
      q \<le> x \<Longrightarrow> x < q + j \<Longrightarrow> data (dealloc p s) x = data s x"
    and poke_inv: "inv s \<Longrightarrow> (p, k) \<in> live s \<Longrightarrow> p \<le> a \<Longrightarrow> a < p + k \<Longrightarrow> inv (poke a v s)"
    and poke_live: "inv s \<Longrightarrow> (p, k) \<in> live s \<Longrightarrow> p \<le> a \<Longrightarrow> a < p + k \<Longrightarrow>
      live (poke a v s) = live s"
    and poke_data: "data (poke a v s) = (data s)(a := v)"
begin

abbreviation trace :: "'n heap_op list \<Rightarrow> 's \<Rightarrow> 's \<Rightarrow> bool" where
  "trace \<equiv> heap_trace alloc dealloc poke live"

lemma trace_inv: "trace ops s s' \<Longrightarrow> inv s \<Longrightarrow> inv s'"
  by (induction rule: heap_trace.induct) (blast intro: alloc_inv dealloc_inv poke_inv)+

lemma alloc_keeps:
  assumes "inv s" and "alloc r s = Some (s', p)" and "(q, j) \<in> live s"
  shows "(q, j) \<in> live s'"
proof (cases "p = 0")
  case True
  then show ?thesis using assms alloc_fail by simp
next
  case False
  then show ?thesis using alloc_live [OF assms(1,2)] assms(3) by auto
qed

lemma trace_keeps:
  assumes "trace ops s s'" and "inv s" and "(q, j) \<in> live s" and "Put q \<notin> set ops"
    and "\<And>a v. Poke a v \<in> set ops \<Longrightarrow> a < q \<or> q + j \<le> a"
  shows "(q, j) \<in> live s' \<and> (\<forall>x. q \<le> x \<longrightarrow> x < q + j \<longrightarrow> data s' x = data s x)"
  using assms
proof (induction rule: heap_trace.induct)
  case (stop s)
  then show ?case by simp
next
  case (get r s s1 p ops s2)
  then have "inv s1" "(q, j) \<in> live s1" by (blast intro: alloc_inv alloc_keeps)+
  then show ?case using get alloc_data by simp
next
  case (put p k s ops s2)
  then have "inv (dealloc p s)" "(q, j) \<in> live (dealloc p s)"
    using dealloc_inv dealloc_live by auto
  then show ?case using put dealloc_data by simp
next
  case (poke p k s a ops v s2)
  have "a < q \<or> q + j \<le> a" by (rule poke.prems(4) [of a v]) simp
  moreover have "inv (poke a v s)" "(q, j) \<in> live (poke a v s)"
    using poke poke_inv poke_live by auto
  moreover have "\<And>b w. Poke b w \<in> set ops \<Longrightarrow> b < q \<or> q + j \<le> b"
    using poke.prems(4) by (metis list.set_intros(2))
  ultimately have "(q, j) \<in> live s2 \<and>
      (\<forall>x. q \<le> x \<longrightarrow> x < q + j \<longrightarrow> data s2 x = data (poke a v s) x)"
    using poke.IH poke.prems(3) by simp
  then show ?case using \<open>a < q \<or> q + j \<le> a\<close> by (auto simp: poke_data)
qed

lemma trace_disjoint:
  "trace ops s s' \<Longrightarrow> inv s \<Longrightarrow> (p, n) \<in> live s' \<Longrightarrow> (q, k) \<in> live s' \<Longrightarrow>
    p = q \<and> n = k \<or> p + n \<le> q \<or> q + k \<le> p"
  using trace_inv live_disjoint by blast

end

end
