(* ===== verification/Allocator.thy ===== *)
theory Allocator
  imports CString RegionHeap
begin

text \<open>
  \<^verbatim>\<open>baby_malloc/bby_malloc.c\<close>: the first-fit allocator over a static pool. The pool is byte memory;
  a block header is the 24 bytes of \<^verbatim>\<open>struct block_meta\<close> (size at 0, free at 8, next at 16) at the
  block's address, and \<open>mp\<close> is the address at which \<^verbatim>\<open>memory_pool\<close> was linked. Pointers are
  addresses, 0 is NULL. The theory holds the operations, the abstract allocator on a list of
  (size, free) pairs, and the refinement between the two.
\<close>

section \<open>The program\<close>

definition META :: nat where
  "META = 24"

definition POOL_SIZE :: nat where
  "POOL_SIZE = 1024 * 1024"

definition blk_size :: "mem \<Rightarrow> nat \<Rightarrow> u64" where
  "blk_size m b = of_nat (le_load m b 8)"

definition blk_free :: "mem \<Rightarrow> nat \<Rightarrow> u32" where
  "blk_free m b = of_nat (le_load m (b + 8) 4)"

definition blk_next :: "mem \<Rightarrow> nat \<Rightarrow> nat" where
  "blk_next m b = le_load m (b + 16) 8"

definition set_size :: "mem \<Rightarrow> nat \<Rightarrow> u64 \<Rightarrow> mem" where
  "set_size m b v = le_store m b 8 (unat v)"

definition set_free :: "mem \<Rightarrow> nat \<Rightarrow> u32 \<Rightarrow> mem" where
  "set_free m b v = le_store m (b + 8) 4 (unat v)"

definition set_next :: "mem \<Rightarrow> nat \<Rightarrow> nat \<Rightarrow> mem" where
  "set_next m b p = le_store m (b + 16) 8 p"

record pool_state =
  pool :: mem
  isInitialized :: u32

definition static_pool :: pool_state where
  "static_pool = \<lparr>pool = (\<lambda>_. 0), isInitialized = 0\<rparr>"

definition init_allocator :: "nat \<Rightarrow> pool_state \<Rightarrow> pool_state" where
  "init_allocator mp st =
     (let m1 = set_size (pool st) mp (of_nat (POOL_SIZE - META));
          m2 = set_free m1 mp 1;
          m3 = set_next m2 mp 0
      in st\<lparr>pool := m3, isInitialized := 1\<rparr>)"

definition align8 :: "u64 \<Rightarrow> u64" where
  "align8 sz = (sz + 7) AND NOT 7"

text \<open>The body of the \<^verbatim>\<open>if\<close> in the search loop: claim the block, split off the rest if it is large enough.\<close>

definition claim_block :: "u64 \<Rightarrow> mem \<Rightarrow> nat \<Rightarrow> mem" where
  "claim_block sz m cur =
     (let m1 = set_free m cur 0
      in if sz + of_nat META < blk_size m1 cur then
           let nxt = cur + META + unat sz;
               m2 = set_size m1 nxt (blk_size m1 cur - sz - of_nat META);
               m3 = set_free m2 nxt 1;
               m4 = set_next m3 nxt (blk_next m3 cur);
               m5 = set_size m4 cur sz
           in set_next m5 cur nxt
         else m1)"

text \<open>The \<^verbatim>\<open>while (cur)\<close> loop; not returning (a cyclic list) would be \<open>None\<close>.\<close>

partial_function (option) alloc_loop :: "u64 \<Rightarrow> mem \<Rightarrow> nat \<Rightarrow> (mem \<times> nat) option" where
  "alloc_loop sz m cur =
     (if cur = 0 then Some (m, 0)
      else if blk_free m cur \<noteq> 0 \<and> sz \<le> blk_size m cur
           then Some (claim_block sz m cur, cur + META)
      else alloc_loop sz m (blk_next m cur))"

definition internal_allocation :: "nat \<Rightarrow> u64 \<Rightarrow> pool_state \<Rightarrow> (pool_state \<times> nat) option" where
  "internal_allocation mp sz st =
     (let st1 = (if isInitialized st = 0 then init_allocator mp st else st)
      in map_option (\<lambda>(m, p). (st1\<lparr>pool := m\<rparr>, p)) (alloc_loop (align8 sz) (pool st1) mp))"

definition bby_free :: "nat \<Rightarrow> pool_state \<Rightarrow> pool_state" where
  "bby_free ptr st =
     (if ptr = 0 then st
      else let block = ptr - META;
               m1 = set_free (pool st) block 1
           in if blk_next m1 block \<noteq> 0 \<and> blk_free m1 (blk_next m1 block) \<noteq> 0
              then let m2 = set_size m1 block
                              (blk_size m1 block + (of_nat META + blk_size m1 (blk_next m1 block)))
                   in st\<lparr>pool := set_next m2 block (blk_next m2 (blk_next m2 block))\<rparr>
              else st\<lparr>pool := m1\<rparr>)"

text \<open>\<^verbatim>\<open>bby_malloc\<close> returns the state, the value stored through \<^verbatim>\<open>out\<close> and the return code.\<close>

definition bby_malloc :: "nat \<Rightarrow> u64 \<Rightarrow> pool_state \<Rightarrow> (pool_state \<times> nat \<times> int) option" where
  "bby_malloc mp sz st =
     (case internal_allocation mp sz st of
        None \<Rightarrow> None
      | Some (st', result) \<Rightarrow> if result = 0 then Some (st', 0, 0) else Some (st', result, 1))"

section \<open>Header fields under writes\<close>

lemma blk_size_set_size [simp]: "blk_size (set_size m b v) b = v"
  by (simp add: blk_size_def set_size_def mem_read unat_u64_less)

lemma blk_free_set_free [simp]: "blk_free (set_free m b v) b = v"
  by (simp add: blk_free_def set_free_def mem_read unat_u32_less)

lemma blk_next_set_next [simp]: "p < 2 ^ 64 \<Longrightarrow> blk_next (set_next m b p) b = p"
  by (simp add: blk_next_def set_next_def mem_read)


lemma hdr_frame [mem_frame]:
  assumes "b + META \<le> c \<or> c + META \<le> b"
  shows "blk_size (set_size m c v) b = blk_size m b" "blk_free (set_size m c v) b = blk_free m b"
    "blk_next (set_size m c v) b = blk_next m b" "blk_size (set_free m c w) b = blk_size m b"
    "blk_free (set_free m c w) b = blk_free m b" "blk_next (set_free m c w) b = blk_next m b"
    "blk_size (set_next m c p) b = blk_size m b" "blk_free (set_next m c p) b = blk_free m b"
    "blk_next (set_next m c p) b = blk_next m b"
  using assms
  by (auto simp: META_def blk_size_def blk_free_def blk_next_def set_size_def set_free_def
      set_next_def intro!: arg_cong [where f = of_nat] le_load_store_frame)

lemma same_hdr_frame [simp]:
  "blk_free (set_size m b v) b = blk_free m b" "blk_next (set_size m b v) b = blk_next m b"
  "blk_size (set_free m b w) b = blk_size m b" "blk_next (set_free m b w) b = blk_next m b"
  "blk_size (set_next m b p) b = blk_size m b" "blk_free (set_next m b p) b = blk_free m b"
  by (auto simp: blk_size_def blk_free_def blk_next_def set_size_def set_free_def
      set_next_def mem_frame)

lemma hdr_write_other:
  assumes "x < b \<or> b + META \<le> x"
  shows "set_size m b v x = m x" "set_free m b w x = m x" "set_next m b p x = m x"
  using assms by (auto simp: set_size_def set_free_def set_next_def META_def le_store_other)

lemma hdr_cong:
  assumes "\<And>x. b \<le> x \<Longrightarrow> x < b + META \<Longrightarrow> m x = m' x"
  shows "blk_size m b = blk_size m' b" "blk_free m b = blk_free m' b" "blk_next m b = blk_next m' b"
  using assms unfolding blk_size_def blk_free_def blk_next_def META_def
  by (auto intro!: arg_cong [where f = of_nat] le_load_cong)

section \<open>The abstract allocator\<close>

text \<open>
  A heap is the list of its blocks in address order, each its payload size and whether it is free.
  A pointer handed out is the block's address plus \<open>META\<close>.
\<close>

type_synonym block = "nat \<times> bool"

fun span :: "block list \<Rightarrow> nat" where
  "span [] = 0"
| "span ((s, f) # bs) = META + s + span bs"

fun hdrs :: "nat \<Rightarrow> block list \<Rightarrow> nat set" where
  "hdrs a [] = {}"
| "hdrs a ((s, f) # bs) = {a..<a + META} \<union> hdrs (a + META + s) bs"

fun used :: "nat \<Rightarrow> block list \<Rightarrow> (nat \<times> nat) list" where
  "used a [] = []"
| "used a ((s, f) # bs) = (if f then [] else [(a + META, s)]) @ used (a + META + s) bs"

fun ptrs :: "nat \<Rightarrow> block list \<Rightarrow> nat list" where
  "ptrs a [] = []"
| "ptrs a ((s, f) # bs) = (a + META) # ptrs (a + META + s) bs"

fun first_fit :: "nat \<Rightarrow> nat \<Rightarrow> block list \<Rightarrow> (block list \<times> nat) option" where
  "first_fit n a [] = None"
| "first_fit n a ((s, f) # bs) =
     (if f \<and> n \<le> s then
        Some (if n + META < s then (n, False) # (s - n - META, True) # bs else (s, False) # bs,
              a + META)
      else map_option (\<lambda>(bs', p). ((s, f) # bs', p)) (first_fit n (a + META + s) bs))"

fun release :: "nat \<Rightarrow> nat \<Rightarrow> block list \<Rightarrow> block list" where
  "release p a [] = []"
| "release p a ((s, f) # bs) =
     (if p = a + META then
        (case bs of (s2, True) # bs' \<Rightarrow> (s + META + s2, True) # bs' | _ \<Rightarrow> (s, True) # bs)
      else (s, f) # release p (a + META + s) bs)"

text \<open>\<open>chain m a e bs\<close>: the headers in memory from \<open>a\<close> on are those of \<open>bs\<close>, laid end to end up to \<open>e\<close>.\<close>

definition link :: "nat \<Rightarrow> nat \<Rightarrow> nat" where
  "link e a = (if a = e then 0 else a)"

fun chain :: "mem \<Rightarrow> nat \<Rightarrow> nat \<Rightarrow> block list \<Rightarrow> bool" where
  "chain m a e [] \<longleftrightarrow> a = e"
| "chain m a e ((s, f) # bs) \<longleftrightarrow>
     unat (blk_size m a) = s \<and> (blk_free m a \<noteq> 0) = f \<and>
     blk_next m a = link e (a + META + s) \<and> chain m (a + META + s) e bs"

lemma META_pos [simp]: "0 < META" "META \<noteq> 0"
  by (simp_all add: META_def)

lemma chain_end: "chain m a e bs \<Longrightarrow> a + span bs = e"
  by (induction m a e bs rule: chain.induct) auto

lemma chain_frame: "(\<And>x. x \<in> hdrs a bs \<Longrightarrow> m x = m' x) \<Longrightarrow> chain m a e bs = chain m' a e bs"
proof (induction m a e bs rule: chain.induct)
  case (1 m a e)
  then show ?case by simp
next
  case (2 m a e s f bs)
  have "m x = m' x" if "a \<le> x" "x < a + META" for x
    using 2(2) that by simp
  then show ?case using 2 hdr_cong [of a m m'] by simp
qed

lemma chain_unique: "chain m a e bs \<Longrightarrow> chain m a e bs' \<Longrightarrow> bs = bs'"
proof (induction bs arbitrary: a bs')
  case Nil
  then show ?case using chain_end [of m a e bs'] by (cases bs') auto
next
  case (Cons b bs)
  obtain s f where b: "b = (s, f)" by fastforce
  obtain s' f' bs'' where bs': "bs' = (s', f') # bs''"
    using Cons.prems chain_end [of m a e "b # bs"] by (cases bs') (auto simp: b)
  have "s = s'" "f = f'" using Cons.prems by (auto simp: b bs')
  moreover have "bs = bs''"
    by (rule Cons.IH [of "a + META + s"]) (use Cons.prems \<open>s = s'\<close> in \<open>auto simp: b bs'\<close>)
  ultimately show ?case by (simp add: b bs')
qed

lemma hdrs_range: "hdrs a bs \<subseteq> {a..<a + span bs}"
  by (induction a bs rule: hdrs.induct) auto


section \<open>Refinement: the search loop is first fit\<close>

lemma split_test:
  assumes "unat (sz :: u64) \<le> unat (w :: u64)" and "unat w < 2 ^ 63"
  shows "sz + of_nat META < w \<longleftrightarrow> unat sz + META < unat w"
proof -
  have "unat (sz + of_nat META) = unat sz + META"
    using assms by (simp add: unat_word_ariths META_def)
  then show ?thesis by (simp add: word_less_nat_alt)
qed

lemma split_rest:
  assumes "unat (sz :: u64) + META < unat (w :: u64)"
  shows "unat (w - sz - of_nat META) = unat w - unat sz - META"
proof -
  have 1: "unat (w - sz) = unat w - unat sz"
    using assms by (simp add: unat_sub word_le_nat_alt)
  then have "(of_nat META :: u64) \<le> w - sz"
    using assms by (simp add: word_le_nat_alt META_def)
  then show ?thesis by (simp add: unat_sub 1) (simp add: META_def)
qed

definition carve :: "nat \<Rightarrow> nat \<Rightarrow> block list \<Rightarrow> block list" where
  "carve n s bs = (if n + META < s then (n, False) # (s - n - META, True) # bs else (s, False) # bs)"

lemma claim_block_frame:
  assumes "unat (blk_size m a) = s" "unat sz \<le> s" "s < 2 ^ 63" "x \<notin> hdrs a (carve (unat sz) s bs)"
  shows "claim_block sz m a x = m x"
proof -
  have test: "sz + of_nat META < blk_size m a \<longleftrightarrow> unat sz + META < s"
    using assms split_test [of sz "blk_size m a"] by simp
  show ?thesis
  proof (cases "unat sz + META < s")
    case True
    then have "x < a \<or> a + META \<le> x" "x < a + META + unat sz \<or> a + META + unat sz + META \<le> x"
      using assms(4) by (auto simp: carve_def)
    then show ?thesis by (simp add: claim_block_def Let_def hdr_write_other)
  next
    case False
    then have "x < a \<or> a + META \<le> x" using assms(4) by (auto simp: carve_def)
    with False show ?thesis using test by (simp add: claim_block_def Let_def hdr_write_other)
  qed
qed

lemma claim_block_chain:
  assumes ch: "chain m a e ((s, f) # bs)" and n: "unat sz \<le> s" and e: "e < 2 ^ 63"
  shows "chain (claim_block sz m a) a e (carve (unat sz) s bs)"
proof -
  let ?n = "unat sz" and ?b = "a + META + s" and ?m' = "claim_block sz m a"
  have s: "unat (blk_size m a) = s" and nx: "blk_next m a = link e ?b" and ch': "chain m ?b e bs"
    using ch by auto
  have le: "?b \<le> e" using chain_end [OF ch'] by simp
  with e have s63: "s < 2 ^ 63" by simp
  have test: "sz + of_nat META < blk_size m a \<longleftrightarrow> ?n + META < s"
    using split_test [of sz "blk_size m a"] s n s63 by simp
  have rest: "chain ?m' ?b e bs"
  proof -
    have "?m' x = m x" if "x \<in> hdrs ?b bs" for x
    proof (rule claim_block_frame [OF s n s63])
      have "?b \<le> x" using that hdrs_range [of ?b bs] by auto
      then show "x \<notin> hdrs a (carve ?n s [])" by (auto simp: carve_def)
    qed
    then show ?thesis using ch' chain_frame [of ?b bs ?m' m e] by simp
  qed
  show ?thesis
  proof (cases "?n + META < s")
    case True
    define nxt where "nxt = a + META + ?n"
    have far: "a + META \<le> nxt" by (simp add: nxt_def)
    have b: "nxt + s - ?n = ?b" using True by (simp add: nxt_def)
    have small: "nxt < 2 ^ 64" "link e ?b < 2 ^ 64" using True le e by (auto simp: nxt_def link_def)
    have m': "?m' = (let m1 = set_free m a 0; m2 = set_size m1 nxt (blk_size m1 a - sz - of_nat META);
        m3 = set_free m2 nxt 1; m4 = set_next m3 nxt (blk_next m3 a); m5 = set_size m4 a sz
        in set_next m5 a nxt)"
      using True test by (simp add: claim_block_def Let_def nxt_def)
    have "blk_size ?m' a = sz" "blk_free ?m' a = 0" "blk_next ?m' a = nxt"
      using small far unfolding m' Let_def by (simp_all add: mem_frame)
    moreover have "blk_size ?m' nxt = blk_size m a - sz - of_nat META" "blk_free ?m' nxt = 1"
      "blk_next ?m' nxt = link e ?b"
      using far small nx unfolding m' Let_def by (simp_all add: mem_frame)
    moreover have "unat (blk_size m a - sz - of_nat META) = s - ?n - META"
      using True s split_rest [of sz "blk_size m a"] by simp
    moreover have "link e nxt = nxt" using True le by (auto simp: link_def nxt_def)
    ultimately show ?thesis using True rest by (simp add: carve_def b nxt_def [symmetric])
  next
    case False
    then have "?m' = set_free m a 0" using test by (simp add: claim_block_def Let_def)
    then show ?thesis using False rest s nx by (simp add: carve_def)
  qed
qed

lemma alloc_loop_null [simp]: "alloc_loop sz m 0 = Some (m, 0)"
  by (simp add: alloc_loop.simps)

lemma first_fit_carve:
  "first_fit n a ((s, f) # bs) =
     (if f \<and> n \<le> s then Some (carve n s bs, a + META)
      else map_option (\<lambda>(bs', p). ((s, f) # bs', p)) (first_fit n (a + META + s) bs))"
  by (simp add: carve_def)

lemma alloc_loop_refines:
  assumes "chain m a e bs" and "0 < a" and "e < 2 ^ 63"
  shows "case first_fit (unat sz) a bs of
      None \<Rightarrow> alloc_loop sz m (link e a) = Some (m, 0)
    | Some (bs', p) \<Rightarrow> \<exists>m'. alloc_loop sz m (link e a) = Some (m', p) \<and> chain m' a e bs' \<and>
        (\<forall>x. x \<notin> hdrs a bs' \<longrightarrow> m' x = m x)"
  using assms
proof (induction bs arbitrary: a)
  case Nil
  then show ?case by (simp add: link_def)
next
  case (Cons b bs)
  obtain s f where b: "b = (s, f)" by fastforce
  let ?n = "unat sz" and ?b = "a + META + s"
  have ch: "chain m a e ((s, f) # bs)" using Cons.prems by (simp add: b)
  have ae: "link e a = a" using chain_end [OF ch] by (simp add: link_def META_def)
  have s: "unat (blk_size m a) = s" and fr: "(blk_free m a \<noteq> 0) = f"
    and nx: "blk_next m a = link e ?b" and ch': "chain m ?b e bs"
    using ch by auto
  have s63: "s < 2 ^ 63" using chain_end [OF ch] Cons.prems(3) by simp
  have loop: "alloc_loop sz m a =
      (if f \<and> ?n \<le> s then Some (claim_block sz m a, a + META) else alloc_loop sz m (link e ?b))"
    using Cons.prems(2) s fr nx by (subst alloc_loop.simps) (auto simp: word_le_nat_alt)
  show ?case
  proof (cases "f \<and> ?n \<le> s")
    case True
    then show ?thesis
      using claim_block_chain [OF ch, of sz] claim_block_frame [OF s _ s63, of sz _ bs] Cons.prems(3)
      by (simp add: b first_fit_carve loop ae del: first_fit.simps)
  next
    case False
    have IH: "case first_fit ?n ?b bs of
        None \<Rightarrow> alloc_loop sz m (link e ?b) = Some (m, 0)
      | Some (bs', p) \<Rightarrow> \<exists>m'. alloc_loop sz m (link e ?b) = Some (m', p) \<and> chain m' ?b e bs' \<and>
          (\<forall>x. x \<notin> hdrs ?b bs' \<longrightarrow> m' x = m x)"
      by (rule Cons.IH) (use ch' Cons.prems in auto)
    show ?thesis
    proof (cases "first_fit ?n ?b bs")
      case None
      with False IH show ?thesis by (auto simp: b first_fit_carve loop ae simp del: first_fit.simps)
    next
      case (Some r)
      obtain bs' p where r: "r = (bs', p)" by fastforce
      with IH Some obtain m' where m': "alloc_loop sz m (link e ?b) = Some (m', p)"
        "chain m' ?b e bs'" "\<forall>x. x \<notin> hdrs ?b bs' \<longrightarrow> m' x = m x" by auto
      have "m x = m' x" if "a \<le> x" "x < a + META" for x
      proof -
        have "x \<notin> hdrs ?b bs'" using that hdrs_range [of ?b bs'] by auto
        then show ?thesis using m'(3) by simp
      qed
      then have "chain m' a e ((s, f) # bs')"
        using hdr_cong [of a m m'] m'(2) s fr nx by simp
      then show ?thesis
        using False Some m' by (auto simp: b r first_fit_carve loop ae simp del: first_fit.simps)
    qed
  qed
qed


lemma first_fit_pos: "first_fit n a bs = Some (bs', p) \<Longrightarrow> a + META \<le> p"
  by (induction n a bs arbitrary: bs' rule: first_fit.induct) (fastforce split: if_splits)+

section \<open>Refinement: freeing\<close>

lemma ptr_ge: "p \<in> set (ptrs a bs) \<Longrightarrow> a + META \<le> p"
  by (induction a bs rule: ptrs.induct) fastforce+

lemma used_ptrs: "(p, n) \<in> set (used a bs) \<Longrightarrow> p \<in> set (ptrs a bs)"
  by (induction a bs rule: used.induct) (auto split: if_splits)

lemma used_ptr_ge: "(p, n) \<in> set (used a bs) \<Longrightarrow> a + META \<le> p \<and> p + n \<le> a + span bs"
  by (induction a bs rule: used.induct) (fastforce split: if_splits)+

text \<open>Freeing on memory alone, as \<^verbatim>\<open>bby_free\<close> does it to a non-null pointer.\<close>

definition free_block :: "mem \<Rightarrow> nat \<Rightarrow> mem" where
  "free_block m b =
     (let m1 = set_free m b 1
      in if blk_next m1 b \<noteq> 0 \<and> blk_free m1 (blk_next m1 b) \<noteq> 0
         then let m2 = set_size m1 b (blk_size m1 b + (of_nat META + blk_size m1 (blk_next m1 b)))
              in set_next m2 b (blk_next m2 (blk_next m2 b))
         else m1)"

lemma bby_free_free_block:
  "bby_free ptr st = (if ptr = 0 then st else st\<lparr>pool := free_block (pool st) (ptr - META)\<rparr>)"
  by (simp add: bby_free_def free_block_def Let_def)

lemma free_block_frame: "x < b \<or> b + META \<le> x \<Longrightarrow> free_block m b x = m x"
  by (simp add: free_block_def Let_def hdr_write_other)

lemma free_block_head:
  assumes ch: "chain m a e ((s, f) # bs)" and a: "0 < a" and e: "e < 2 ^ 63"
  shows "chain (free_block m a) a e (release (a + META) a ((s, f) # bs))"
proof -
  let ?b = "a + META + s" and ?m' = "free_block m a"
  have s: "unat (blk_size m a) = s" and nx: "blk_next m a = link e ?b" and ch': "chain m ?b e bs"
    using ch by auto
  have keep: "chain ?m' ?b e bs"
  proof -
    have "?m' x = m x" if "x \<in> hdrs ?b bs" for x
      by (rule free_block_frame) (use that hdrs_range [of ?b bs] in auto)
    then show ?thesis using ch' chain_frame [of ?b bs ?m' m e] by simp
  qed
  show ?thesis
  proof (cases bs)
    case Nil
    then have "?m' = set_free m a 1"
      using nx ch' by (simp add: free_block_def Let_def link_def)
    with Nil show ?thesis using s nx keep by simp
  next
    case (Cons c bs')
    obtain s2 f2 where c: "c = (s2, f2)" by fastforce
    have s2: "unat (blk_size m ?b) = s2" and f2: "(blk_free m ?b \<noteq> 0) = f2"
      and nx2: "blk_next m ?b = link e (?b + META + s2)" and ch2: "chain m (?b + META + s2) e bs'"
      using ch' by (auto simp: Cons c)
    have le: "?b + META + s2 \<le> e" using chain_end [OF ch2] by simp
    then have nx_b: "blk_next m a = ?b" using nx by (simp add: link_def META_def)
    have m': "?m' = (let m1 = set_free m a 1 in if f2 then
        let m2 = set_size m1 a (blk_size m a + (of_nat META + blk_size m ?b))
        in set_next m2 a (link e (?b + META + s2)) else m1)"
      using nx_b f2 nx2 a by (simp add: free_block_def Let_def mem_frame)
    show ?thesis
    proof (cases f2)
      case True
      have "unat (blk_size m a + (of_nat META + blk_size m ?b)) = s + META + s2"
        using s s2 le e by (simp add: unat_word_ariths META_def)
      moreover have "link e (?b + META + s2) < 2 ^ 64" using le e by (auto simp: link_def)
      moreover have "chain ?m' (?b + META + s2) e bs'" using keep by (simp add: Cons c)
      moreover have "a + META + (s + META + s2) = ?b + META + s2" by simp
      ultimately show ?thesis using True
        by (simp add: Cons c m' Let_def add.assoc)
    next
      case False
      then have "?m' = set_free m a 1" using m' by simp
      with False show ?thesis using s nx keep by (simp add: Cons c)
    qed
  qed
qed

lemma free_block_refines:
  assumes "chain m a e bs" and "p \<in> set (ptrs a bs)" and "0 < a" and "e < 2 ^ 63"
  shows "chain (free_block m (p - META)) a e (release p a bs)"
  using assms
proof (induction bs arbitrary: a)
  case Nil
  then show ?case by simp
next
  case (Cons b bs)
  obtain s f where b: "b = (s, f)" by fastforce
  let ?b = "a + META + s" and ?m' = "free_block m (p - META)"
  show ?case
  proof (cases "p = a + META")
    case True
    then show ?thesis using free_block_head [of m a e s f bs] Cons.prems by (simp add: b)
  next
    case False
    with Cons.prems have p: "p \<in> set (ptrs ?b bs)" by (auto simp: b)
    then have ge: "?b + META \<le> p" using ptr_ge by blast
    have "chain ?m' ?b e (release p ?b bs)"
      by (rule Cons.IH) (use Cons.prems p in \<open>auto simp: b\<close>)
    moreover have "m x = ?m' x" if "a \<le> x" "x < a + META" for x
      using that ge by (simp add: free_block_frame)
    ultimately show ?thesis
      using False hdr_cong [of a m ?m'] Cons.prems(1) by (simp add: b)
  qed
qed

section \<open>Facts about the abstract allocator\<close>

definition aligned :: "block list \<Rightarrow> bool" where
  "aligned bs \<longleftrightarrow> (\<forall>b \<in> set bs. 8 dvd fst b)"

lemma aligned_simps [simp]:
  "aligned []" "aligned (b # bs) \<longleftrightarrow> 8 dvd fst b \<and> aligned bs"
  by (auto simp: aligned_def)

lemma aligned_first_fit: "first_fit n a bs = Some (bs', p) \<Longrightarrow> aligned bs \<Longrightarrow> 8 dvd n \<Longrightarrow> aligned bs'"
  by (induction n a bs arbitrary: bs' rule: first_fit.induct)
    (fastforce simp: META_def split: if_splits intro: dvd_diff_nat)+

lemma aligned_release: "aligned bs \<Longrightarrow> aligned (release p a bs)"
  by (induction p a bs rule: release.induct) (auto simp: META_def split: list.splits bool.splits)

lemma used_aligned: "(p, n) \<in> set (used a bs) \<Longrightarrow> aligned bs \<Longrightarrow> 8 dvd p - a \<and> 8 dvd n"
proof (induction a bs rule: used.induct)
  case (1 a)
  then show ?case by simp
next
  case (2 a s f bs)
  show ?case
  proof (cases "(p, n) \<in> set (used (a + META + s) bs)")
    case True
    then have "a + META + s \<le> p" using used_ptr_ge by fastforce
    then have "p - a = (p - (a + META + s)) + (META + s)" by simp
    moreover have "8 dvd META + s" using 2 by (simp add: META_def)
    ultimately show ?thesis using 2 True by (metis aligned_simps(2) dvd_add)
  next
    case False
    with 2 show ?thesis by (auto simp: META_def split: if_splits)
  qed
qed

lemma used_disjoint:
  "(p, n) \<in> set (used a bs) \<Longrightarrow> (q, k) \<in> set (used a bs) \<Longrightarrow>
   p = q \<and> n = k \<or> p + n + META \<le> q \<or> q + k + META \<le> p"
proof (induction a bs rule: used.induct)
  case (1 a)
  then show ?case by simp
next
  case (2 a s f bs)
  then show ?case
    using used_ptr_ge [of p n "a + META + s" bs] used_ptr_ge [of q k "a + META + s" bs]
    by (auto split: if_splits)
qed

lemma used_hdrs: "(p, n) \<in> set (used a bs) \<Longrightarrow> p \<le> x \<Longrightarrow> x < p + n \<Longrightarrow> x \<notin> hdrs a bs"
proof (induction a bs rule: used.induct)
  case (1 a)
  then show ?case by simp
next
  case (2 a s f bs)
  show ?case
  proof (cases "(p, n) \<in> set (used (a + META + s) bs)")
    case True
    then have "a + META + s + META \<le> p" using used_ptr_ge by blast
    then show ?thesis using 2 True by auto
  next
    case False
    then have "p = a + META" "n = s" using 2 by (auto split: if_splits)
    then show ?thesis using 2(3,4) hdrs_range [of "a + META + s" bs] by auto
  qed
qed

lemma first_fit_used:
  "first_fit n a bs = Some (bs', p) \<Longrightarrow>
   \<exists>k. n \<le> k \<and> k \<le> n + META \<and> set (used a bs') = insert (p, k) (set (used a bs)) \<and>
     (\<forall>(q, j) \<in> set (used a bs). p + k + META \<le> q \<or> q + j + META \<le> p)"
proof (induction n a bs arbitrary: bs' rule: first_fit.induct)
  case (1 n a)
  then show ?case by simp
next
  case (2 n a s f bs)
  let ?b = "a + META + s"
  show ?case
  proof (cases "f \<and> n \<le> s")
    case True
    have far: "a + META + s + META \<le> q" if "(q, j) \<in> set (used ?b bs)" for q j
      using used_ptr_ge that by blast
    show ?thesis
    proof (cases "n + META < s")
      case True
      then have "n + (META + (a + (META + (s - (n + META))))) = a + (META + s)" by simp
      then show ?thesis using 2(2) \<open>f \<and> n \<le> s\<close> True far
        by (intro exI [of _ n]) (force simp: add.assoc add.left_commute)
    next
      case False
      then show ?thesis using 2(2) \<open>f \<and> n \<le> s\<close> far
        by (intro exI [of _ s]) fastforce
    qed
  next
    case False
    then obtain bs2 where ff: "first_fit n ?b bs = Some (bs2, p)" and bs': "bs' = (s, f) # bs2"
      using 2(2) by (auto split: if_splits)
    obtain k where k: "n \<le> k" "k \<le> n + META"
      "set (used ?b bs2) = insert (p, k) (set (used ?b bs))"
      "\<forall>(q, j) \<in> set (used ?b bs). p + k + META \<le> q \<or> q + j + META \<le> p"
      using 2(1) [OF False ff] by blast
    moreover have "?b + META \<le> p" using ff first_fit_pos by blast
    ultimately show ?thesis
      by (intro exI [of _ k]) (auto simp: bs' split: if_splits)
  qed
qed

lemma release_used:
  "(p, n) \<in> set (used a bs) \<Longrightarrow> set (used a (release p a bs)) = set (used a bs) - {(p, n)}"
proof (induction p a bs rule: release.induct)
  case (1 p a)
  then show ?case by simp
next
  case (2 p a s f bs)
  have far: "a + META + s + META \<le> q" if "(q, j) \<in> set (used (a + META + s) bs)" for q j
    using used_ptr_ge that by blast
  show ?case
  proof (cases "p = a + META")
    case True
    then have n: "n = s \<and> \<not> f" using 2(2) far by (fastforce split: if_splits)
    have "(p, n) \<notin> set (used (a + META + s) bs)" using far True by fastforce
    then show ?thesis using True n
      by (auto simp: add.assoc add.left_commute split: list.splits bool.splits)
  next
    case False
    with 2 show ?thesis by (auto split: if_splits)
  qed
qed


section \<open>States of the allocator\<close>

text \<open>
  \<open>repr mp st bs\<close>: the state stands for the block list \<open>bs\<close>; before the first call the pool counts as
  one free block, which is what \<^verbatim>\<open>init_allocator\<close> writes.
\<close>

definition pool_ok :: "nat \<Rightarrow> bool" where
  "pool_ok mp \<longleftrightarrow> 0 < mp \<and> mp + POOL_SIZE < 2 ^ 63"

definition repr :: "nat \<Rightarrow> pool_state \<Rightarrow> block list \<Rightarrow> bool" where
  "repr mp st bs \<longleftrightarrow>
     (if isInitialized st = 0 then bs = [(POOL_SIZE - META, True)]
      else chain (pool st) mp (mp + POOL_SIZE) bs)"

definition heap_inv :: "nat \<Rightarrow> pool_state \<Rightarrow> bool" where
  "heap_inv mp st \<longleftrightarrow> pool_ok mp \<and> (\<exists>bs. repr mp st bs \<and> aligned bs)"

definition live :: "nat \<Rightarrow> pool_state \<Rightarrow> (nat \<times> nat) set" where
  "live mp st = {r. \<exists>bs. repr mp st bs \<and> r \<in> set (used mp bs)}"

definition poke_byte :: "nat \<Rightarrow> u8 \<Rightarrow> pool_state \<Rightarrow> pool_state" where
  "poke_byte a v st = st\<lparr>pool := (pool st)(a := v)\<rparr>"

lemma POOL_META [simp]: "META < POOL_SIZE" "unat (of_nat (POOL_SIZE - META) :: u64) = POOL_SIZE - META"
  by (simp_all add: POOL_SIZE_def META_def)

lemma META_rest [simp]: "META + (POOL_SIZE - META) = POOL_SIZE"
  by (simp add: POOL_SIZE_def META_def)

lemma repr_unique: "repr mp st bs \<Longrightarrow> repr mp st bs' \<Longrightarrow> bs = bs'"
  by (auto simp: repr_def split: if_splits dest: chain_unique)

lemma live_repr: "repr mp st bs \<Longrightarrow> live mp st = set (used mp bs)"
  by (auto simp: live_def dest: repr_unique)

lemma live_uninit: "isInitialized st = 0 \<Longrightarrow> live mp st = {}"
  by (auto simp: live_def repr_def)

lemma init_chain:
  "0 < mp \<Longrightarrow> chain (pool (init_allocator mp st)) mp (mp + POOL_SIZE) [(POOL_SIZE - META, True)]"
  by (simp add: init_allocator_def Let_def link_def)

lemma init_frame: "x < mp \<or> mp + META \<le> x \<Longrightarrow> pool (init_allocator mp st) x = pool st x"
  by (simp add: init_allocator_def Let_def hdr_write_other)

lemma init_flag [simp]: "isInitialized (init_allocator mp st) = 1"
  by (simp add: init_allocator_def Let_def)

definition started :: "nat \<Rightarrow> pool_state \<Rightarrow> pool_state" where
  "started mp st = (if isInitialized st = 0 then init_allocator mp st else st)"

lemma started_chain:
  "pool_ok mp \<Longrightarrow> repr mp st bs \<Longrightarrow> chain (pool (started mp st)) mp (mp + POOL_SIZE) bs"
  using init_chain by (auto simp: started_def repr_def pool_ok_def split: if_splits)

lemma started_flag [simp]: "isInitialized (started mp st) \<noteq> 0"
  by (simp add: started_def)

lemma chain_hdr_first: "chain m a e bs \<Longrightarrow> a < e \<Longrightarrow> {a..<a + META} \<subseteq> hdrs a bs"
  by (cases bs) auto

lemma internal_allocation_cases:
  assumes ok: "pool_ok mp" and r: "repr mp st bs"
  shows "case first_fit (unat (align8 sz)) mp bs of
      None \<Rightarrow> \<exists>st'. internal_allocation mp sz st = Some (st', 0) \<and> repr mp st' bs \<and>
        isInitialized st' \<noteq> 0 \<and> (\<forall>x. x \<notin> hdrs mp bs \<longrightarrow> pool st' x = pool st x)
    | Some (bs', p) \<Rightarrow> \<exists>st'. internal_allocation mp sz st = Some (st', p) \<and> repr mp st' bs' \<and>
        isInitialized st' \<noteq> 0 \<and> (\<forall>x. x \<notin> hdrs mp bs' \<longrightarrow> pool st' x = pool st x)"
proof -
  let ?e = "mp + POOL_SIZE" and ?st = "started mp st"
  have mp: "0 < mp" "?e < 2 ^ 63" using ok by (auto simp: pool_ok_def)
  have ch: "chain (pool ?st) mp ?e bs" using started_chain [OF ok r] .
  have start: "link ?e mp = mp" by (simp add: link_def POOL_SIZE_def)
  have ia: "internal_allocation mp sz st =
      map_option (\<lambda>(m, p). (?st\<lparr>pool := m\<rparr>, p)) (alloc_loop (align8 sz) (pool ?st) mp)"
    by (simp add: internal_allocation_def started_def Let_def)
  have init: "pool ?st x = pool st x" if "chain m mp ?e bs2" "x \<notin> hdrs mp bs2" for m bs2 x
  proof -
    have "{mp..<mp + META} \<subseteq> hdrs mp bs2"
      by (rule chain_hdr_first [OF that(1)]) (simp add: POOL_SIZE_def)
    then have "x \<notin> {mp..<mp + META}" using that(2) by blast
    then have "x < mp \<or> mp + META \<le> x" by auto
    then show ?thesis using init_frame [of x mp st] by (simp add: started_def)
  qed
  note ref = alloc_loop_refines [OF ch mp, of "align8 sz", unfolded start]
  show ?thesis
  proof (cases "first_fit (unat (align8 sz)) mp bs")
    case None
    with ref ch init [OF ch] show ?thesis by (simp add: ia repr_def)
  next
    case (Some y)
    obtain bs' p where y: "y = (bs', p)" by fastforce
    with ref Some obtain m' where m': "alloc_loop (align8 sz) (pool ?st) mp = Some (m', p)"
      "chain m' mp ?e bs'" "\<forall>x. x \<notin> hdrs mp bs' \<longrightarrow> m' x = pool ?st x" by auto
    with Some y init [OF m'(2)] show ?thesis by (simp add: ia repr_def)
  qed
qed


lemma and_not_7: "(w :: u64) AND NOT 7 = push_bit 3 (drop_bit 3 w)"
proof -
  have "w AND NOT (mask 3) = push_bit 3 (drop_bit 3 w)"
    by (rule bit_word_eqI) (auto simp: bit_simps simp del: mask_numeral)
  moreover have "(mask 3 :: u64) = 7" by (simp add: mask_eq_exp_minus_1)
  ultimately show ?thesis by simp
qed

lemma unat_align8: "unat (align8 sz) = (unat sz + 7) mod 2 ^ 64 div 8 * 8"
proof -
  let ?w = "sz + 7"
  have w: "unat ?w < 2 ^ 64" using unat_u64_less [of ?w] by simp
  have "unat (align8 sz) = take_bit 64 (push_bit 3 (drop_bit 3 (take_bit 64 (unat ?w))))"
    unfolding align8_def and_not_7 by (simp add: unsigned_push_bit_eq unsigned_drop_bit_eq)
  also have "take_bit 64 (unat ?w) = unat ?w" using w by (simp add: take_bit_nat_eq_self)
  also have "take_bit 64 (push_bit 3 (drop_bit 3 (unat ?w))) = (unat ?w div 8 * 8) mod 2 ^ 64"
    by (simp add: take_bit_eq_mod push_bit_eq_mult drop_bit_eq_div)
  also have "\<dots> = unat ?w div 8 * 8"
    using w by (intro mod_less) (meson div_times_less_eq_dividend le_less_trans)
  also have "unat ?w = (unat sz + 7) mod 2 ^ 64" by (simp add: unat_word_ariths)
  finally show ?thesis .
qed

lemma align8_dvd: "8 dvd unat (align8 sz)"
  by (simp add: unat_align8)

lemma align8_ge: "unat sz \<le> 2 ^ 64 - 8 \<Longrightarrow> unat sz \<le> unat (align8 sz)"
  by (simp add: unat_align8)

lemma align8_wraps: "2 ^ 64 - 8 < unat sz \<Longrightarrow> unat (align8 sz) = 0"
  using unat_u64_less [of sz] by (simp add: unat_align8 mod_if)

text \<open>Freeing the pointer of any block, used or free.\<close>

lemma bby_free_block:
  assumes "pool_ok mp" and "repr mp st bs" and "isInitialized st \<noteq> 0" and "p \<in> set (ptrs mp bs)"
  shows "repr mp (bby_free p st) (release p mp bs)" and "isInitialized (bby_free p st) \<noteq> 0"
    and "x < p - META \<or> p \<le> x \<Longrightarrow> pool (bby_free p st) x = pool st x"
proof -
  have ge: "mp + META \<le> p" using ptr_ge [OF assms(4)] .
  have e: "0 < mp" "mp + POOL_SIZE < 2 ^ 63" using assms(1) by (auto simp: pool_ok_def)
  show "repr mp (bby_free p st) (release p mp bs)"
    using free_block_refines [OF _ assms(4) e] assms(2,3) ge META_pos(2)
    by (auto simp: repr_def bby_free_free_block)
  show "isInitialized (bby_free p st) \<noteq> 0" using assms(3) by (simp add: bby_free_free_block)
  show "x < p - META \<or> p \<le> x \<Longrightarrow> pool (bby_free p st) x = pool st x"
    using free_block_frame [of x "p - META" "pool st"] ge
    by (auto simp: bby_free_free_block)
qed

lemma used_initialized: "repr mp st bs \<Longrightarrow> (p, n) \<in> set (used mp bs) \<Longrightarrow> isInitialized st \<noteq> 0"
  by (auto simp: repr_def)

lemma bby_free_cases:
  assumes "pool_ok mp" and r: "repr mp st bs" and u: "(p, n) \<in> set (used mp bs)"
  shows "repr mp (bby_free p st) (release p mp bs)"
    and "x < p - META \<or> p \<le> x \<Longrightarrow> pool (bby_free p st) x = pool st x"
  using bby_free_block [OF assms(1) r used_initialized [OF r u] used_ptrs [OF u]] by blast+

lemma poke_repr:
  assumes r: "repr mp st bs" and u: "(p, n) \<in> set (used mp bs)" and a: "p \<le> a" "a < p + n"
  shows "repr mp (poke_byte a v st) bs"
proof -
  have "chain ((pool st)(a := v)) mp e bs = chain (pool st) mp e bs" for e
    by (rule chain_frame) (use used_hdrs [OF u a] in auto)
  then show ?thesis using r by (simp add: repr_def poke_byte_def)
qed

lemma first_fit_None: "first_fit n a bs = None \<longleftrightarrow> (\<forall>(s, f) \<in> set bs. f \<longrightarrow> s < n)"
  by (induction n a bs rule: first_fit.induct) auto

section \<open>The allocator keeps the heap contract\<close>

lemma heap_inv_E:
  assumes "heap_inv mp st"
  obtains bs where "pool_ok mp" "repr mp st bs" "aligned bs" "live mp st = set (used mp bs)"
  using assms live_repr by (auto simp: heap_inv_def)

lemma alloc_contract:
  assumes h: "heap_inv mp st"
  obtains st' p where "internal_allocation mp sz st = Some (st', p)" "heap_inv mp st'"
    "p = 0 \<Longrightarrow> live mp st' = live mp st"
    "p \<noteq> 0 \<Longrightarrow> \<exists>k. unat (align8 sz) \<le> k \<and> live mp st' = insert (p, k) (live mp st) \<and>
       (\<forall>(q, j) \<in> live mp st. p + k + META \<le> q \<or> q + j + META \<le> p)"
    "\<And>q j x. (q, j) \<in> live mp st \<Longrightarrow> q \<le> x \<Longrightarrow> x < q + j \<Longrightarrow> pool st' x = pool st x"
proof -
  obtain bs where ok: "pool_ok mp" and r: "repr mp st bs" and al: "aligned bs"
    and lv: "live mp st = set (used mp bs)" using heap_inv_E [OF h] .
  note cs = internal_allocation_cases [OF ok r, of sz]
  show thesis
  proof (cases "first_fit (unat (align8 sz)) mp bs")
    case None
    with cs obtain st' where st': "internal_allocation mp sz st = Some (st', 0)" "repr mp st' bs"
      "\<forall>x. x \<notin> hdrs mp bs \<longrightarrow> pool st' x = pool st x" by auto
    show thesis
    proof (rule that [OF st'(1)])
      show "heap_inv mp st'" using ok st'(2) al by (auto simp: heap_inv_def)
      show "live mp st' = live mp st" using lv live_repr [OF st'(2)] by simp
      show "pool st' x = pool st x" if "(q, j) \<in> live mp st" "q \<le> x" "x < q + j" for q j x
        using used_hdrs that st'(3) by (simp add: lv)
    qed simp
  next
    case (Some y)
    obtain bs' p where y: "y = (bs', p)" by fastforce
    with cs Some obtain st' where st': "internal_allocation mp sz st = Some (st', p)"
      "repr mp st' bs'" "\<forall>x. x \<notin> hdrs mp bs' \<longrightarrow> pool st' x = pool st x" by auto
    have ff: "first_fit (unat (align8 sz)) mp bs = Some (bs', p)" using Some y by simp
    have p: "p \<noteq> 0" using first_fit_pos [OF ff] ok by (simp add: pool_ok_def)
    have lv': "live mp st' = set (used mp bs')" by (rule live_repr [OF st'(2)])
    obtain k where k: "unat (align8 sz) \<le> k" "set (used mp bs') = insert (p, k) (set (used mp bs))"
      "\<forall>(q, j) \<in> set (used mp bs). p + k + META \<le> q \<or> q + j + META \<le> p"
      using first_fit_used [OF ff] by blast
    show thesis
    proof (rule that [OF st'(1)])
      show "heap_inv mp st'"
        using ok st'(2) aligned_first_fit [OF ff al align8_dvd] by (auto simp: heap_inv_def)
      show "live mp st' = live mp st" if "p = 0" using that p by simp
      show "\<exists>k. unat (align8 sz) \<le> k \<and> live mp st' = insert (p, k) (live mp st) \<and>
          (\<forall>(q, j) \<in> live mp st. p + k + META \<le> q \<or> q + j + META \<le> p)"
        using k lv lv' by auto
      show "pool st' x = pool st x" if "(q, j) \<in> live mp st" "q \<le> x" "x < q + j" for q j x
      proof -
        have "(q, j) \<in> set (used mp bs')" using that(1) k(2) lv by auto
        then show ?thesis using used_hdrs [of q j mp bs' x] that st'(3) by simp
      qed
    qed
  qed
qed

lemma alloc_contractD:
  assumes "heap_inv mp st" and "internal_allocation mp sz st = Some (st', p)"
  shows "heap_inv mp st'"
    and "p = 0 \<Longrightarrow> live mp st' = live mp st"
    and "p \<noteq> 0 \<Longrightarrow> \<exists>k. unat (align8 sz) \<le> k \<and> live mp st' = insert (p, k) (live mp st) \<and>
       (\<forall>(q, j) \<in> live mp st. p + k + META \<le> q \<or> q + j + META \<le> p)"
    and "(q, j) \<in> live mp st \<Longrightarrow> q \<le> x \<Longrightarrow> x < q + j \<Longrightarrow> pool st' x = pool st x"
  by (rule alloc_contract [OF assms(1), of sz]; simp add: assms(2))+

interpretation bby: region_heap "heap_inv mp" "live mp" pool "internal_allocation mp" bby_free
  poke_byte "\<lambda>sz. unat (align8 sz)" for mp
proof (unfold_locales, goal_cases)
  case (1 s r)
  then show ?case by (rule alloc_contract [of mp s r]) blast
next
  case (2 s r s' p)
  then show ?case by (rule alloc_contractD(1))
next
  case (3 s r s')
  then show ?case by (rule alloc_contractD(2)) simp
next
  case (4 s r s' p)
  obtain k where k: "unat (align8 r) \<le> k" "live mp s' = insert (p, k) (live mp s)"
    "\<forall>(q, j) \<in> live mp s. p + k + META \<le> q \<or> q + j + META \<le> p"
    using alloc_contractD(3) [OF 4] by blast
  then have "(p, k) \<notin> live mp s" using META_pos by fastforce
  with k show ?case by blast
next
  case (5 s r s' p q j x)
  then show ?case by (rule alloc_contractD(4))
next
  case (6 s p n q k)
  then obtain bs where "live mp s = set (used mp bs)" by (elim heap_inv_E)
  then show ?case using used_disjoint [of p n mp bs q k] 6 by auto
next
  case (7 s p k)
  then obtain bs where "pool_ok mp" "repr mp s bs" "aligned bs" "live mp s = set (used mp bs)"
    by (elim heap_inv_E)
  with 7 show ?case by (auto simp: heap_inv_def intro: bby_free_cases aligned_release)
next
  case (8 s p k)
  then obtain bs where bs: "pool_ok mp" "repr mp s bs" "live mp s = set (used mp bs)"
    by (elim heap_inv_E)
  with 8 have "live mp (bby_free p s) = set (used mp (release p mp bs))"
    by (intro live_repr bby_free_cases(1)) auto
  then show ?case using bs 8 by (simp add: release_used)
next
  case (9 s p k q j x)
  then obtain bs where bs: "pool_ok mp" "repr mp s bs" "live mp s = set (used mp bs)"
    by (elim heap_inv_E)
  then have "x < p - META \<or> p \<le> x"
    using used_disjoint [of p k mp bs q j] used_ptr_ge [of q j mp bs] 9 by auto
  then show ?case using bby_free_cases(2) [OF bs(1,2)] 9 bs(3) by simp
next
  case (10 s p k a v)
  then obtain bs where "pool_ok mp" "repr mp s bs" "aligned bs" "live mp s = set (used mp bs)"
    by (elim heap_inv_E)
  with 10 show ?case by (auto simp: heap_inv_def intro: poke_repr)
next
  case (11 s p k a v)
  then obtain bs where bs: "repr mp s bs" "live mp s = set (used mp bs)"
    by (elim heap_inv_E)
  with 11 have "repr mp (poke_byte a v s) bs" by (auto intro: poke_repr)
  then show ?case using bs live_repr by simp
next
  case (12 a v s)
  then show ?case by (simp add: poke_byte_def)
qed

end
