(* ===== verification/AllocatorProps.thy ===== *)
theory AllocatorProps
  imports Allocator "HOL-Library.Monad_Syntax"
begin

text \<open>
  \<^verbatim>\<open>baby_malloc/bby_malloc.c\<close>, second part: the state dump, the demo \<^verbatim>\<open>main\<close>, and the properties of
  the allocator: refinement of the abstract first fit, memory safety of clients, the wrap-around of
  the alignment, and what freeing merges.
\<close>

section \<open>Dump and demo\<close>

definition dump_entry :: "nat \<Rightarrow> bool \<Rightarrow> string" where
  "dump_entry n f = ''[ size='' @ dec_nat n @ '', '' @ (if f then ''FREE'' else ''USED'') @ '' ] -> ''"

partial_function (option) dump_loop :: "mem \<Rightarrow> nat \<Rightarrow> string \<Rightarrow> string option" where
  "dump_loop m cur out =
     (if cur = 0 then Some out
      else dump_loop m (blk_next m cur)
             (out @ dump_entry (unat (blk_size m cur)) (blk_free m cur \<noteq> 0)))"

definition dump_allocator_state :: "nat \<Rightarrow> pool_state \<Rightarrow> string option" where
  "dump_allocator_state mp st =
     map_option (\<lambda>out. out @ ''NULL'' @ [NL] @ ''--------------------'' @ [NL, NL])
       (dump_loop (pool st) mp ([NL] @ ''----Allocator State---- '' @ [NL]))"

definition malloc_report :: "(nat \<Rightarrow> string) \<Rightarrow> string \<Rightarrow> nat \<Rightarrow> nat \<Rightarrow> int \<Rightarrow> string" where
  "malloc_report fmt_p name n p ret =
     (if ret \<noteq> 0 then ''Allocated '' @ name @ '' ('' @ dec_nat n @ '' bytes) at '' @ fmt_p p @ [NL]
      else ''Failed to allocate '' @ name @ [NL])"

text \<open>
  The demo: the text it prints and the three pointers it obtained. \<open>fmt_p\<close> is the library's
  rendering of \<^verbatim>\<open>%p\<close>, which the C standard leaves open.
\<close>

definition bby_main :: "(nat \<Rightarrow> string) \<Rightarrow> nat \<Rightarrow> (string \<times> nat \<times> nat \<times> nat) option" where
  "bby_main fmt_p mp = do {
     let st0 = static_pool;
     d0 \<leftarrow> dump_allocator_state mp st0;
     (st1, p1, r1) \<leftarrow> bby_malloc mp 100 st0;
     d1 \<leftarrow> dump_allocator_state mp st1;
     (st2, p2, r2) \<leftarrow> bby_malloc mp 200 st1;
     d2 \<leftarrow> dump_allocator_state mp st2;
     let st3 = bby_free p1 st2;
     d3 \<leftarrow> dump_allocator_state mp st3;
     (st4, p3, r3) \<leftarrow> bby_malloc mp 50 st3;
     d4 \<leftarrow> dump_allocator_state mp st4;
     Some (''Allocator initialized with '' @ dec_nat POOL_SIZE @ '' bytes'' @ [NL] @ d0 @
           malloc_report fmt_p ''p1'' 100 p1 r1 @ d1 @ malloc_report fmt_p ''p2'' 200 p2 r2 @ d2 @
           ''Freed p1'' @ [NL] @ d3 @ malloc_report fmt_p ''p3'' 50 p3 r3 @ d4, p1, p2, p3)
   }"

definition dump_text :: "block list \<Rightarrow> string" where
  "dump_text bs = [NL] @ ''----Allocator State---- '' @ [NL] @
     concat (map (\<lambda>(s, f). dump_entry s f) bs) @ ''NULL'' @ [NL] @ ''--------------------'' @ [NL, NL]"

lemma dump_loop_chain:
  "chain m a e bs \<Longrightarrow> 0 < a \<Longrightarrow> dump_loop m (link e a) out =
     Some (out @ concat (map (\<lambda>(s, f). dump_entry s f) bs))"
proof (induction m a e bs arbitrary: out rule: chain.induct)
  case (1 m a e)
  then show ?case by (simp add: link_def dump_loop.simps)
next
  case (2 m a e s f bs)
  have "link e a = a" using chain_end [OF 2(2)] by (simp add: link_def META_def)
  then show ?case using 2 by (subst dump_loop.simps) simp
qed

lemma dump_repr:
  assumes "pool_ok mp" and "repr mp st bs" and "isInitialized st \<noteq> 0"
  shows "dump_allocator_state mp st = Some (dump_text bs)"
proof -
  have ch: "chain (pool st) mp (mp + POOL_SIZE) bs" and mp: "0 < mp"
    using assms by (auto simp: repr_def pool_ok_def)
  have "link (mp + POOL_SIZE) mp = mp" by (simp add: link_def POOL_SIZE_def)
  then show ?thesis
    using dump_loop_chain [OF ch mp] by (simp add: dump_allocator_state_def dump_text_def)
qed

lemma static_repr: "repr mp static_pool [(POOL_SIZE - META, True)]"
  by (simp add: repr_def static_pool_def)

lemma le_load_zero: "le_load (\<lambda>_. 0) a n = 0"
  by (induction n arbitrary: a) auto

lemma dump_static: "0 < mp \<Longrightarrow> dump_allocator_state mp static_pool = Some (dump_text [(0, False)])"
  by (simp add: dump_allocator_state_def dump_text_def static_pool_def dump_loop.simps [of _ mp]
      dump_loop.simps [of _ 0] blk_size_def blk_free_def blk_next_def le_load_zero)

section \<open>Properties\<close>

lemma bby_malloc_result:
  assumes ok: "pool_ok mp" and r: "repr mp st bs"
  shows "case first_fit (unat (align8 sz)) mp bs of
      None \<Rightarrow> \<exists>st'. bby_malloc mp sz st = Some (st', 0, 0) \<and> repr mp st' bs \<and> isInitialized st' \<noteq> 0
    | Some (bs', p) \<Rightarrow> \<exists>st'. bby_malloc mp sz st = Some (st', p, 1) \<and> repr mp st' bs' \<and>
        isInitialized st' \<noteq> 0"
proof -
  have "p \<noteq> 0" if "first_fit (unat (align8 sz)) mp bs = Some (bs', p)" for bs' p
    using first_fit_pos [OF that] META_pos(1) by linarith
  then show ?thesis
    using internal_allocation_cases [OF ok r, of sz]
    by (fastforce simp: bby_malloc_def split: option.splits)
qed

text \<open>
  C2: on every heap of a well-formed pool \<^verbatim>\<open>bby_malloc\<close> returns, and does what first fit does on the
  list of blocks: code 0 and NULL with the blocks unchanged when no free block is large enough for
  the aligned size, otherwise code 1, the first such block's payload address and the carved list.
\<close>

theorem bby_malloc_refines:
  assumes "pool_ok mp" and "repr mp st bs"
  shows "case first_fit (unat (align8 sz)) mp bs of
      None \<Rightarrow> \<exists>st'. bby_malloc mp sz st = Some (st', 0, 0) \<and> repr mp st' bs
    | Some (bs', p) \<Rightarrow> \<exists>st'. bby_malloc mp sz st = Some (st', p, 1) \<and> repr mp st' bs'"
  using bby_malloc_result [OF assms, of sz] by (auto split: option.splits)

theorem bby_malloc_refines_witness:
  "\<exists>st'. bby_malloc 4096 100 static_pool = Some (st', 4120, 1) \<and>
     repr 4096 st' [(104, False), (1048424, True)]"
proof -
  have "pool_ok 4096" by (simp add: pool_ok_def POOL_SIZE_def)
  then show ?thesis
    using bby_malloc_refines [of 4096 static_pool "[(POOL_SIZE - META, True)]" 100] static_repr
    by (simp add: unat_align8 POOL_SIZE_def META_def)
qed


text \<open>
  C3: freeing a live pointer is \<open>release\<close> on the list of blocks: its block becomes free and absorbs
  the block after it when that one is free; no byte outside the block's own header changes.
\<close>

theorem bby_free_refines:
  assumes "pool_ok mp" and "repr mp st bs" and "(p, n) \<in> set (used mp bs)"
  shows "repr mp (bby_free p st) (release p mp bs) \<and>
    (\<forall>x. x < p - META \<or> p \<le> x \<longrightarrow> pool (bby_free p st) x = pool st x)"
  using bby_free_cases [OF assms] by blast

lemma pool_4096: "pool_ok 4096"
  by (simp add: pool_ok_def POOL_SIZE_def)

lemma first_two:
  "\<exists>st. repr 4096 st [(104, False), (1048424, True)]"
  using internal_allocation_cases [OF pool_4096 static_repr, of 100]
  by (auto simp: unat_align8 POOL_SIZE_def META_def)

theorem bby_free_refines_witness:
  "\<exists>st. repr 4096 st [(104, False), (1048424, True)] \<and>
     repr 4096 (bby_free 4120 st) [(1048552, True)]"
proof -
  obtain st where st: "repr 4096 st [(104, False), (1048424, True)]" using first_two by blast
  have "(4120, 104) \<in> set (used 4096 [(104, False), (1048424, True)])" by (simp add: META_def)
  from bby_free_refines [OF pool_4096 st this] have "repr 4096 (bby_free 4120 st) [(1048552, True)]"
    by (simp add: META_def)
  with st show ?thesis by blast
qed

text \<open>
  C4: a successful \<^verbatim>\<open>bby_malloc\<close> whose size does not wrap hands out a block that lies inside the
  pool, is a multiple of eight bytes from its start, holds at least the requested bytes, and is at
  least one header away from every live block.
\<close>

theorem bby_malloc_region:
  assumes "heap_inv mp st" and "bby_malloc mp sz st = Some (st', p, 1)" and "unat sz \<le> 2 ^ 64 - 8"
  shows "\<exists>k. unat sz \<le> k \<and> (p, k) \<in> live mp st' \<and> mp + META \<le> p \<and> p + k \<le> mp + POOL_SIZE \<and>
    8 dvd p - mp \<and> (\<forall>(q, j) \<in> live mp st. p + k + META \<le> q \<or> q + j + META \<le> p)"
proof -
  have ia: "internal_allocation mp sz st = Some (st', p)" and p: "p \<noteq> 0"
    using assms(2) by (auto simp: bby_malloc_def split: option.splits if_splits)
  obtain k where k: "unat (align8 sz) \<le> k" "live mp st' = insert (p, k) (live mp st)"
    "\<forall>(q, j) \<in> live mp st. p + k + META \<le> q \<or> q + j + META \<le> p"
    using alloc_contractD(3) [OF assms(1) ia p] by blast
  obtain bs where bs: "repr mp st' bs" "aligned bs" "live mp st' = set (used mp bs)"
    using alloc_contractD(1) [OF assms(1) ia] by (elim heap_inv_E)
  have u: "(p, k) \<in> set (used mp bs)" using k(2) bs(3) by auto
  have "mp + span bs = mp + POOL_SIZE"
    using bs(1) chain_end [of "pool st'" mp "mp + POOL_SIZE" bs] by (auto simp: repr_def split: if_splits)
  then show ?thesis
    using k align8_ge [OF assms(3)] used_ptr_ge [OF u] used_aligned [OF u bs(2)]
    by (intro exI [of _ k]) auto
qed

theorem bby_malloc_region_witness:
  "\<exists>st' k. bby_malloc 4096 100 static_pool = Some (st', 4120, 1) \<and> 100 \<le> k \<and>
     (4120, k) \<in> live 4096 st'"
proof -
  have inv: "heap_inv 4096 static_pool"
    using pool_4096 static_repr unfolding heap_inv_def
    by (intro conjI exI [of _ "[(POOL_SIZE - META, True)]"]) (simp_all add: POOL_SIZE_def META_def)
  obtain st' where m: "bby_malloc 4096 100 static_pool = Some (st', 4120, 1)"
    using bby_malloc_result [OF pool_4096 static_repr, of 100]
    by (auto simp: unat_align8 POOL_SIZE_def META_def)
  with bby_malloc_region [OF inv m] show ?thesis by auto
qed

text \<open>
  C1: isolation of clients. Whatever sequence of allocations, frees of live pointers and writes
  inside live blocks a client performs, a block it keeps stays live, its bytes change only by writes
  to it, and live blocks never overlap.
\<close>

theorem bby_isolation:
  assumes "heap_trace (internal_allocation mp) bby_free poke_byte (live mp) ops st st'"
    and "heap_inv mp st" and "(q, j) \<in> live mp st" and "Put q \<notin> set ops"
    and "\<And>a v. Poke a v \<in> set ops \<Longrightarrow> a < q \<or> q + j \<le> a"
  shows "(q, j) \<in> live mp st' \<and> (\<forall>x. q \<le> x \<longrightarrow> x < q + j \<longrightarrow> pool st' x = pool st x) \<and>
    (\<forall>(p, n) \<in> live mp st'. p = q \<and> n = j \<or> p + n \<le> q \<or> q + j \<le> p)"
proof -
  have "(q, j) \<in> live mp st' \<and> (\<forall>x. q \<le> x \<longrightarrow> x < q + j \<longrightarrow> pool st' x = pool st x)"
    by (rule bby.trace_keeps [OF assms(1-4)]) (rule assms(5))
  then show ?thesis using bby.trace_disjoint [OF assms(1,2)] by blast
qed

theorem bby_isolation_witness:
  "\<exists>st st'. heap_trace (internal_allocation 4096) bby_free poke_byte (live 4096)
     [Get 16 4248, Poke 4250 7, Put 4248] st st' \<and> (4120, 104) \<in> live 4096 st \<and>
     (4120, 104) \<in> live 4096 st'"
proof -
  obtain st where st: "repr 4096 st [(104, False), (1048424, True)]" using first_two by blast
  then have inv: "heap_inv 4096 st" using pool_4096 by (auto simp: heap_inv_def)
  have lv: "(4120, 104) \<in> live 4096 st" by (simp add: live_repr [OF st] META_def)
  obtain st1 where st1: "internal_allocation 4096 16 st = Some (st1, 4248)"
    "repr 4096 st1 [(104, False), (16, False), (1048384, True)]"
    using internal_allocation_cases [OF pool_4096 st, of 16]
    by (auto simp: unat_align8 META_def)
  have u: "(4248, 16) \<in> set (used 4096 [(104, False), (16, False), (1048384, True)])"
    by (simp add: META_def)
  have l1: "(4248, 16) \<in> live 4096 st1" using u live_repr [OF st1(2)] by simp
  have st2: "repr 4096 (poke_byte 4250 7 st1) [(104, False), (16, False), (1048384, True)]"
    by (rule poke_repr [OF st1(2) u]) simp_all
  have l2: "(4248, 16) \<in> live 4096 (poke_byte 4250 7 st1)" using u live_repr [OF st2] by simp
  have tr: "heap_trace (internal_allocation 4096) bby_free poke_byte (live 4096)
      [Get 16 4248, Poke 4250 7, Put 4248] st (bby_free 4248 (poke_byte 4250 7 st1))"
    using st1(1) l1 l2 by (fastforce simp: heap_trace_simps)
  have "(4120, 104) \<in> live 4096 (bby_free 4248 (poke_byte 4250 7 st1))"
    using bby_isolation [OF tr inv lv] by auto
  with tr lv show ?thesis by blast
qed

text \<open>
  the alignment wraps. A request within seven bytes of \<^verbatim>\<open>SIZE_MAX\<close> is rounded to zero, so on a
  fresh pool the call reports success and hands out a block of no bytes at all.
\<close>

theorem bby_malloc_wraps:
  assumes "pool_ok mp" and "2 ^ 64 - 8 < unat sz"
  shows "\<exists>st'. bby_malloc mp sz static_pool = Some (st', mp + META, 1) \<and>
    live mp st' = {(mp + META, 0)}"
proof -
  have a: "unat (align8 sz) = 0" by (rule align8_wraps [OF assms(2)])
  obtain st' where st': "bby_malloc mp sz static_pool = Some (st', mp + META, 1)"
    "repr mp st' [(0, False), (POOL_SIZE - META - META, True)]"
    using bby_malloc_result [OF assms(1) static_repr, of sz]
    by (auto simp: a POOL_SIZE_def META_def)
  then show ?thesis using live_repr [OF st'(2)] by auto
qed

theorem bby_malloc_wraps_witness:
  "\<exists>st'. bby_malloc 4096 (- 1) static_pool = Some (st', 4120, 1) \<and> live 4096 st' = {(4120, 0)}"
  using bby_malloc_wraps [OF pool_4096, of "- 1"] by (simp add: META_def unsigned_minus_1_eq_mask mask_eq_exp_minus_1)


fun coalesced :: "block list \<Rightarrow> bool" where
  "coalesced ((s, f) # (s', f') # bs) \<longleftrightarrow> \<not> (f \<and> f') \<and> coalesced ((s', f') # bs)"
| "coalesced bs \<longleftrightarrow> True"

lemma coalesced_tl: "coalesced (b # bs) \<Longrightarrow> coalesced bs"
  by (cases b; cases bs) auto

lemma release_first_fit:
  "first_fit n a bs = Some (bs', p) \<Longrightarrow> coalesced bs \<Longrightarrow> release p a bs' = bs"
proof (induction n a bs arbitrary: bs' rule: first_fit.induct)
  case (1 n a)
  then show ?case by simp
next
  case (2 n a s f bs)
  show ?case
  proof (cases "f \<and> n \<le> s")
    case True
    then show ?thesis using 2(2,3)
      by (auto simp: META_def split: if_splits list.splits bool.splits)
  next
    case False
    then obtain bs2 where ff: "first_fit n (a + META + s) bs = Some (bs2, p)"
      and bs': "bs' = (s, f) # bs2" using 2(2) by (auto split: if_splits)
    have "a + META + s + META \<le> p" using ff first_fit_pos by blast
    then have "p \<noteq> a + META" using META_pos(1) by linarith
    then show ?thesis using 2(1) [OF False ff coalesced_tl [OF 2(3)]] by (simp add: bs')
  qed
qed

text \<open>
  on a heap without two neighbouring free blocks, freeing what \<^verbatim>\<open>bby_malloc\<close> has just returned
  restores the list of blocks, split or not.
\<close>

theorem malloc_free_roundtrip:
  assumes "pool_ok mp" and "repr mp st bs" and "coalesced bs"
    and "bby_malloc mp sz st = Some (st', p, 1)"
  shows "repr mp (bby_free p st') bs"
proof -
  obtain bs' where ff: "first_fit (unat (align8 sz)) mp bs = Some (bs', p)" and r: "repr mp st' bs'"
    using bby_malloc_result [OF assms(1,2), of sz] assms(4) by (auto split: option.splits)
  obtain k where "set (used mp bs') = insert (p, k) (set (used mp bs))"
    using first_fit_used [OF ff] by blast
  then show ?thesis
    using bby_free_cases(1) [OF assms(1) r, of p k] release_first_fit [OF ff assms(3)] by simp
qed

theorem malloc_free_roundtrip_witness:
  "\<exists>st'. bby_malloc 4096 100 static_pool = Some (st', 4120, 1) \<and>
     repr 4096 (bby_free 4120 st') [(1048552, True)]"
proof -
  obtain st' where m: "bby_malloc 4096 100 static_pool = Some (st', 4120, 1)"
    using bby_malloc_result [OF pool_4096 static_repr, of 100]
    by (auto simp: unat_align8 POOL_SIZE_def META_def)
  with malloc_free_roundtrip [OF pool_4096 static_repr _ m] show ?thesis
    by (simp add: POOL_SIZE_def META_def)
qed

text \<open>
  freed blocks merge only forwards. When the block before a freed block is already free the two
  stay apart, and a request larger than both is refused although no block of the pool is live.
\<close>

theorem free_does_not_merge_backwards:
  assumes "pool_ok mp" and "repr mp st [(s1, True), (s2, False)]"
    and "st' = bby_free (mp + META + s1 + META) st"
  shows "live mp st' = {} \<and> repr mp st' [(s1, True), (s2, True)] \<and>
    (\<forall>sz. max s1 s2 < unat (align8 sz) \<longrightarrow> (\<exists>st''. bby_malloc mp sz st' = Some (st'', 0, 0)))"
proof -
  have u: "(mp + META + s1 + META, s2) \<in> set (used mp [(s1, True), (s2, False)])" by simp
  have r: "repr mp st' [(s1, True), (s2, True)]"
    using bby_free_cases(1) [OF assms(1,2) u] assms(3) by (simp add: META_def)
  moreover have "\<exists>st''. bby_malloc mp sz st' = Some (st'', 0, 0)"
    if "max s1 s2 < unat (align8 sz)" for sz
    using bby_malloc_result [OF assms(1) r, of sz] that by auto
  ultimately show ?thesis using live_repr [OF r] by simp
qed

lemma two_halves:
  "\<exists>st. repr 4096 st [(1024, True), (1047504, False)]"
proof -
  obtain st1 where 1: "repr 4096 st1 [(1024, False), (1047504, True)]"
    using internal_allocation_cases [OF pool_4096 static_repr, of 1024]
    by (auto simp: unat_align8 POOL_SIZE_def META_def)
  obtain st2 where 2: "repr 4096 st2 [(1024, False), (1047504, False)]"
    using internal_allocation_cases [OF pool_4096 1, of 1047504]
    by (auto simp: unat_align8 META_def)
  have "repr 4096 (bby_free 4120 st2) [(1024, True), (1047504, False)]"
    using bby_free_cases(1) [OF pool_4096 2, of 4120 1024] by (simp add: META_def)
  then show ?thesis by blast
qed

theorem free_does_not_merge_backwards_witness:
  "\<exists>st st''. live 4096 st = {} \<and> repr 4096 st [(1024, True), (1047504, True)] \<and>
     bby_malloc 4096 1048000 st = Some (st'', 0, 0)"
proof -
  obtain st where st: "repr 4096 st [(1024, True), (1047504, False)]" using two_halves by blast
  have "1048000 = unat (align8 1048000)" by (simp add: unat_align8)
  then show ?thesis using free_does_not_merge_backwards [OF pool_4096 st refl] by fastforce
qed

text \<open>
  the demo program. It prints a bogus first dump (an uninitialised header read as one used block
  of size 0), and after p1 is freed the third allocation reuses p1's block.
\<close>

theorem bby_main_output:
  assumes "pool_ok mp"
  shows "bby_main fmt_p mp = Some (
    ''Allocator initialized with 1048576 bytes'' @ [NL] @ dump_text [(0, False)] @
    malloc_report fmt_p ''p1'' 100 (mp + 24) 1 @ dump_text [(104, False), (1048424, True)] @
    malloc_report fmt_p ''p2'' 200 (mp + 152) 1 @
    dump_text [(104, False), (200, False), (1048200, True)] @
    ''Freed p1'' @ [NL] @ dump_text [(104, True), (200, False), (1048200, True)] @
    malloc_report fmt_p ''p3'' 50 (mp + 24) 1 @
    dump_text [(56, False), (24, True), (200, False), (1048200, True)],
    mp + 24, mp + 152, mp + 24)"
proof -
  have mp: "0 < mp" using assms by (simp add: pool_ok_def)
  obtain st1 where 1: "bby_malloc mp 100 static_pool = Some (st1, mp + 24, 1)"
    "repr mp st1 [(104, False), (1048424, True)]" "isInitialized st1 \<noteq> 0"
    using bby_malloc_result [OF assms static_repr, of 100]
    by (auto simp: unat_align8 POOL_SIZE_def META_def)
  obtain st2 where 2: "bby_malloc mp 200 st1 = Some (st2, mp + 152, 1)"
    "repr mp st2 [(104, False), (200, False), (1048200, True)]" "isInitialized st2 \<noteq> 0"
    using bby_malloc_result [OF assms 1(2), of 200]
    by (auto simp: unat_align8 META_def)
  have 3: "repr mp (bby_free (mp + 24) st2) [(104, True), (200, False), (1048200, True)]"
    using bby_free_cases(1) [OF assms 2(2), of "mp + 24" 104] by (simp add: META_def)
  have i3: "isInitialized (bby_free (mp + 24) st2) \<noteq> 0"
    using 2(3) by (simp add: bby_free_free_block)
  obtain st4 where 4: "bby_malloc mp 50 (bby_free (mp + 24) st2) = Some (st4, mp + 24, 1)"
    "repr mp st4 [(56, False), (24, True), (200, False), (1048200, True)]" "isInitialized st4 \<noteq> 0"
    using bby_malloc_result [OF assms 3, of 50]
    by (auto simp: unat_align8 META_def)
  have ps: "dec_nat POOL_SIZE = ''1048576''" by (simp add: POOL_SIZE_def dec_nat.simps)
  show ?thesis
    using dump_repr [OF assms 1(2,3)] dump_repr [OF assms 2(2,3)] dump_repr [OF assms 3 i3]
      dump_repr [OF assms 4(2,3)]
    by (simp add: bby_main_def dump_static [OF mp] 1(1) 2(1) 4(1) ps)
qed

theorem bby_main_output_witness:
  "\<exists>out. bby_main (\<lambda>p. dec_nat p) 4096 = Some (out, 4120, 4248, 4120)"
  using bby_main_output [OF pool_4096] by simp

end
