(* ===== verification/AllocatorStack.thy ===== *)
theory AllocatorStack
  imports AllocatorProps
begin

text \<open>
  Clients of \<^verbatim>\<open>baby_malloc/bby_malloc.c\<close> that release in the reverse order of allocation: forward
  merging is then enough to undo every split.
\<close>

section \<open>Stack discipline\<close>

datatype stack_op = Push u64 | Store nat nat u8 | Pop

text \<open>
  A client with the pointers it holds and the sizes it asked for, the latest first: it allocates, writes
  to a byte within the size of one of its blocks, or frees its latest block. A refused allocation leaves
  it without a new pointer.
\<close>

fun stack_step ::
  "nat \<Rightarrow> stack_op \<Rightarrow> pool_state \<times> (nat \<times> u64) list \<Rightarrow> (pool_state \<times> (nat \<times> u64) list) option" where
  "stack_step mp (Push sz) (st, ps) =
     (case bby_malloc mp sz st of
        None \<Rightarrow> None
      | Some (st', out, code) \<Rightarrow> Some (st', if code = 1 then (out, sz) # ps else ps))"
| "stack_step mp (Store i k v) (st, ps) =
     Some (if i < length ps \<and> k < unat (snd (ps ! i)) then poke_byte (fst (ps ! i) + k) v st else st, ps)"
| "stack_step mp Pop (st, ps) = Some (case ps of [] \<Rightarrow> (st, []) | (p, sz) # ps' \<Rightarrow> (bby_free p st, ps'))"

fun stack_run ::
  "nat \<Rightarrow> stack_op list \<Rightarrow> pool_state \<times> (nat \<times> u64) list \<Rightarrow> (pool_state \<times> (nat \<times> u64) list) option" where
  "stack_run mp [] s = Some s"
| "stack_run mp (op # ops) s = Option.bind (stack_step mp op s) (stack_run mp ops)"

text \<open>Requests that are not rounded to zero.\<close>

definition modest :: "stack_op \<Rightarrow> bool" where
  "modest op \<longleftrightarrow> (case op of Push sz \<Rightarrow> unat sz \<le> 2 ^ 64 - 8 | _ \<Rightarrow> True)"

text \<open>The block lists under the pointers: each is what first fit made of the one below.\<close>

inductive layered :: "nat \<Rightarrow> block list \<Rightarrow> block list \<Rightarrow> (nat \<times> u64) list \<Rightarrow> bool" for mp base where
  bottom: "layered mp base base []"
| layer: "layered mp base bs ps \<Longrightarrow> unat sz \<le> n \<Longrightarrow> first_fit n mp bs = Some (bs', p) \<Longrightarrow>
    layered mp base bs' ((p, sz) # ps)"

inductive_cases layered_ConsE: "layered mp base bs ((p, sz) # ps)"
inductive_simps layered_Nil: "layered mp base bs []"

lemma first_fit_head:
  "first_fit n a ((s, f) # bs) = Some ((s', f') # bs', p) \<Longrightarrow> f' \<Longrightarrow> f"
  by (auto split: if_splits)

lemma coalesced_first_fit:
  "first_fit n a bs = Some (bs', p) \<Longrightarrow> coalesced bs \<Longrightarrow> coalesced bs'"
proof (induction n a bs arbitrary: bs' rule: first_fit.induct)
  case (1 n a)
  then show ?case by simp
next
  case (2 n a s f bs)
  show ?case
  proof (cases "f \<and> n \<le> s")
    case True
    then show ?thesis using 2(2,3) by (cases bs) (auto split: if_splits)
  next
    case False
    then obtain bs2 where ff: "first_fit n (a + META + s) bs = Some (bs2, p)" and bs': "bs' = (s, f) # bs2"
      using 2(2) by (auto split: if_splits)
    have c: "coalesced bs2" using 2(1) [OF False ff coalesced_tl [OF 2(3)]] .
    obtain s1 f1 bs1 where b: "bs = (s1, f1) # bs1" using ff by (cases bs) auto
    show ?thesis
    proof (cases bs2)
      case (Cons y ys)
      then show ?thesis using c 2(3) ff bs' first_fit_head [of n _ s1 f1 bs1] by (cases y) (auto simp: b)
    qed (simp add: bs')
  qed
qed

lemma layered_coalesced: "layered mp base bs ps \<Longrightarrow> coalesced base \<Longrightarrow> coalesced bs"
  by (induction rule: layered.induct) (auto intro: coalesced_first_fit)

lemma layered_used:
  "layered mp base bs ps \<Longrightarrow> (p, sz) \<in> set ps \<Longrightarrow> \<exists>k \<ge> unat sz. (p, k) \<in> set (used mp bs)"
proof (induction rule: layered.induct)
  case (layer bs ps sz' n bs' p')
  obtain k where k: "n \<le> k" "set (used mp bs') = insert (p', k) (set (used mp bs))"
    using first_fit_used [OF layer.hyps(3)] by blast
  then show ?case
  proof (cases "(p, sz) \<in> set ps")
    case True
    then show ?thesis using layer.IH k(2) by blast
  next
    case False
    then have "p = p' \<and> sz = sz'" using layer.prems by simp
    then show ?thesis using k layer.hyps(2) by (intro exI [of _ k]) simp
  qed
qed simp

text \<open>The invariant of a client that started on \<open>base\<close>.\<close>

definition stacked :: "nat \<Rightarrow> block list \<Rightarrow> pool_state \<times> (nat \<times> u64) list \<Rightarrow> bool" where
  "stacked mp base s \<longleftrightarrow> (\<exists>bs. repr mp (fst s) bs \<and> layered mp base bs (snd s))"

lemma stack_step_stacked:
  assumes ok: "pool_ok mp" and c: "coalesced base" and s: "stacked mp base s" and op: "modest op"
  shows "\<exists>s'. stack_step mp op s = Some s' \<and> stacked mp base s'"
proof -
  obtain st ps bs where s': "s = (st, ps)" "repr mp st bs" "layered mp base bs ps"
    using s by (cases s) (auto simp: stacked_def)
  show ?thesis
  proof (cases op)
    case (Push sz)
    have n: "unat sz \<le> unat (align8 sz)" using op align8_ge by (simp add: Push modest_def)
    show ?thesis
      using bby_malloc_result [OF ok s'(2), of sz] s' layer [OF s'(3) n]
      by (cases "first_fit (unat (align8 sz)) mp bs") (fastforce simp: Push stacked_def)+
  next
    case (Store i k v)
    show ?thesis
    proof (cases "i < length ps \<and> k < unat (snd (ps ! i))")
      case True
      then have "(fst (ps ! i), snd (ps ! i)) \<in> set ps" by simp
      from layered_used [OF s'(3) this] obtain n where n: "(fst (ps ! i), n) \<in> set (used mp bs)" "k < n"
        using True by auto
      have "repr mp (poke_byte (fst (ps ! i) + k) v st) bs" by (rule poke_repr [OF s'(2) n(1)]) (use n(2) in simp_all)
      then show ?thesis using s' True by (auto simp: Store stacked_def)
    next
      case False
      then show ?thesis using s s'(1) by (auto simp: Store)
    qed
  next
    case Pop
    show ?thesis
    proof (cases ps)
      case Nil
      then show ?thesis using s s'(1) by (simp add: Pop)
    next
      case (Cons y ps')
      obtain p sz where y: "y = (p, sz)" by fastforce
      obtain bs1 n where l: "layered mp base bs1 ps'" "first_fit n mp bs1 = Some (bs, p)"
        using s'(3) by (auto simp: Cons y elim: layered_ConsE)
      obtain k where u: "(p, k) \<in> set (used mp bs)" using first_fit_used [OF l(2)] by blast
      have "repr mp (bby_free p st) bs1"
        using bby_free_cases(1) [OF ok s'(2) u] release_first_fit [OF l(2) layered_coalesced [OF l(1) c]] by simp
      then show ?thesis using l(1) s'(1) by (auto simp: Pop Cons y stacked_def)
    qed
  qed
qed

lemma stack_run_stacked:
  "pool_ok mp \<Longrightarrow> coalesced base \<Longrightarrow> stacked mp base s \<Longrightarrow> list_all modest ops \<Longrightarrow>
    \<exists>s'. stack_run mp ops s = Some s' \<and> stacked mp base s'"
proof (induction ops arbitrary: s)
  case (Cons op ops)
  from stack_step_stacked [OF Cons.prems(1-3), of op] Cons.prems(4)
  obtain s1 where "stack_step mp op s = Some s1" "stacked mp base s1" by auto
  then show ?case using Cons.IH [OF Cons.prems(1,2)] Cons.prems(4) by auto
qed simp

text \<open>
  C5: Stack discipline: on a heap whose list has no two adjacent free blocks, such as the fresh pool, a
  client that frees in the reverse order of its allocations, makes no request so large that it is
  rounded to zero and writes within the sizes it asked for, however it mixes allocations, refused ones
  included, writes and releases, never gets stuck; and whenever it holds nothing the list of blocks is
  what it was at the start: on the fresh pool, the single free block. Nothing is lost and nothing stays
  split.
\<close>

theorem stack_restores:
  assumes "pool_ok mp" and "repr mp st bs" and "coalesced bs" and "list_all modest ops"
  shows "\<exists>st' ps. stack_run mp ops (st, []) = Some (st', ps) \<and> (ps = [] \<longrightarrow> repr mp st' bs \<and> live mp st' = live mp st)"
proof -
  have "stacked mp bs (st, [])" using assms(2) bottom by (auto simp: stacked_def)
  from stack_run_stacked [OF assms(1,3) this assms(4)] obtain st' ps
    where r: "stack_run mp ops (st, []) = Some (st', ps)" "stacked mp bs (st', ps)" by auto
  have "repr mp st' bs" if "ps = []" using r(2) that by (auto simp: stacked_def layered_Nil)
  then show ?thesis using r(1) live_repr [OF assms(2)] live_repr [of mp st' bs] by auto
qed

lemma stack_run_append: "stack_run mp (xs @ ys) s = Option.bind (stack_run mp xs s) (stack_run mp ys)"
proof (induction xs arbitrary: s)
  case (Cons x xs)
  then show ?case by (cases "stack_step mp x s") simp_all
qed simp

lemma stack_run_length:
  "stack_run mp ops (st, ps) = Some (st', ps') \<Longrightarrow> length ps' \<le> length ps + length ops"
proof (induction ops arbitrary: st ps)
  case (Cons op ops)
  then obtain s1 ps1 where 1: "stack_step mp op (st, ps) = Some (s1, ps1)" "stack_run mp ops (s1, ps1) = Some (st', ps')"
    by (auto simp: bind_eq_Some_conv)
  have "length ps1 \<le> Suc (length ps)"
    using 1(1) by (cases op) (auto split: option.splits list.splits if_splits)
  then show ?case using Cons.IH [OF 1(2)] by simp
qed simp

lemma stack_run_pops: "\<exists>st'. stack_run mp (replicate n Pop) (st, ps) = Some (st', drop n ps)"
proof (induction n arbitrary: st ps)
  case (Suc n)
  then show ?case using Suc.IH [of st "[]"] by (cases ps) (auto split: prod.splits)
qed simp

theorem stack_restores_witness:
  "\<exists>st'. stack_run 4096 ([Push 100, Push 200, Store 1 7 42] @ [Pop, Pop, Pop]) (static_pool, []) = Some (st', []) \<and>
    repr 4096 st' [(1048552, True)] \<and> live 4096 st' = {}"
proof -
  let ?ops = "[Push 100, Push 200, Store 1 7 42]" and ?pops = "[Pop, Pop, Pop]"
  have c: "coalesced [(POOL_SIZE - META, True)]" by simp
  have m: "list_all modest (?ops @ ?pops)" by (simp add: modest_def)
  obtain st' ps where r: "stack_run 4096 (?ops @ ?pops) (static_pool, []) = Some (st', ps)"
      "ps = [] \<longrightarrow> repr 4096 st' [(POOL_SIZE - META, True)] \<and> live 4096 st' = live 4096 static_pool"
    using stack_restores [OF pool_4096 static_repr c m] by blast
  obtain s1 ps1 where s1: "stack_run 4096 ?ops (static_pool, []) = Some (s1, ps1)"
      "stack_run 4096 ?pops (s1, ps1) = Some (st', ps)"
    using r(1) unfolding stack_run_append by (auto simp: bind_eq_Some_conv simp del: stack_run.simps)
  have "length ps1 \<le> 3" using stack_run_length [OF s1(1)] by simp
  then have "ps = []"
    using s1(2) stack_run_pops [of 4096 3 s1 ps1] by (auto simp: numeral_3_eq_3 simp del: stack_run.simps)
  then show ?thesis using r live_uninit [of static_pool 4096] by (simp add: POOL_SIZE_def META_def static_pool_def)
qed

end
