(* ===== verification/AllocatorMisuse.thy ===== *)
theory AllocatorMisuse
  imports AllocatorProps
begin

text \<open>
  \<^verbatim>\<open>baby_malloc/bby_malloc.c\<close> used wrongly: a pointer that is freed more than once.
\<close>

section \<open>Releasing twice\<close>

lemma release_ptrs: "p \<in> set (ptrs a bs) \<Longrightarrow> p \<in> set (ptrs a (release p a bs))"
proof (induction p a bs rule: release.induct)
  case (2 p a s f bs)
  show ?case
  proof (cases "p = a + META")
    case True
    then show ?thesis by (simp split: list.splits prod.splits bool.splits)
  next
    case False
    then show ?thesis using 2 by simp
  qed
qed simp

lemma release_free:
  "p \<in> set (ptrs a bs) \<Longrightarrow> p \<notin> fst ` set (used a bs) \<Longrightarrow> set (used a (release p a bs)) = set (used a bs)"
proof (induction p a bs rule: release.induct)
  case (2 p a s f bs)
  then show ?case
    by (cases "p = a + META") (auto simp: add.assoc add.left_commute split: list.splits bool.splits if_splits)
qed simp

lemma used_once: "(p, n) \<in> set (used a bs) \<Longrightarrow> (p, k) \<in> set (used a bs) \<Longrightarrow> n = k"
proof (induction a bs rule: used.induct)
  case (2 a s f bs)
  have "a + META < q" if "(q, j) \<in> set (used (a + META + s) bs)" for q j
    using used_ptr_ge [OF that] META_pos(1) by linarith
  then show ?case using 2 by (fastforce split: if_splits)
qed simp

text \<open>First fit finds a block again after it was released.\<close>

lemma first_fit_again:
  "first_fit n a bs = Some (bs', p) \<Longrightarrow> \<exists>bs''. first_fit n a (release p a bs') = Some (bs'', p)"
proof (induction n a bs arbitrary: bs' rule: first_fit.induct)
  case (2 n a s f bs)
  show ?case
  proof (cases "f \<and> n \<le> s")
    case True
    then show ?thesis using 2(2) by (cases bs) (auto split: if_splits list.splits bool.splits)
  next
    case False
    then obtain bs2 where ff: "first_fit n (a + META + s) bs = Some (bs2, p)" "bs' = (s, f) # bs2"
      using 2(2) by (auto split: if_splits)
    have "p \<noteq> a + META" using first_fit_pos [OF ff(1)] META_pos(1) by linarith
    then show ?thesis using 2(1) [OF False ff(1)] False ff(2) by auto
  qed
qed simp

definition freed :: "nat \<Rightarrow> nat \<Rightarrow> pool_state \<Rightarrow> pool_state \<Rightarrow> bool" where
  "freed mp p st0 st \<longleftrightarrow> isInitialized st \<noteq> 0 \<and>
     (\<exists>bs. repr mp st bs \<and> p \<in> set (ptrs mp bs) \<and> set (used mp bs) = {r \<in> live mp st0. fst r \<noteq> p}) \<and>
     (\<forall>x. x < p - META \<or> p \<le> x \<longrightarrow> pool st x = pool st0 x)"

lemma freedI:
  assumes "isInitialized st \<noteq> 0" and "repr mp st bs" and "p \<in> set (ptrs mp bs)"
    and "set (used mp bs) = {r \<in> live mp st0. fst r \<noteq> p}"
    and "\<And>x. x < p - META \<or> p \<le> x \<Longrightarrow> pool st x = pool st0 x"
  shows "freed mp p st0 st"
  unfolding freed_def by (intro conjI exI [of _ bs] allI impI) (fact assms)+

lemma freedE:
  assumes "freed mp p st0 st"
  obtains bs where "isInitialized st \<noteq> 0" and "repr mp st bs" and "p \<in> set (ptrs mp bs)"
    and "set (used mp bs) = {r \<in> live mp st0. fst r \<noteq> p}"
    and "\<And>x. x < p - META \<or> p \<le> x \<Longrightarrow> pool st x = pool st0 x"
  using assms unfolding freed_def by (elim conjE exE) (rule that; blast)

lemma freed_once:
  assumes "pool_ok mp" and "repr mp st bs" and "(p, n) \<in> set (used mp bs)"
  shows "freed mp p st (bby_free p st)"
proof -
  note f = bby_free_block [OF assms(1,2) used_initialized [OF assms(2,3)] used_ptrs [OF assms(3)]]
  have "set (used mp bs) - {(p, n)} = {r \<in> set (used mp bs). fst r \<noteq> p}"
  proof (intro set_eqI iffI)
    fix r assume "r \<in> set (used mp bs) - {(p, n)}"
    then show "r \<in> {r \<in> set (used mp bs). fst r \<noteq> p}" using used_once [OF assms(3), of "snd r"] by (cases r) auto
  qed auto
  then have "set (used mp (release p mp bs)) = {r \<in> live mp st. fst r \<noteq> p}"
    by (simp only: release_used [OF assms(3)] live_repr [OF assms(2)])
  then show ?thesis using f by (intro freedI [OF f(2,1) release_ptrs [OF used_ptrs [OF assms(3)]]])
qed

lemma freed_more:
  assumes "pool_ok mp" and "freed mp p st0 st"
  shows "freed mp p st0 (bby_free p st)"
  using assms(2)
proof (rule freedE)
  fix bs
  assume bs: "isInitialized st \<noteq> 0" "repr mp st bs" "p \<in> set (ptrs mp bs)"
    "set (used mp bs) = {r \<in> live mp st0. fst r \<noteq> p}" and old: "\<And>x. x < p - META \<or> p \<le> x \<Longrightarrow> pool st x = pool st0 x"
  note f = bby_free_block [OF assms(1) bs(2,1,3)]
  have "p \<notin> fst ` set (used mp bs)" unfolding bs(4) by auto
  then have "set (used mp (release p mp bs)) = {r \<in> live mp st0. fst r \<noteq> p}"
    using release_free [OF bs(3)] bs(4) by simp
  then show ?thesis using f(3) old by (intro freedI [OF f(2,1) release_ptrs [OF bs(3)]]) simp_all
qed

lemma freed_many: "pool_ok mp \<Longrightarrow> freed mp p st0 st \<Longrightarrow> freed mp p st0 ((bby_free p ^^ k) st)"
  by (induction k) (simp_all add: freed_more)

text \<open>
  C6: Double free: as long as nothing has been allocated in between, freeing a pointer again, any number of
  times, does no harm: the live blocks are those of a single free, and no byte outside the header is
  written. But once an allocation has got the address, freeing the old pointer again takes the block
  from its new owner: the same request then gets the same address a second time.
\<close>

theorem double_free:
  assumes "pool_ok mp" and "repr mp st bs" and "(p, n) \<in> set (used mp bs)"
  shows "live mp ((bby_free p ^^ Suc k) st) = live mp (bby_free p st) \<and>
    (\<exists>bs'. repr mp ((bby_free p ^^ Suc k) st) bs') \<and>
    (\<forall>x. x < p - META \<or> p \<le> x \<longrightarrow> pool ((bby_free p ^^ Suc k) st) x = pool st x) \<and>
    (\<forall>sz st2. bby_malloc mp sz ((bby_free p ^^ Suc k) st) = Some (st2, p, 1) \<longrightarrow>
      (\<exists>st3. bby_malloc mp sz (bby_free p st2) = Some (st3, p, 1)))"
proof (intro conjI allI impI)
  note one = freed_once [OF assms]
  have many: "freed mp p st ((bby_free p ^^ Suc k) st)"
    using freed_many [OF assms(1) one, of k] by (simp add: funpow_swap1)
  have lives: "live mp t = {r \<in> live mp st. fst r \<noteq> p}" if "freed mp p st t" for t
    using that by (rule freedE) (simp add: live_repr)
  show "live mp ((bby_free p ^^ Suc k) st) = live mp (bby_free p st)" using lives [OF one] lives [OF many] by simp
  obtain bs' where bs': "repr mp ((bby_free p ^^ Suc k) st) bs'" using many by (rule freedE)
  then show "\<exists>bs'. repr mp ((bby_free p ^^ Suc k) st) bs'" by blast
  show "pool ((bby_free p ^^ Suc k) st) x = pool st x" if "x < p - META \<or> p \<le> x" for x
    using many that by (auto elim: freedE)
  fix sz st2
  assume m: "bby_malloc mp sz ((bby_free p ^^ Suc k) st) = Some (st2, p, 1)"
  then obtain bs2 where ff: "first_fit (unat (align8 sz)) mp bs' = Some (bs2, p)" "repr mp st2 bs2"
    using bby_malloc_result [OF assms(1) bs', of sz] by (auto split: option.splits)
  obtain j where "(p, j) \<in> set (used mp bs2)" using first_fit_used [OF ff(1)] by blast
  from bby_free_cases(1) [OF assms(1) ff(2) this] have "repr mp (bby_free p st2) (release p mp bs2)" .
  from bby_malloc_result [OF assms(1) this, of sz] show "\<exists>st3. bby_malloc mp sz (bby_free p st2) = Some (st3, p, 1)"
    using first_fit_again [OF ff(1)] by auto
qed

theorem double_free_witness:
  "\<exists>st. bby_malloc 4096 100 static_pool = Some (st, 4120, 1) \<and> live 4096 (bby_free 4120 (bby_free 4120 st)) = {}"
proof -
  obtain st where st: "bby_malloc 4096 100 static_pool = Some (st, 4120, 1)"
      "repr 4096 st [(104, False), (1048424, True)]"
    using bby_malloc_result [OF pool_4096 static_repr, of 100] unat_align8 [of 100]
    by (auto simp: POOL_SIZE_def META_def)
  have u: "(4120, 104) \<in> set (used 4096 [(104, False), (1048424, True)])" by (simp add: META_def)
  have "live 4096 (bby_free 4120 st) = {}"
    using live_repr [OF bby_free_cases(1) [OF pool_4096 st(2) u]] by (simp add: META_def)
  then have "live 4096 ((bby_free 4120 ^^ Suc 1) st) = {}" using double_free [OF pool_4096 st(2) u, of 1] by simp
  then show ?thesis using st(1) by auto
qed

end
