(* ===== verification/KvStore.thy ===== *)
theory KvStore
  imports CString
begin

text \<open>
  \<^verbatim>\<open>key-value-store/spkvs.c\<close>: the handlers of the file-backed store and its command loop. Files are a
  map from paths to contents; what the operating system may refuse (opening, writing, removing,
  renaming) is the environment \<open>E\<close>. Streams are buffered: \<open>print_ok\<close> is whether \<^verbatim>\<open>fprintf\<close> reports success, and
  \<open>reaches\<close> how many of the bytes printed to a stream are in its file when it has been closed. A pointer that may be null is an option; a buffer whose content
  is indeterminate is \<open>None\<close>. \<^verbatim>\<open>perror\<close> is recorded by its prefix.
\<close>

record fs_env =
  open_ok :: "string \<Rightarrow> bool"
  print_ok :: bool
  reaches :: "string \<Rightarrow> nat"
  remove_ok :: bool
  rename_ok :: bool

record kv_state =
  files :: "string \<Rightarrow> string option"
  out :: string
  err :: "string list"

definition GLOBAL_FILE_NAME :: string where
  "GLOBAL_FILE_NAME = ''store.txt''"

definition say :: "string \<Rightarrow> kv_state \<Rightarrow> kv_state" where
  "say s st = st\<lparr>out := out st @ s\<rparr>"

definition error_out :: "string \<Rightarrow> kv_state \<Rightarrow> kv_state" where
  "error_out s st = st\<lparr>err := err st @ [s]\<rparr>"

definition set_file :: "string \<Rightarrow> string \<Rightarrow> kv_state \<Rightarrow> kv_state" where
  "set_file p c st = st\<lparr>files := (files st)(p \<mapsto> c)\<rparr>"

definition fopen_r :: "fs_env \<Rightarrow> string \<Rightarrow> kv_state \<Rightarrow> string option" where
  "fopen_r E p st = (if open_ok E p then files st p else None)"

definition cli_prompt :: "kv_state \<Rightarrow> kv_state" where
  "cli_prompt st = say ''Store $> '' st"

section \<open>PUT\<close>

text \<open>The scan for an existing key; the arguments are the successive contents of \<^verbatim>\<open>line\<close>.\<close>

fun put_scan :: "string \<Rightarrow> string list \<Rightarrow> bool" where
  "put_scan key [] = False"
| "put_scan key (line # rest) =
     (case fst (strtok CHR ''='' (chomp (cstr line))) of
        Some current_key \<Rightarrow> if current_key = key then True else put_scan key rest
      | None \<Rightarrow> put_scan key rest)"

definition handle_put ::
  "fs_env \<Rightarrow> string option \<Rightarrow> string option \<Rightarrow> string option \<Rightarrow> kv_state \<Rightarrow> kv_state" where
  "handle_put E key value FILE_NAME st =
     (case (key, value, FILE_NAME) of
        (Some k, Some v, Some p) \<Rightarrow>
          if \<not> open_ok E p then error_out ''Failed to open File'' st
          else
            let content = (case files st p of None \<Rightarrow> [] | Some c \<Rightarrow> c);
                st1 = set_file p content st;
                pair = k @ ''='' @ v;
                kv = take 699 pair;
                st2 = (if 700 \<le> length pair
                       then error_out ''Key-value pair too long, truncating.'' st1 else st1)
            in if put_scan k (fgets_all 700 content)
               then say (''!! Use UPDATE to change value'' @ [NL])
                      (error_out ''EXISITING key error!'' st2)
               else
                 let line = kv @ [NL];
                     st3 = set_file p (content @ take (reaches E line) line) st2
                 in if \<not> print_ok E then error_out ''Write failed'' st3
                    else say (''Succesfully written to file: ['' @ kv @ '']'' @ [NL]) st3
      | _ \<Rightarrow> error_out ''Null argument passed to handle_put'' st)"

section \<open>GET\<close>

fun get_scan :: "string \<Rightarrow> string list \<Rightarrow> string option outcome" where
  "get_scan key [] = Inr None"
| "get_scan key (line # rest) =
     (case strtok CHR ''='' (chomp (cstr line)) of
        (None, _) \<Rightarrow> Inl Null_Deref
      | (Some current_key, r) \<Rightarrow>
          if current_key = key
          then (case fst (strtok CHR ''='' r) of None \<Rightarrow> Inl Null_Deref | Some v \<Rightarrow> Inr (Some v))
          else get_scan key rest)"

definition handle_get ::
  "fs_env \<Rightarrow> string \<Rightarrow> string option \<Rightarrow> nat \<Rightarrow> kv_state \<Rightarrow> (kv_state \<times> string option) outcome" where
  "handle_get E key value_out value_out_size st =
     (case fopen_r E GLOBAL_FILE_NAME st of
        None \<Rightarrow> Inr (error_out ''Failed to open file'' st, value_out)
      | Some content \<Rightarrow>
          (case get_scan key (fgets_all 512 content) of
             Inl f \<Rightarrow> Inl f
           | Inr (Some v) \<Rightarrow> Inr (st, Some (take (value_out_size - 1) v))
           | Inr None \<Rightarrow>
               (case value_out of
                  None \<Rightarrow> Inl Uninit_Read
                | Some v \<Rightarrow>
                    if v = [] then Inr (error_out (''VALUE for key: '' @ key @ '' NOT FOUND'') st, Some v)
                    else Inr (st, Some v))))"

section \<open>DELETE\<close>

text \<open>The copy loop: the text written to \<^verbatim>\<open>temp.txt\<close> and the content of \<^verbatim>\<open>value\<close> when it ends.\<close>

fun del_scan :: "string \<Rightarrow> string list \<Rightarrow> string option \<Rightarrow> string \<times> string option" where
  "del_scan key [] value = ([], value)"
| "del_scan key (chunk # rest) value =
     (let line = chomp (cstr chunk);
          (current_key, r) = strtok CHR ''='' line;
          (current_value, _) = strtok CHR ''='' r
      in if current_key = Some key \<and> current_value \<noteq> None
         then del_scan key rest (map_option (take 511) current_value)
         else (case del_scan key rest value of (t, v) \<Rightarrow> (line @ [NL] @ t, v)))"

definition handle_delete :: "fs_env \<Rightarrow> string \<Rightarrow> kv_state \<Rightarrow> kv_state outcome" where
  "handle_delete E key st =
     (let from_file = fopen_r E GLOBAL_FILE_NAME st;
          st1 = (if open_ok E ''temp.txt'' then set_file ''temp.txt'' [] st else st)
      in case from_file of
           None \<Rightarrow> Inr (error_out ''Failed to open file'' st1)
         | Some content \<Rightarrow>
             if \<not> open_ok E ''temp.txt'' then Inr (error_out ''Failed to open file'' st1)
             else
               let (t, value) = del_scan key (fgets_all 700 content) None;
                   st2 = set_file ''temp.txt'' (take (reaches E t) t) st1;
                   st3 = (if value = None then say (''KEY '' @ key @ '' doesn't EXIST!'') st2 else st2)
               in if \<not> remove_ok E then Inr (error_out ''Error in delete operation!'' st3)
                  else
                    let st4 = st3\<lparr>files := (files st3)(GLOBAL_FILE_NAME := None)\<rparr>
                    in if \<not> rename_ok E then Inr (error_out ''Error in delete operation!'' st4)
                       else
                         let st5 = st4\<lparr>files := (files st4)(GLOBAL_FILE_NAME := files st4 ''temp.txt'',
                                                          ''temp.txt'' := None)\<rparr>
                         in case value of
                              None \<Rightarrow> Inl Uninit_Read
                            | Some v \<Rightarrow>
                                Inr (say (''Successfully DELETED [KEY: '' @ key @ '', VALUE: '' @ v @ '']'' @ [NL]) st5))"

section \<open>LIST and UPDATE\<close>

definition list_entry :: "string \<Rightarrow> string" where
  "list_entry key_value =
     (let (key, r) = strtok CHR ''='' (cstr key_value); (value, _) = strtok CHR ''='' r
      in case (key, value) of
           (Some k, Some v) \<Rightarrow> ''KEY: '' @ k @ '', VALUE: '' @ v @ [NL]
         | _ \<Rightarrow> [])"

definition handle_list :: "fs_env \<Rightarrow> kv_state \<Rightarrow> kv_state outcome" where
  "handle_list E st =
     (case fopen_r E GLOBAL_FILE_NAME st of
        None \<Rightarrow> Inl Null_Deref
      | Some content \<Rightarrow> Inr (say (concat (map list_entry (fgets_all 700 content))) st))"

definition handle_update :: "fs_env \<Rightarrow> string \<Rightarrow> string \<Rightarrow> kv_state \<Rightarrow> kv_state outcome" where
  "handle_update E key value st =
     (case handle_delete E key st of
        Inl f \<Rightarrow> Inl f
      | Inr st1 \<Rightarrow>
          Inr (say (''Successfully Updated KEY: '' @ key @ '', with VALUE: '' @ value)
                 (handle_put E (Some key) (Some value) (Some GLOBAL_FILE_NAME) st1)))"


section \<open>The command loop\<close>

definition nl_lines :: "string list \<Rightarrow> string" where
  "nl_lines ls = concat (map (\<lambda>l. l @ [NL]) ls)"

definition help_text :: string where
  "help_text = nl_lines [
    ''========================================='',
    ''           SIMPLE KEY VALUE STORE        '',
    ''========================================='',
    ''Description:'',
    ''  A simple, persistent key-value store written in C.'', [],
    ''Usage:'',
    ''  Type commands at the prompt as shown below.'', [],
    ''Command List:'',
    ''  HELP                       : Show this help message'',
    ''  PUT <key> <value>          : Assign <value> to <key> and store it'',
    ''  UPDATE <key> <value>       : Update <key> with a new <value>'',
    ''  GET <key>                  : Fetch the value associated with <key>'',
    ''  DELETE <key>               : Delete the key-value pair from storage'',
    ''  LIST                       : List all key-value pairs in the store'', [],
    ''Tips:'',
    ''  - Keys and values are stored line-by-line in a file.'',
    ''  - Data is persistent between runs.'',
    ''========================================='']"

text \<open>
  One command: the body of the loop after a successful \<^verbatim>\<open>fgets\<close>. The flag says whether the loop ends.
  All words are cut off the line before a handler runs, as \<^verbatim>\<open>strtok\<close>'s saved position requires.
\<close>

definition cli_line :: "fs_env \<Rightarrow> string \<Rightarrow> kv_state \<Rightarrow> (bool \<times> kv_state) outcome" where
  "cli_line E buf st =
     (let input = chomp (cstr buf)
      in if input = ''exit'' then Inr (True, say (''Bye!'' @ [NL]) st)
         else
           case strtok CHR '' '' input of
             (None, _) \<Rightarrow> Inr (False, st)
           | (Some word, r1) \<Rightarrow>
               (let (w1, r2) = strtok CHR '' '' r1;
                    (w2, r3) = strtok CHR '' '' r2;
                    (w3, _) = strtok CHR '' '' r3
                in if word = ''PUT'' then
                     (if w1 = None \<or> w2 = None \<or> w3 \<noteq> None
                      then Inr (False, error_out ''INVALID PUT FORMAT!'' st)
                      else Inr (False, handle_put E w1 w2 (Some GLOBAL_FILE_NAME) st))
                   else if word = ''GET'' then
                     (case w1 of
                        None \<Rightarrow> Inr (False, error_out ''INVALID GET FORMAT!'' st)
                      | Some key \<Rightarrow>
                          if w2 \<noteq> None then Inr (False, error_out ''INVALID GET FORMAT!'' st)
                          else (case handle_get E key None 512 st of
                                  Inl f \<Rightarrow> Inl f
                                | Inr (st1, None) \<Rightarrow> Inl Uninit_Read
                                | Inr (st1, Some v) \<Rightarrow>
                                    Inr (False, say (''KEY: '' @ key @ '', VALUE: '' @ v @ [NL]) st1)))
                   else if word = ''DELETE'' then
                     (case w1 of
                        None \<Rightarrow> Inr (False, error_out ''INVALID DELETE FORMAT!'' st)
                      | Some key \<Rightarrow>
                          if w2 \<noteq> None then Inr (False, error_out ''INVALID DELETE FORMAT!'' st)
                          else map_sum id (Pair False) (handle_delete E key st))
                   else if word = ''LIST'' then map_sum id (Pair False) (handle_list E st)
                   else if word = ''UPDATE'' then
                     (case (w1, w2, w3) of
                        (Some key, Some value, None) \<Rightarrow>
                          map_sum id (Pair False) (handle_update E key value st)
                      | _ \<Rightarrow> Inr (False, error_out ''INVALID UPDATE FORMAT!'' st))
                   else if word = ''help'' \<or> word = ''HELP'' then Inr (False, say help_text st)
                   else Inr (False, say (''Unknown Command: '' @ word @
                          ''  | use 'help' to know working commands'' @ [NL]) st)))"

text \<open>
  The \<^verbatim>\<open>while (1)\<close> loop on what is left of standard input. At end of file \<^verbatim>\<open>fgets\<close> returns a null
  pointer and the loop goes round again; a loop that never ends is \<open>None\<close>.
\<close>

partial_function (option) cli_loop :: "fs_env \<Rightarrow> string \<Rightarrow> kv_state \<Rightarrow> kv_state outcome option" where
  "cli_loop E input st =
     (case fgets 700 input of
        None \<Rightarrow> cli_loop E input (cli_prompt st)
      | Some (buf, rest) \<Rightarrow>
          (case cli_line E buf (cli_prompt st) of
             Inl f \<Rightarrow> Some (Inl f)
           | Inr (stop, st1) \<Rightarrow> if stop then Some (Inr st1) else cli_loop E rest st1))"

definition kv_main :: "fs_env \<Rightarrow> string list \<Rightarrow> string \<Rightarrow> kv_state \<Rightarrow> kv_state outcome option" where
  "kv_main E args input st =
     (case args of
        a # _ \<Rightarrow> if a = ''--help'' then Some (Inr (say help_text st)) else cli_loop E input st
      | [] \<Rightarrow> cli_loop E input st)"

end
