(* ===== verification/KvMap.thy ===== *)
theory KvMap
  imports Prelude
begin

text \<open>
  The contract of a persistent map whose operations may fault, and what a client gets from it: an
  update made of a delete and a put, and traces of operations that agree with a map.
\<close>

datatype ('k, 'v) kv_op = Put_op 'k 'v | Del_op 'k

fun map_run :: "('k, 'v) kv_op list \<Rightarrow> ('k \<rightharpoonup> 'v) \<Rightarrow> ('k \<rightharpoonup> 'v)" where
  "map_run [] m = m"
| "map_run (Put_op k v # ops) m = map_run ops (if m k = None then m(k \<mapsto> v) else m)"
| "map_run (Del_op k # ops) m = map_run ops (m(k := None))"

fun store_run ::
  "('k \<Rightarrow> 'v \<Rightarrow> 's \<Rightarrow> 's) \<Rightarrow> ('k \<Rightarrow> 's \<Rightarrow> 's outcome) \<Rightarrow> ('k, 'v) kv_op list \<Rightarrow> 's \<Rightarrow> 's outcome" where
  "store_run put del [] s = Inr s"
| "store_run put del (Put_op k v # ops) s = store_run put del ops (put k v s)"
| "store_run put del (Del_op k # ops) s =
     (case del k s of Inl f \<Rightarrow> Inl f | Inr s1 \<Rightarrow> store_run put del ops s1)"

fun deletes_present :: "('k, 'v) kv_op list \<Rightarrow> ('k \<rightharpoonup> 'v) \<Rightarrow> bool" where
  "deletes_present [] m = True"
| "deletes_present (Put_op k v # ops) m = deletes_present ops (if m k = None then m(k \<mapsto> v) else m)"
| "deletes_present (Del_op k # ops) m = (m k \<noteq> None \<and> deletes_present ops (m(k := None)))"

locale kv_map =
  fixes inv :: "'s \<Rightarrow> bool"
    and lookup :: "'s \<Rightarrow> 'k \<rightharpoonup> 'v"
    and ok :: "'k \<Rightarrow> 'v \<Rightarrow> bool"
    and put :: "'k \<Rightarrow> 'v \<Rightarrow> 's \<Rightarrow> 's"
    and del :: "'k \<Rightarrow> 's \<Rightarrow> 's outcome"
    and get :: "'k \<Rightarrow> 's \<Rightarrow> ('s \<times> 'v option) outcome"
  assumes put_inv: "inv s \<Longrightarrow> ok k v \<Longrightarrow> inv (put k v s)"
    and put_new: "inv s \<Longrightarrow> ok k v \<Longrightarrow> lookup s k = None \<Longrightarrow>
      lookup (put k v s) = (lookup s)(k \<mapsto> v)"
    and put_old: "inv s \<Longrightarrow> ok k v \<Longrightarrow> lookup s k \<noteq> None \<Longrightarrow> lookup (put k v s) = lookup s"
    and del_old: "inv s \<Longrightarrow> lookup s k \<noteq> None \<Longrightarrow>
      \<exists>s'. del k s = Inr s' \<and> inv s' \<and> lookup s' = (lookup s)(k := None)"
    and get_old: "inv s \<Longrightarrow> lookup s k = Some v \<Longrightarrow> get k s = Inr (s, Some v)"
begin

lemma replace:
  assumes "inv s" and "ok k v" and "lookup s k \<noteq> None"
  shows "\<exists>s'. del k s = Inr s' \<and> inv (put k v s') \<and> lookup (put k v s') = (lookup s)(k \<mapsto> v)"
proof -
  obtain s' where s': "del k s = Inr s'" "inv s'" "lookup s' = (lookup s)(k := None)"
    using del_old [OF assms(1,3)] by blast
  then have "lookup s' k = None" by simp
  then show ?thesis using s' put_new [OF s'(2) assms(2)] put_inv [OF s'(2) assms(2)] by auto
qed

lemma put_get:
  assumes "inv s" and "ok k v" and "lookup s k = None"
  shows "get k (put k v s) = Inr (put k v s, Some v)"
  using assms by (simp add: get_old put_inv put_new)

lemma run_refines:
  assumes "inv s" and "\<And>k v. Put_op k v \<in> set ops \<Longrightarrow> ok k v" and "deletes_present ops (lookup s)"
  shows "\<exists>s'. store_run put del ops s = Inr s' \<and> inv s' \<and> lookup s' = map_run ops (lookup s)"
  using assms
proof (induction ops arbitrary: s)
  case Nil
  then show ?case by simp
next
  case (Cons x ops)
  show ?case
  proof (cases x)
    case (Put_op k v)
    have ok: "ok k v" using Cons.prems(2) Put_op by simp
    have l: "lookup (put k v s) = (if lookup s k = None then (lookup s)(k \<mapsto> v) else lookup s)"
      using put_new [OF Cons.prems(1) ok] put_old [OF Cons.prems(1) ok] by auto
    have "\<exists>s'. store_run put del ops (put k v s) = Inr s' \<and> inv s' \<and>
        lookup s' = map_run ops (lookup (put k v s))"
    proof (rule Cons.IH)
      show "inv (put k v s)" using put_inv Cons.prems(1) ok by simp
      show "ok k' v'" if "Put_op k' v' \<in> set ops" for k' v'
        using Cons.prems(2) that by (meson list.set_intros(2))
      show "deletes_present ops (lookup (put k v s))"
        using Cons.prems(3) l by (simp add: Put_op)
    qed
    then show ?thesis using l by (simp add: Put_op)
  next
    case (Del_op k)
    then obtain s1 where s1: "del k s = Inr s1" "inv s1" "lookup s1 = (lookup s)(k := None)"
      using del_old [OF Cons.prems(1), of k] Cons.prems(3) by auto
    have "\<exists>s'. store_run put del ops s1 = Inr s' \<and> inv s' \<and> lookup s' = map_run ops (lookup s1)"
    proof (rule Cons.IH [OF s1(2)])
      show "ok k' v'" if "Put_op k' v' \<in> set ops" for k' v'
        using Cons.prems(2) that by (meson list.set_intros(2))
      show "deletes_present ops (lookup s1)" using Cons.prems(3) s1(3) by (simp add: Del_op)
    qed
    then show ?thesis using s1 by (simp add: Del_op)
  qed
qed

end

end
