(* ===== verification/KvProps.thy ===== *)
theory KvProps
  imports KvStore KvMap
begin

text \<open>
  The properties of \<^verbatim>\<open>key-value-store/spkvs.c\<close>: on files of well-formed lines the handlers implement
  a map (the \<open>kv_map\<close> contract), and what happens outside that domain: values with an equals sign,
  missing keys, failing writes and the end of standard input.
\<close>

section \<open>Well-formed stores\<close>

definition prints_all :: "fs_env \<Rightarrow> bool" where
  "prints_all E \<longleftrightarrow> print_ok E \<and> (\<forall>s. length s \<le> reaches E s)"

lemma prints_allD [simp]: "prints_all E \<Longrightarrow> print_ok E" "prints_all E \<Longrightarrow> take (reaches E s) s = s"
  by (simp_all add: prints_all_def)

definition good_env :: "fs_env \<Rightarrow> bool" where
  "good_env E \<longleftrightarrow> open_ok E ''store.txt'' \<and> open_ok E ''temp.txt'' \<and> prints_all E \<and> remove_ok E \<and> rename_ok E"

definition plain :: "string \<Rightarrow> bool" where
  "plain s \<longleftrightarrow> s \<noteq> [] \<and> CHR ''='' \<notin> set s \<and> NL \<notin> set s \<and> NUL \<notin> set s"

definition ok_pair :: "string \<Rightarrow> string \<Rightarrow> bool" where
  "ok_pair k v \<longleftrightarrow> plain k \<and> plain v \<and> length k + length v < 510"

definition kv_line :: "string \<times> string \<Rightarrow> string" where
  "kv_line e = fst e @ ''='' @ snd e"

definition file_of :: "(string \<times> string) list \<Rightarrow> string" where
  "file_of kvs = concat (map (\<lambda>l. l @ [NL]) (map kv_line kvs))"

definition wf_entries :: "(string \<times> string) list \<Rightarrow> bool" where
  "wf_entries kvs \<longleftrightarrow> distinct (map fst kvs) \<and> (\<forall>e \<in> set kvs. ok_pair (fst e) (snd e))"

definition parse_line :: "string \<Rightarrow> (string \<times> string) list" where
  "parse_line buf =
     (let (k, r) = strtok CHR ''='' (chomp (cstr buf)); (v, _) = strtok CHR ''='' r
      in case (k, v) of (Some k, Some v) \<Rightarrow> [(k, v)] | _ \<Rightarrow> [])"

definition kv_lookup :: "kv_state \<Rightarrow> string \<Rightarrow> string option" where
  "kv_lookup st = (case files st GLOBAL_FILE_NAME of
     None \<Rightarrow> Map.empty | Some c \<Rightarrow> map_of (concat (map parse_line (fgets_all 512 c))))"

definition kv_inv :: "fs_env \<Rightarrow> kv_state \<Rightarrow> bool" where
  "kv_inv E st \<longleftrightarrow> good_env E \<and>
     (\<exists>kvs. wf_entries kvs \<and> files st GLOBAL_FILE_NAME = Some (file_of kvs))"

lemma kv_line_chars:
  "ok_pair (fst e) (snd e) \<Longrightarrow> NL \<notin> set (kv_line e) \<and> NUL \<notin> set (kv_line e) \<and> length (kv_line e) < 511"
  by (auto simp: ok_pair_def plain_def kv_line_def)

lemma kv_line_strtok:
  assumes "ok_pair (fst e) (snd e)"
  shows "chomp (cstr (kv_line e @ [NL])) = kv_line e"
    and "strtok CHR ''='' (kv_line e) = (Some (fst e), snd e)"
proof -
  show "chomp (cstr (kv_line e @ [NL])) = kv_line e"
    using kv_line_chars [OF assms] by simp
  show "strtok CHR ''='' (kv_line e) = (Some (fst e), snd e)"
    using assms strtok_token [of "fst e" "CHR ''=''" "snd e"]
    by (simp add: ok_pair_def plain_def kv_line_def)
qed

lemma value_strtok: "ok_pair k v \<Longrightarrow> strtok CHR ''='' v = (Some v, [])"
  by (intro strtok_last) (auto simp: ok_pair_def plain_def)

lemma ok_pair_short: "ok_pair k v \<Longrightarrow> take 511 v = v"
  by (simp add: ok_pair_def)

lemma map_of_snoc: "k \<notin> fst ` set kvs \<Longrightarrow> map_of (kvs @ [(k, v)]) = (map_of kvs)(k \<mapsto> v)"
  by (induction kvs) auto

lemma fgets_file_of:
  "wf_entries kvs \<Longrightarrow> 512 \<le> n \<Longrightarrow> fgets_all n (file_of kvs) = map (\<lambda>e. kv_line e @ [NL]) kvs"
  using fgets_all_lines [of "map kv_line kvs" n] kv_line_chars
  by (fastforce simp: file_of_def wf_entries_def)

lemma parse_kv_line: "ok_pair (fst e) (snd e) \<Longrightarrow> parse_line (kv_line e @ [NL]) = [e]"
  by (simp add: parse_line_def kv_line_strtok value_strtok)

lemma parse_entries: "wf_entries kvs \<Longrightarrow> concat (map (\<lambda>e. parse_line (kv_line e @ [NL])) kvs) = kvs"
  by (induction kvs) (auto simp: wf_entries_def parse_kv_line)

lemma kv_lookup_file:
  "wf_entries kvs \<Longrightarrow> files st GLOBAL_FILE_NAME = Some (file_of kvs) \<Longrightarrow> kv_lookup st = map_of kvs"
  by (simp add: kv_lookup_def fgets_file_of comp_def parse_entries)

lemma put_scan_entries:
  "wf_entries kvs \<Longrightarrow> put_scan k (map (\<lambda>e. kv_line e @ [NL]) kvs) \<longleftrightarrow> k \<in> fst ` set kvs"
  by (induction kvs) (auto simp: wf_entries_def kv_line_strtok)

lemma get_scan_entries:
  "wf_entries kvs \<Longrightarrow> get_scan k (map (\<lambda>e. kv_line e @ [NL]) kvs) = Inr (map_of kvs k)"
  by (induction kvs) (auto simp: wf_entries_def kv_line_strtok value_strtok)

lemma del_scan_entries:
  "wf_entries kvs \<Longrightarrow> del_scan k (map (\<lambda>e. kv_line e @ [NL]) kvs) v0 =
     (file_of (filter (\<lambda>e. fst e \<noteq> k) kvs), case map_of kvs k of None \<Rightarrow> v0 | Some v \<Rightarrow> Some v)"
proof (induction kvs arbitrary: v0)
  case Nil
  then show ?case by (simp add: file_of_def)
next
  case (Cons e kvs)
  obtain k' v where e: "e = (k', v)" by fastforce
  have wf: "wf_entries kvs" and ok: "ok_pair k' v" and new: "k' \<notin> fst ` set kvs"
    using Cons.prems by (auto simp: wf_entries_def e)
  have st: "chomp (cstr (kv_line e @ [NL])) = kv_line e" "strtok CHR ''='' (kv_line e) = (Some k', v)"
    using kv_line_strtok [of e] ok by (simp_all add: e)
  have "map_of kvs k' = None" using new by (simp add: map_of_eq_None_iff)
  then show ?case using Cons.IH [OF wf]
    by (simp add: st value_strtok [OF ok] ok_pair_short [OF ok]) (auto simp: e file_of_def)
qed

lemma wf_filter: "wf_entries kvs \<Longrightarrow> wf_entries (filter P kvs)"
  by (auto simp: wf_entries_def distinct_map_filter)

lemma map_of_filter_key: "map_of (filter (\<lambda>e. fst e \<noteq> k) kvs) = (map_of kvs)(k := None)"
  by (induction kvs) (auto simp: fun_eq_iff)

lemma file_of_snoc: "file_of (kvs @ [(k, v)]) = file_of kvs @ (k @ ''='' @ v) @ [NL]"
  by (simp add: file_of_def kv_line_def)

section \<open>The handlers on well-formed stores\<close>

lemma kv_inv_E:
  assumes "kv_inv E st"
  obtains kvs where "good_env E" "wf_entries kvs" "files st GLOBAL_FILE_NAME = Some (file_of kvs)"
    "kv_lookup st = map_of kvs"
  using assms kv_lookup_file by (auto simp: kv_inv_def)

lemma open_store: "good_env E \<Longrightarrow> fopen_r E GLOBAL_FILE_NAME st = files st GLOBAL_FILE_NAME"
  by (simp add: good_env_def fopen_r_def GLOBAL_FILE_NAME_def)

lemma put_new_file:
  assumes "good_env E" and "wf_entries kvs" and "files st GLOBAL_FILE_NAME = Some (file_of kvs)"
    and "ok_pair k v" and "k \<notin> fst ` set kvs"
  shows "files (handle_put E (Some k) (Some v) (Some GLOBAL_FILE_NAME) st) GLOBAL_FILE_NAME =
    Some (file_of (kvs @ [(k, v)]))"
  using assms
  by (simp add: handle_put_def Let_def put_scan_entries fgets_file_of say_def set_file_def
      file_of_snoc good_env_def GLOBAL_FILE_NAME_def ok_pair_def error_out_def) arith

lemma put_old_file:
  assumes "good_env E" and "wf_entries kvs" and "files st GLOBAL_FILE_NAME = Some (file_of kvs)"
    and "k \<in> fst ` set kvs"
  shows "files (handle_put E (Some k) (Some v) (Some GLOBAL_FILE_NAME) st) GLOBAL_FILE_NAME =
    Some (file_of kvs)"
  using assms
  by (simp add: handle_put_def Let_def put_scan_entries fgets_file_of say_def set_file_def
      good_env_def GLOBAL_FILE_NAME_def error_out_def)

lemma delete_file:
  assumes "good_env E" and "wf_entries kvs" and "files st GLOBAL_FILE_NAME = Some (file_of kvs)"
    and "map_of kvs k = Some v"
  shows "\<exists>st'. handle_delete E k st = Inr st' \<and>
    files st' GLOBAL_FILE_NAME = Some (file_of (filter (\<lambda>e. fst e \<noteq> k) kvs)) \<and>
    out st' = out st @ ''Successfully DELETED [KEY: '' @ k @ '', VALUE: '' @ v @ '']'' @ [NL]"
  using assms
  by (simp add: handle_delete_def Let_def fopen_r_def fgets_file_of del_scan_entries good_env_def
      say_def set_file_def GLOBAL_FILE_NAME_def)

interpretation kv: kv_map "kv_inv E" kv_lookup ok_pair
  "\<lambda>k v. handle_put E (Some k) (Some v) (Some GLOBAL_FILE_NAME)"
  "handle_delete E" "\<lambda>k. handle_get E k None 512" for E
proof (unfold_locales, goal_cases)
  case (1 s k v)
  then obtain kvs where kvs: "good_env E" "wf_entries kvs"
    "files s GLOBAL_FILE_NAME = Some (file_of kvs)" by (elim kv_inv_E)
  show ?case
  proof (cases "k \<in> fst ` set kvs")
    case True
    then show ?thesis using put_old_file [OF kvs True] kvs by (auto simp: kv_inv_def)
  next
    case False
    have "wf_entries (kvs @ [(k, v)])" using False kvs 1 by (auto simp: wf_entries_def)
    then show ?thesis using put_new_file [OF kvs 1(2) False] kvs(1) unfolding kv_inv_def by blast
  qed
next
  case (2 s k v)
  then obtain kvs where kvs: "good_env E" "wf_entries kvs"
    "files s GLOBAL_FILE_NAME = Some (file_of kvs)" "kv_lookup s = map_of kvs" by (elim kv_inv_E)
  have new: "k \<notin> fst ` set kvs" using 2 kvs by (simp add: map_of_eq_None_iff)
  then have "wf_entries (kvs @ [(k, v)])" using kvs 2 by (auto simp: wf_entries_def)
  from kv_lookup_file [OF this put_new_file [OF kvs(1-3) 2(2) new]] show ?case
    by (simp only: map_of_snoc [OF new] kvs(4))
next
  case (3 s k v)
  then obtain kvs where kvs: "good_env E" "wf_entries kvs"
    "files s GLOBAL_FILE_NAME = Some (file_of kvs)" "kv_lookup s = map_of kvs" by (elim kv_inv_E)
  have "k \<in> fst ` set kvs" using 3 kvs by (metis map_of_eq_None_iff)
  then show ?case using kv_lookup_file [OF kvs(2) put_old_file [OF kvs(1-3)]] kvs(4) by simp
next
  case (4 s k)
  then obtain kvs where kvs: "good_env E" "wf_entries kvs"
    "files s GLOBAL_FILE_NAME = Some (file_of kvs)" "kv_lookup s = map_of kvs" by (elim kv_inv_E)
  obtain v where "map_of kvs k = Some v" using 4 kvs by auto
  from delete_file [OF kvs(1-3) this] obtain s' where s': "handle_delete E k s = Inr s'"
    "files s' GLOBAL_FILE_NAME = Some (file_of (filter (\<lambda>e. fst e \<noteq> k) kvs))" by blast
  moreover have "kv_lookup s' = (kv_lookup s)(k := None)"
    using kv_lookup_file [OF wf_filter [OF kvs(2)] s'(2)] kvs(4) by (simp add: map_of_filter_key)
  moreover have "kv_inv E s'" using kvs(1,2) s'(2) wf_filter by (auto simp: kv_inv_def)
  ultimately show ?case by blast
next
  case (5 s k v)
  then obtain kvs where kvs: "good_env E" "wf_entries kvs"
    "files s GLOBAL_FILE_NAME = Some (file_of kvs)" "kv_lookup s = map_of kvs" by (elim kv_inv_E)
  then have v: "map_of kvs k = Some v" using 5 by simp
  then have "ok_pair k v" using kvs(2) by (auto simp: wf_entries_def dest: map_of_SomeD)
  then have "length v \<le> 511" by (simp add: ok_pair_def)
  with kvs v show ?case
    by (simp add: handle_get_def open_store fgets_file_of get_scan_entries)
qed


section \<open>Properties\<close>

definition plain_env :: fs_env where
  "plain_env = \<lparr>open_ok = (\<lambda>_. True), print_ok = True, reaches = length, remove_ok = True, rename_ok = True\<rparr>"

definition one_store :: kv_state where
  "one_store = \<lparr>files = Map.empty(GLOBAL_FILE_NAME \<mapsto> file_of [(''one'', ''three'')]), out = [], err = []\<rparr>"

lemma one_store_inv: "kv_inv plain_env one_store" "kv_lookup one_store = [''one'' \<mapsto> ''three'']"
proof -
  have wf: "wf_entries [(''one'', ''three'')]"
    by (simp add: wf_entries_def ok_pair_def plain_def)
  then show "kv_lookup one_store = [''one'' \<mapsto> ''three'']"
    using kv_lookup_file [OF wf, of one_store] by (simp add: one_store_def)
  show "kv_inv plain_env one_store"
    using wf by (auto simp: kv_inv_def good_env_def prints_all_def plain_env_def one_store_def)
qed

text \<open>
  C7: refinement. Every sequence of PUTs of well-formed pairs and DELETEs of stored keys runs
  without a fault on a well-formed store, leaves it well formed, and the pairs it then holds are
  those of a map on which a PUT of a stored key changes nothing.
\<close>

theorem kv_trace_refines:
  assumes "kv_inv E st" and "\<And>k v. Put_op k v \<in> set ops \<Longrightarrow> ok_pair k v"
    and "deletes_present ops (kv_lookup st)"
  shows "\<exists>st'. store_run (\<lambda>k v. handle_put E (Some k) (Some v) (Some GLOBAL_FILE_NAME))
      (handle_delete E) ops st = Inr st' \<and> kv_inv E st' \<and> kv_lookup st' = map_run ops (kv_lookup st)"
  by (rule kv.run_refines) (fact assms)+

theorem kv_trace_refines_witness:
  "\<exists>st'. store_run (\<lambda>k v. handle_put plain_env (Some k) (Some v) (Some GLOBAL_FILE_NAME))
      (handle_delete plain_env) [Put_op ''two'' ''x'', Del_op ''one''] one_store = Inr st' \<and>
    kv_lookup st' = [''two'' \<mapsto> ''x'']"
proof -
  let ?ops = "[Put_op ''two'' ''x'', Del_op ''one'']"
  have "\<exists>st'. store_run (\<lambda>k v. handle_put plain_env (Some k) (Some v) (Some GLOBAL_FILE_NAME))
      (handle_delete plain_env) ?ops one_store = Inr st' \<and> kv_inv plain_env st' \<and>
    kv_lookup st' = map_run ?ops (kv_lookup one_store)"
    by (rule kv_trace_refines [OF one_store_inv(1)])
      (auto simp: ok_pair_def plain_def one_store_inv(2))
  moreover have "map_run ?ops (kv_lookup one_store) = [''two'' \<mapsto> ''x'']"
    by (simp add: one_store_inv(2) fun_eq_iff)
  ultimately show ?thesis by metis
qed

text \<open>What is PUT under a new key is what GET returns, and the GET changes nothing.\<close>

theorem kv_put_get:
  assumes "kv_inv E st" and "ok_pair k v" and "kv_lookup st k = None"
    and "st' = handle_put E (Some k) (Some v) (Some GLOBAL_FILE_NAME) st"
  shows "handle_get E k None 512 st' = Inr (st', Some v)"
  unfolding assms(4) by (rule kv.put_get) (fact assms)+

theorem kv_put_get_witness:
  "\<exists>st'. st' = handle_put plain_env (Some ''two'') (Some ''x'') (Some GLOBAL_FILE_NAME) one_store \<and>
     handle_get plain_env ''two'' None 512 st' = Inr (st', Some ''x'')"
  using kv_put_get [OF one_store_inv(1), of "''two''" "''x''" , OF _ _ refl]
  by (simp add: ok_pair_def plain_def one_store_inv)

text \<open>
  UPDATE of a stored key succeeds, the store stays well formed and holds the new value under
  that key and everything else as before.
\<close>

theorem handle_update_refines:
  assumes "kv_inv E st" and "ok_pair k v" and "kv_lookup st k \<noteq> None"
  shows "\<exists>st'. handle_update E k v st = Inr st' \<and> kv_inv E st' \<and>
    kv_lookup st' = (kv_lookup st)(k \<mapsto> v)"
proof -
  obtain st1 where st1: "handle_delete E k st = Inr st1"
    "kv_inv E (handle_put E (Some k) (Some v) (Some GLOBAL_FILE_NAME) st1)"
    "kv_lookup (handle_put E (Some k) (Some v) (Some GLOBAL_FILE_NAME) st1) = (kv_lookup st)(k \<mapsto> v)"
    using kv.replace [OF assms] by blast
  moreover have "kv_inv E (say s st2) = kv_inv E st2" "kv_lookup (say s st2) = kv_lookup st2" for s st2
    by (simp_all add: kv_inv_def kv_lookup_def say_def)
  ultimately show ?thesis by (simp add: handle_update_def)
qed

theorem handle_update_refines_witness:
  "\<exists>st'. handle_update plain_env ''one'' ''four'' one_store = Inr st' \<and>
     kv_lookup st' = [''one'' \<mapsto> ''four'']"
  using handle_update_refines [OF one_store_inv(1), of "''one''" "''four''"]
  by (auto simp: one_store_inv ok_pair_def plain_def)

text \<open>
  a missing key is not handled. On a well-formed store GET, DELETE and UPDATE of a key that is not
  stored all read a buffer that was never written.
\<close>

theorem missing_key_faults:
  assumes "kv_inv E st" and "kv_lookup st k = None"
  shows "handle_get E k None 512 st = Inl Uninit_Read \<and> handle_delete E k st = Inl Uninit_Read \<and>
    handle_update E k v st = Inl Uninit_Read"
proof -
  obtain kvs where kvs: "good_env E" "wf_entries kvs" "files st GLOBAL_FILE_NAME = Some (file_of kvs)"
    "kv_lookup st = map_of kvs" using kv_inv_E [OF assms(1)] .
  have k: "map_of kvs k = None" using kvs(4) assms(2) by simp
  have "handle_get E k None 512 st = Inl Uninit_Read"
    using kvs k by (simp add: handle_get_def open_store fgets_file_of get_scan_entries)
  moreover have "handle_delete E k st = Inl Uninit_Read"
    using kvs k
    by (simp add: handle_delete_def Let_def fopen_r_def fgets_file_of del_scan_entries good_env_def
        GLOBAL_FILE_NAME_def)
  ultimately show ?thesis by (simp add: handle_update_def)
qed

theorem missing_key_faults_witness:
  "handle_delete plain_env ''zzz'' one_store = Inl Uninit_Read"
  using missing_key_faults [OF one_store_inv(1), of "''zzz''"] by (simp add: one_store_inv)

text \<open>
  a value with an equals sign does not survive. After PUT of \<open>a=b\<close> under a new key, GET of that
  key returns \<open>a\<close> only.
\<close>

theorem value_cut_at_equals:
  assumes "kv_inv E st" and "plain k" and "plain a" and "NL \<notin> set b" and "NUL \<notin> set b"
    and "length k + length a + length b < 509" and "kv_lookup st k = None"
    and "st' = handle_put E (Some k) (Some (a @ ''='' @ b)) (Some GLOBAL_FILE_NAME) st"
  shows "handle_get E k None 512 st' = Inr (st', Some a)"
proof -
  obtain kvs where kvs: "good_env E" "wf_entries kvs" "files st GLOBAL_FILE_NAME = Some (file_of kvs)"
    "kv_lookup st = map_of kvs" using kv_inv_E [OF assms(1)] .
  let ?l = "k @ ''='' @ a @ ''='' @ b"
  have new: "k \<notin> fst ` set kvs" using assms(7) kvs(4) by (simp add: map_of_eq_None_iff)
  have short: "take 699 ?l = ?l" using assms(6) by simp
  have f: "files st' GLOBAL_FILE_NAME = Some (file_of kvs @ ?l @ [NL])"
    using kvs new short unfolding assms(8)
    by (simp add: handle_put_def Let_def put_scan_entries fgets_file_of say_def set_file_def
        good_env_def GLOBAL_FILE_NAME_def error_out_def)
  have ls: "fgets_all 512 (concat (map (\<lambda>l. l @ [NL]) (map kv_line kvs @ [?l]))) =
      map (\<lambda>l. l @ [NL]) (map kv_line kvs @ [?l])"
  proof (rule fgets_all_lines)
    show "\<forall>l \<in> set (map kv_line kvs @ [?l]). NL \<notin> set l \<and> length l + 1 < 512"
      using kvs(2) kv_line_chars assms(2-6) by (fastforce simp: wf_entries_def plain_def)
  qed
  have st1: "strtok CHR ''='' ?l = (Some k, a @ ''='' @ b)"
    using strtok_token [of k "CHR ''=''" "a @ ''='' @ b"] assms(2) by (simp add: plain_def)
  have st2: "strtok CHR ''='' (a @ ''='' @ b) = (Some a, b)"
    using strtok_token [of a "CHR ''=''" b] assms(3) by (simp add: plain_def)
  have "NUL \<notin> set (?l @ [NL])" and nl: "NL \<notin> set ?l" using assms(2-5) by (auto simp: plain_def)
  then have ch: "chomp (cstr (?l @ [NL])) = ?l" using chomp_NL [OF nl, of "[]"] by (metis cstr_id)
  have "get_scan k (map (\<lambda>e. kv_line e @ [NL]) kvs @ [?l @ [NL]]) = Inr (Some a)"
    using kvs(2) new
  proof (induction kvs)
    case Nil
    then show ?case using ch st1 st2 by simp
  next
    case (Cons e kvs)
    then show ?case by (auto simp: wf_entries_def kv_line_strtok)
  qed
  moreover have "fgets_all 512 (file_of kvs @ ?l @ [NL]) =
      map (\<lambda>e. kv_line e @ [NL]) kvs @ [?l @ [NL]]"
    using ls by (simp add: file_of_def comp_def)
  moreover have "take 511 a = a" using assms(6) by simp
  ultimately show ?thesis using f kvs(1) by (simp add: handle_get_def open_store)
qed

theorem value_cut_at_equals_witness:
  "\<exists>st'. st' = handle_put plain_env (Some ''k'') (Some ''x=1'') (Some GLOBAL_FILE_NAME) one_store \<and>
     handle_get plain_env ''k'' None 512 st' = Inr (st', Some ''x'')"
  using value_cut_at_equals [OF one_store_inv(1), of "''k''" "''x''" "''1''", OF _ _ _ _ _ _ refl]
  by (simp add: one_store_inv plain_def)


text \<open>
  DELETE trusts its writes. If writing \<^verbatim>\<open>temp.txt\<close> fails while removing and renaming work, deleting
  one stored key reports success and leaves an empty store.
\<close>

theorem delete_loses_store:
  assumes "kv_inv E st" and "kv_lookup st k = Some v" and "E' = E\<lparr>reaches := (\<lambda>_. 0)\<rparr>"
  shows "\<exists>st'. handle_delete E' k st = Inr st' \<and> kv_lookup st' = Map.empty \<and>
    out st' = out st @ ''Successfully DELETED [KEY: '' @ k @ '', VALUE: '' @ v @ '']'' @ [NL]"
proof -
  obtain kvs where kvs: "good_env E" "wf_entries kvs" "files st GLOBAL_FILE_NAME = Some (file_of kvs)"
    "kv_lookup st = map_of kvs" using kv_inv_E [OF assms(1)] .
  then show ?thesis using assms(2,3)
    by (simp add: handle_delete_def Let_def fopen_r_def fgets_file_of del_scan_entries good_env_def
        say_def set_file_def GLOBAL_FILE_NAME_def kv_lookup_def)
qed

theorem delete_loses_store_witness:
  "\<exists>st'. handle_delete (plain_env\<lparr>reaches := (\<lambda>_. 0)\<rparr>) ''one'' one_store = Inr st' \<and>
     kv_lookup st' = Map.empty"
  using delete_loses_store [OF one_store_inv(1), of "''one''" "''three''", OF _ refl]
  by (auto simp: one_store_inv)

lemma list_entry_line:
  assumes "ok_pair (fst e) (snd e)"
  shows "list_entry (kv_line e @ [NL]) = ''KEY: '' @ fst e @ '', VALUE: '' @ snd e @ [NL, NL]"
proof -
  have c: "cstr (kv_line e @ [NL]) = kv_line e @ [NL]" using kv_line_chars [OF assms] by simp
  have "strtok CHR ''='' (kv_line e @ [NL]) = (Some (fst e), snd e @ [NL])"
    using assms strtok_token [of "fst e" "CHR ''=''" "snd e @ [NL]"]
    by (simp add: ok_pair_def plain_def kv_line_def)
  moreover have "strtok CHR ''='' (snd e @ [NL]) = (Some (snd e @ [NL]), [])"
    by (rule strtok_last) (use assms in \<open>auto simp: ok_pair_def plain_def\<close>)
  ultimately show ?thesis by (simp add: list_entry_def c)
qed

text \<open>
  LIST prints every stored pair in file order, each followed by a blank line (the value keeps the
  newline of its file line), and changes no file; without a store file it dereferences a null stream.
\<close>

theorem handle_list_output:
  assumes "good_env E" and "wf_entries kvs" and "files st GLOBAL_FILE_NAME = Some (file_of kvs)"
  shows "handle_list E st = Inr (say (concat (map (\<lambda>(k, v). ''KEY: '' @ k @ '', VALUE: '' @ v @ [NL, NL]) kvs)) st)
    \<and> handle_list E (st\<lparr>files := (files st)(GLOBAL_FILE_NAME := None)\<rparr>) = Inl Null_Deref"
proof -
  have m: "map list_entry (map (\<lambda>e. kv_line e @ [NL]) kvs) =
      map (\<lambda>(k, v). ''KEY: '' @ k @ '', VALUE: '' @ v @ [NL, NL]) kvs"
    using assms(2) by (induction kvs) (auto simp: wf_entries_def list_entry_line)
  show ?thesis using assms
    by (simp add: handle_list_def open_store fgets_file_of m del: map_map)
qed

theorem handle_list_output_witness:
  "handle_list plain_env one_store = Inr (say (''KEY: one, VALUE: three'' @ [NL, NL]) one_store)"
proof -
  have 1: "good_env plain_env" "wf_entries [(''one'', ''three'')]"
    by (simp_all add: good_env_def prints_all_def plain_env_def wf_entries_def ok_pair_def plain_def)
  have "files one_store GLOBAL_FILE_NAME = Some (file_of [(''one'', ''three'')])"
    by (simp add: one_store_def)
  from handle_list_output [OF 1 this] show ?thesis by simp
qed

text \<open>
  the command loop returns normally only after a line that reads \<open>exit\<close>: at the end of standard
  input it prompts for ever.
\<close>

theorem cli_loop_needs_exit:
  assumes "cli_loop E input st = Some (Inr st')"
  shows "\<exists>buf \<in> set (fgets_all 700 input). chomp (cstr buf) = ''exit''"
proof -
  have "(\<exists>st'. r = Inr st') \<longrightarrow> (\<exists>buf \<in> set (fgets_all 700 i). chomp (cstr buf) = ''exit'')"
    if "cli_loop E i s = Some r" for E i s r
  proof (rule cli_loop.raw_induct [where P = "\<lambda>E i s r. (\<exists>st'. r = Inr st') \<longrightarrow>
      (\<exists>buf \<in> set (fgets_all 700 i). chomp (cstr buf) = ''exit'')", OF _ that])
    fix cl E i s r
    assume IH: "\<And>E i s r. cl E i s = Some r \<Longrightarrow> (\<exists>st'. r = Inr st') \<longrightarrow>
        (\<exists>buf \<in> set (fgets_all 700 i). chomp (cstr buf) = ''exit'')"
      and eq: "(case fgets 700 i of None \<Rightarrow> cl E i (cli_prompt s)
        | Some (buf, rest) \<Rightarrow> (case cli_line E buf (cli_prompt s) of Inl f \<Rightarrow> Some (Inl f)
          | Inr (stop, st1) \<Rightarrow> if stop then Some (Inr st1) else cl E rest st1)) = Some r"
    have stop: "chomp (cstr buf) = ''exit''" if "cli_line E buf s2 = Inr (True, s3)" for buf s2 s3
      using that by (auto simp: cli_line_def Let_def map_sum_def split: if_splits option.splits
          prod.splits sum.splits)
    show "(\<exists>st'. r = Inr st') \<longrightarrow> (\<exists>buf \<in> set (fgets_all 700 i). chomp (cstr buf) = ''exit'')"
    proof (cases "fgets 700 i")
      case None
      then show ?thesis using eq IH by simp
    next
      case (Some y)
      obtain buf rest where y: "y = (buf, rest)" by fastforce
      then have step: "fgets_all 700 i = buf # fgets_all 700 rest" using Some fgets_all_step by simp
      show ?thesis using eq IH stop step Some y
        by (auto split: sum.splits prod.splits if_splits)
    qed
  qed
  then show ?thesis using assms by blast
qed

theorem cli_loop_needs_exit_witness:
  "cli_loop plain_env (''exit'' @ [NL]) one_store =
     Some (Inr (say (''Bye!'' @ [NL]) (cli_prompt one_store))) \<and>
   (\<exists>buf \<in> set (fgets_all 700 (''exit'' @ [NL])). chomp (cstr buf) = ''exit'')"
proof -
  have "fgets 700 (''exit'' @ [NL]) = Some (''exit'' @ [NL], [])"
    by (rule fgets_line) simp_all
  then have "cli_loop plain_env (''exit'' @ [NL]) one_store =
      Some (Inr (say (''Bye!'' @ [NL]) (cli_prompt one_store)))"
    using chomp_NL [of "''exit''" "[]"]
    by (subst cli_loop.simps) (simp add: cli_line_def)
  with cli_loop_needs_exit [OF this] show ?thesis by blast
qed

end
