(* ===== verification/KvSession.thy ===== *)
theory KvSession
  imports KvProps
begin

text \<open>
  Whole sessions of \<^verbatim>\<open>key-value-store/spkvs.c\<close>: a command language, its meaning on the list of stored
  pairs, and the proof that the program, fed the text of any such commands and \<^verbatim>\<open>exit\<close>, returns with
  the output and the file this meaning gives.
\<close>

section \<open>Commands\<close>

datatype kv_cmd =
    Put_cmd string string | Get_cmd string | Delete_cmd string | Update_cmd string string | List_cmd | Help_cmd
  | Blank_cmd

definition word :: "string \<Rightarrow> bool" where
  "word w \<longleftrightarrow> w \<noteq> [] \<and> CHR '' '' \<notin> set w"

fun cmd_text :: "kv_cmd \<Rightarrow> string" where
  "cmd_text (Put_cmd k v) = ''PUT '' @ k @ '' '' @ v"
| "cmd_text (Get_cmd k) = ''GET '' @ k"
| "cmd_text (Delete_cmd k) = ''DELETE '' @ k"
| "cmd_text (Update_cmd k v) = ''UPDATE '' @ k @ '' '' @ v"
| "cmd_text List_cmd = ''LIST''"
| "cmd_text Help_cmd = ''HELP''"
| "cmd_text Blank_cmd = []"

text \<open>What the commands may be: pairs the store can keep, keys that are stored.\<close>

fun cmd_ok :: "(string \<times> string) list \<Rightarrow> kv_cmd \<Rightarrow> bool" where
  "cmd_ok kvs (Put_cmd k v) \<longleftrightarrow> ok_pair k v \<and> word k \<and> word v"
| "cmd_ok kvs (Get_cmd k) \<longleftrightarrow> word k \<and> map_of kvs k \<noteq> None"
| "cmd_ok kvs (Delete_cmd k) \<longleftrightarrow> word k \<and> map_of kvs k \<noteq> None"
| "cmd_ok kvs (Update_cmd k v) \<longleftrightarrow> ok_pair k v \<and> word k \<and> word v \<and> map_of kvs k \<noteq> None"
| "cmd_ok kvs c \<longleftrightarrow> True"

text \<open>The meaning: the pairs in the order of the file, what is printed, what is reported.\<close>

definition without :: "string \<Rightarrow> (string \<times> string) list \<Rightarrow> (string \<times> string) list" where
  "without k kvs = filter (\<lambda>e. fst e \<noteq> k) kvs"

definition put_text :: "string \<Rightarrow> string \<Rightarrow> string" where
  "put_text k v = ''Succesfully written to file: ['' @ k @ ''='' @ v @ '']'' @ [NL]"

definition deleted_text :: "string \<Rightarrow> string \<Rightarrow> string" where
  "deleted_text k v = ''Successfully DELETED [KEY: '' @ k @ '', VALUE: '' @ v @ '']'' @ [NL]"

fun cmd_run :: "(string \<times> string) list \<Rightarrow> kv_cmd \<Rightarrow> (string \<times> string) list \<times> string \<times> string list" where
  "cmd_run kvs (Put_cmd k v) =
     (if map_of kvs k = None then (kvs @ [(k, v)], put_text k v, [])
      else (kvs, ''!! Use UPDATE to change value'' @ [NL], [''EXISITING key error!'']))"
| "cmd_run kvs (Get_cmd k) = (kvs, ''KEY: '' @ k @ '', VALUE: '' @ the (map_of kvs k) @ [NL], [])"
| "cmd_run kvs (Delete_cmd k) = (without k kvs, deleted_text k (the (map_of kvs k)), [])"
| "cmd_run kvs (Update_cmd k v) =
     (without k kvs @ [(k, v)], deleted_text k (the (map_of kvs k)) @ put_text k v @
        ''Successfully Updated KEY: '' @ k @ '', with VALUE: '' @ v, [])"
| "cmd_run kvs List_cmd =
     (kvs, concat (map (\<lambda>(k, v). ''KEY: '' @ k @ '', VALUE: '' @ v @ [NL, NL]) kvs), [])"
| "cmd_run kvs Help_cmd = (kvs, help_text, [])"
| "cmd_run kvs Blank_cmd = (kvs, [], [])"

fun session_run :: "(string \<times> string) list \<Rightarrow> kv_cmd list \<Rightarrow> (string \<times> string) list \<times> string \<times> string list" where
  "session_run kvs [] = (kvs, ''Store $> Bye!'' @ [NL], [])"
| "session_run kvs (c # cs) =
     (let (kvs1, o1, e1) = cmd_run kvs c; (kvs2, o2, e2) = session_run kvs1 cs
      in (kvs2, ''Store $> '' @ o1 @ o2, e1 @ e2))"

fun session_ok :: "(string \<times> string) list \<Rightarrow> kv_cmd list \<Rightarrow> bool" where
  "session_ok kvs [] \<longleftrightarrow> True"
| "session_ok kvs (c # cs) \<longleftrightarrow> cmd_ok kvs c \<and> session_ok (fst (cmd_run kvs c)) cs"

definition session_text :: "kv_cmd list \<Rightarrow> string" where
  "session_text cs = concat (map (\<lambda>c. cmd_text c @ [NL]) cs) @ ''exit'' @ [NL]"

text \<open>The state \<open>st\<close> keeps the pairs \<open>kvs\<close>.\<close>

definition keeps :: "fs_env \<Rightarrow> (string \<times> string) list \<Rightarrow> kv_state \<Rightarrow> bool" where
  "keeps E kvs st \<longleftrightarrow> good_env E \<and> wf_entries kvs \<and> files st GLOBAL_FILE_NAME = Some (file_of kvs)"

lemma keeps_say [simp]: "keeps E kvs (say s st) = keeps E kvs st" "keeps E kvs (cli_prompt st) = keeps E kvs st"
  by (simp_all add: keeps_def say_def cli_prompt_def)

lemma say_sel [simp]: "out (say s st) = out st @ s" "err (say s st) = err st"
  by (simp_all add: say_def)

lemma prompt_sel [simp]: "out (cli_prompt st) = out st @ ''Store $> ''" "err (cli_prompt st) = err st"
  by (simp_all add: cli_prompt_def)

section \<open>The lines\<close>

lemma cli_loop_line:
  assumes "NL \<notin> set l" and "length l < 699"
  shows "cli_loop E (l @ NL # rest) st =
    (case cli_line E (l @ [NL]) (cli_prompt st) of
       Inl f \<Rightarrow> Some (Inl f) | Inr (stop, st1) \<Rightarrow> if stop then Some (Inr st1) else cli_loop E rest st1)"
  using assms by (subst cli_loop.simps) (simp add: fgets_line)

lemma line_content: "NL \<notin> set l \<Longrightarrow> NUL \<notin> set l \<Longrightarrow> chomp (cstr (l @ [NL])) = l"
  using chomp_NL [of l "[]"] by simp

text \<open>The words of a line of one, two or three words.\<close>

lemma word_last: "word w \<Longrightarrow> strtok CHR '' '' w = (Some w, [])"
  by (intro strtok_last) (simp_all add: word_def)

lemma word_first: "word w \<Longrightarrow> strtok CHR '' '' (w @ CHR '' '' # r) = (Some w, r)"
  by (intro strtok_token) (simp_all add: word_def)

lemma word_names [simp]:
  "word ''PUT''" "word ''GET''" "word ''DELETE''" "word ''UPDATE''" "word ''LIST''" "word ''HELP''"
  by (simp_all add: word_def)

lemmas word_simps = word_last word_first [of "''PUT''", simplified] word_first [of "''GET''", simplified]
  word_first [of "''DELETE''", simplified] word_first [of "''UPDATE''", simplified]
  word_last [of "''LIST''", simplified] word_last [of "''HELP''", simplified]

lemma kept_word:
  assumes "keeps E kvs st" and "map_of kvs k = Some v"
  shows "ok_pair k v"
  using assms by (auto simp: keeps_def wf_entries_def dest: map_of_SomeD)

lemma cmd_line_chars:
  assumes "keeps E kvs st" and "cmd_ok kvs c"
  shows "NL \<notin> set (cmd_text c) \<and> NUL \<notin> set (cmd_text c) \<and> length (cmd_text c) < 699"
proof -
  have key: "NL \<notin> set k \<and> NUL \<notin> set k \<and> length k < 510" if "map_of kvs k = Some v" for k v
    using kept_word [OF assms(1) that] by (auto simp: ok_pair_def plain_def)
  have pair: "length k + length v < 510" if "ok_pair k v" for k v using that by (simp add: ok_pair_def)
  show ?thesis
    using assms(2) by (cases c) (auto simp: ok_pair_def plain_def dest!: key)
qed

section \<open>One command\<close>

lemma put_keeps:
  assumes "keeps E kvs st" and "ok_pair k v"
  shows "keeps E (fst (cmd_run kvs (Put_cmd k v))) (handle_put E (Some k) (Some v) (Some GLOBAL_FILE_NAME) st) \<and>
    out (handle_put E (Some k) (Some v) (Some GLOBAL_FILE_NAME) st) = out st @ fst (snd (cmd_run kvs (Put_cmd k v))) \<and>
    err (handle_put E (Some k) (Some v) (Some GLOBAL_FILE_NAME) st) = err st @ snd (snd (cmd_run kvs (Put_cmd k v)))"
proof -
  have kvs: "good_env E" "wf_entries kvs" "files st GLOBAL_FILE_NAME = Some (file_of kvs)"
    using assms(1) by (simp_all add: keeps_def)
  have env: "open_ok E ''store.txt''" "prints_all E" using kvs(1) by (simp_all add: good_env_def)
  have len: "\<not> 700 \<le> length (k @ CHR ''='' # v)" "take 699 (k @ CHR ''='' # v) = k @ CHR ''='' # v"
    using assms(2) by (auto simp: ok_pair_def intro!: take_all)
  show ?thesis
  proof (cases "map_of kvs k")
    case None
    then have new: "k \<notin> fst ` set kvs" by (simp add: map_of_eq_None_iff)
    have "wf_entries (kvs @ [(k, v)])" using new kvs(2) assms(2) by (auto simp: wf_entries_def)
    moreover have "\<not> put_scan k (fgets_all 700 (file_of kvs))"
      using new kvs(2) by (simp add: fgets_file_of put_scan_entries)
    ultimately show ?thesis
      using put_new_file [OF kvs assms(2) new] None kvs env len
      by (simp add: keeps_def handle_put_def Let_def say_def set_file_def put_text_def GLOBAL_FILE_NAME_def
          del: append_assoc length_append)
  next
    case (Some u)
    then have old: "k \<in> fst ` set kvs" by (metis map_of_eq_None_iff option.distinct(1))
    then have "put_scan k (fgets_all 700 (file_of kvs))" using kvs(2) by (simp add: fgets_file_of put_scan_entries)
    then show ?thesis
      using Some kvs env len
      by (simp add: keeps_def handle_put_def Let_def set_file_def error_out_def say_def GLOBAL_FILE_NAME_def
          del: append_assoc length_append)
  qed
qed

lemma delete_keeps:
  assumes "keeps E kvs st" and "map_of kvs k = Some v"
  shows "\<exists>st'. handle_delete E k st = Inr st' \<and> keeps E (without k kvs) st' \<and>
    out st' = out st @ deleted_text k v \<and> err st' = err st"
proof -
  have kvs: "good_env E" "wf_entries kvs" "files st GLOBAL_FILE_NAME = Some (file_of kvs)"
    using assms(1) by (simp_all add: keeps_def)
  have env: "open_ok E ''store.txt''" "open_ok E ''temp.txt''" "prints_all E" "remove_ok E" "rename_ok E"
    using kvs(1) by (simp_all add: good_env_def)
  show ?thesis
    using kvs assms(2) env wf_filter [OF kvs(2)]
    by (simp add: handle_delete_def Let_def fopen_r_def fgets_file_of del_scan_entries
        keeps_def set_file_def GLOBAL_FILE_NAME_def deleted_text_def without_def say_def)
qed

lemma get_keeps:
  assumes "keeps E kvs st" and "map_of kvs k = Some v"
  shows "handle_get E k None 512 st = Inr (st, Some v)"
proof -
  have "kv_inv E st" "kv_lookup st k = Some v"
    using assms kv_lookup_file [of kvs st] by (auto simp: keeps_def kv_inv_def)
  then show ?thesis by (rule kv.get_old)
qed

lemma update_keeps:
  assumes "keeps E kvs st" and "map_of kvs k = Some u" and "ok_pair k v"
  shows "\<exists>st'. handle_update E k v st = Inr st' \<and> keeps E (without k kvs @ [(k, v)]) st' \<and>
    out st' = out st @ fst (snd (cmd_run kvs (Update_cmd k v))) \<and> err st' = err st"
proof -
  obtain st1 where st1: "handle_delete E k st = Inr st1" "keeps E (without k kvs) st1"
      "out st1 = out st @ deleted_text k u" "err st1 = err st"
    using delete_keeps [OF assms(1,2)] by blast
  have "map_of (without k kvs) k = None" by (simp add: without_def map_of_filter_key)
  then show ?thesis
    using put_keeps [OF st1(2) assms(3)] st1 assms(2) by (simp add: handle_update_def)
qed

lemma list_keeps:
  assumes "keeps E kvs st"
  shows "handle_list E st = Inr (say (fst (snd (cmd_run kvs List_cmd))) st)"
proof -
  have m: "map list_entry (map (\<lambda>e. kv_line e @ [NL]) kvs) =
      map (\<lambda>(k, v). ''KEY: '' @ k @ '', VALUE: '' @ v @ [NL, NL]) kvs"
    using assms unfolding keeps_def by (induction kvs) (auto simp: wf_entries_def list_entry_line)
  show ?thesis using assms
    by (simp add: keeps_def handle_list_def open_store fgets_file_of m del: map_map)
qed

lemma cmd_step:
  assumes "keeps E kvs st" and "cmd_ok kvs c" and "cmd_run kvs c = (kvs', o', e')"
  shows "\<exists>st'. cli_line E (cmd_text c @ [NL]) st = Inr (False, st') \<and> keeps E kvs' st' \<and>
    out st' = out st @ o' \<and> err st' = err st @ e'"
proof -
  note line = line_content [of "cmd_text c"] cmd_line_chars [OF assms(1,2)]
  show ?thesis
  proof (cases c)
    case (Put_cmd k v)
    then have "cli_line E (cmd_text c @ [NL]) st =
        Inr (False, handle_put E (Some k) (Some v) (Some GLOBAL_FILE_NAME) st)"
      using line assms(2) by (simp add: cli_line_def word_simps word_first)
    then show ?thesis
      using put_keeps [OF assms(1), of k v] assms(2,3) Put_cmd by (cases "map_of kvs k") auto
  next
    case (Get_cmd k)
    then obtain v where v: "map_of kvs k = Some v" using assms(2) by auto
    then have "cli_line E (cmd_text c @ [NL]) st = Inr (False, say (''KEY: '' @ k @ '', VALUE: '' @ v @ [NL]) st)"
      using line assms(2) get_keeps [OF assms(1) v] Get_cmd by (simp add: cli_line_def word_simps)
    then show ?thesis using v assms(1,3) Get_cmd by simp
  next
    case (Delete_cmd k)
    then obtain v where v: "map_of kvs k = Some v" using assms(2) by auto
    from delete_keeps [OF assms(1) v] show ?thesis
      using line assms(2,3) v Delete_cmd by (auto simp: cli_line_def word_simps)
  next
    case (Update_cmd k v)
    then obtain u where u: "map_of kvs k = Some u" using assms(2) by auto
    have "ok_pair k v" using assms(2) Update_cmd by simp
    from update_keeps [OF assms(1) u this] obtain st' where st': "handle_update E k v st = Inr st'"
        "keeps E (without k kvs @ [(k, v)]) st'" "out st' = out st @ fst (snd (cmd_run kvs (Update_cmd k v)))"
        "err st' = err st" by blast
    have "cli_line E (cmd_text c @ [NL]) st = Inr (False, st')"
      using line assms(2) st'(1) Update_cmd by (simp add: cli_line_def word_simps word_first)
    then show ?thesis using st' assms(3) Update_cmd by auto
  next
    case List_cmd
    then show ?thesis
      using line list_keeps [OF assms(1)] assms(1,3) by (auto simp: cli_line_def word_simps)
  next
    case Help_cmd
    then show ?thesis using line assms(1,3) by (auto simp: cli_line_def word_simps)
  next
    case Blank_cmd
    then show ?thesis using line assms(1,3) by (simp add: cli_line_def)
  qed
qed

section \<open>Sessions\<close>

lemma cli_line_exit: "cli_line E (''exit'' @ [NL]) st = Inr (True, say (''Bye!'' @ [NL]) st)"
  using chomp_NL [of "''exit''" "[]"] by (simp add: cli_line_def)

lemma session_loop:
  assumes "keeps E kvs st" and "session_ok kvs cs" and "session_run kvs cs = (kvs', o', e')"
  shows "\<exists>st'. cli_loop E (session_text cs) st = Some (Inr st') \<and> keeps E kvs' st' \<and>
    out st' = out st @ o' \<and> err st' = err st @ e'"
  using assms
proof (induction cs arbitrary: kvs st o' e')
  case Nil
  have "cli_loop E (session_text []) st = Some (Inr (say (''Bye!'' @ [NL]) (cli_prompt st)))"
    using cli_line_exit cli_loop_line [of "''exit''" E "[]" st] by (simp add: session_text_def)
  then show ?case using Nil by auto
next
  case (Cons c cs)
  obtain kvs1 o1 e1 where c: "cmd_run kvs c = (kvs1, o1, e1)" by (cases "cmd_run kvs c") auto
  obtain o2 e2 where cs: "session_run kvs1 cs = (kvs', o2, e2)" "o' = ''Store $> '' @ o1 @ o2" "e' = e1 @ e2"
    using Cons.prems(3) c by (auto split: prod.splits)
  have ok: "cmd_ok kvs c" "session_ok kvs1 cs" using Cons.prems(2) c by simp_all
  have "keeps E kvs (cli_prompt st)" using Cons.prems(1) by simp
  from cmd_step [OF this ok(1) c] obtain st1 where st1: "cli_line E (cmd_text c @ [NL]) (cli_prompt st) = Inr (False, st1)"
      "keeps E kvs1 st1" "out st1 = out (cli_prompt st) @ o1" "err st1 = err (cli_prompt st) @ e1" by blast
  have "cli_loop E (session_text (c # cs)) st = cli_loop E (session_text cs) st1"
    using cli_loop_line [of "cmd_text c" E "session_text cs" st] cmd_line_chars [OF Cons.prems(1) ok(1)] st1(1)
    by (simp add: session_text_def)
  moreover obtain st2 where "cli_loop E (session_text cs) st1 = Some (Inr st2)" "keeps E kvs' st2"
      "out st2 = out st1 @ o2" "err st2 = err st1 @ e2"
    using Cons.IH [OF st1(2) ok(2) cs(1)] by blast
  ultimately show ?case using st1(3,4) cs(2,3) by simp
qed

text \<open>
  C8: A whole session: on a store that keeps well-formed pairs, for every sequence of commands PUT (of
  pairs the store can keep), GET, DELETE, UPDATE (of stored keys), LIST, HELP and empty lines, followed
  by exit, the program returns, prints exactly what the commands mean with one prompt each, reports
  exactly the rejected PUTs, and leaves in the file exactly the pairs the commands mean, in order.
\<close>

theorem kv_session:
  assumes "good_env E" and "wf_entries kvs" and "files st GLOBAL_FILE_NAME = Some (file_of kvs)"
    and "session_ok kvs cs" and "session_run kvs cs = (kvs', o', e')"
  shows "\<exists>st'. kv_main E [] (session_text cs) st = Some (Inr st') \<and>
    files st' GLOBAL_FILE_NAME = Some (file_of kvs') \<and> out st' = out st @ o' \<and> err st' = err st @ e'"
  using session_loop [OF _ assms(4,5), of E st] assms(1-3) by (auto simp: keeps_def kv_main_def)

theorem kv_session_witness:
  "\<exists>st'. kv_main plain_env []
      (''PUT two x'' @ [NL] @ ''PUT one y'' @ [NL] @ ''UPDATE one 1'' @ [NL] @ ''DELETE two'' @ [NL] @ ''LIST'' @ [NL] @
       ''exit'' @ [NL]) one_store = Some (Inr st') \<and>
    files st' GLOBAL_FILE_NAME = Some (''one=1'' @ [NL]) \<and> err st' = [''EXISITING key error!''] \<and>
    out st' = ''Store $> Succesfully written to file: [two=x]'' @ [NL] @
      ''Store $> !! Use UPDATE to change value'' @ [NL] @
      ''Store $> Successfully DELETED [KEY: one, VALUE: three]'' @ [NL] @
      ''Succesfully written to file: [one=1]'' @ [NL] @ ''Successfully Updated KEY: one, with VALUE: 1'' @
      ''Store $> Successfully DELETED [KEY: two, VALUE: x]'' @ [NL] @
      ''Store $> KEY: one, VALUE: 1'' @ [NL, NL] @ ''Store $> Bye!'' @ [NL]"
proof -
  let ?cs = "[Put_cmd ''two'' ''x'', Put_cmd ''one'' ''y'', Update_cmd ''one'' ''1'', Delete_cmd ''two'', List_cmd]"
  have e: "good_env plain_env" "wf_entries [(''one'', ''three'')]"
      "files one_store GLOBAL_FILE_NAME = Some (file_of [(''one'', ''three'')])"
    by (simp_all add: good_env_def prints_all_def plain_env_def wf_entries_def ok_pair_def plain_def one_store_def)
  have ok: "session_ok [(''one'', ''three'')] ?cs"
    by (simp add: ok_pair_def plain_def word_def without_def)
  obtain kvs' o' e' where r: "session_run [(''one'', ''three'')] ?cs = (kvs', o', e')"
    by (cases "session_run [(''one'', ''three'')] ?cs") auto
  show ?thesis
    using kv_session [OF e ok r] r
    by (auto simp: session_text_def without_def put_text_def deleted_text_def file_of_def kv_line_def one_store_def)
qed

end
