(* ===== verification/KvFailures.thy ===== *)
theory KvFailures
  imports KvSession
begin

text \<open>
  The handlers of \<^verbatim>\<open>key-value-store/spkvs.c\<close> when the operating system refuses something: what is then
  in \<^verbatim>\<open>store.txt\<close> and \<^verbatim>\<open>temp.txt\<close>, and what the program says.
\<close>

section \<open>DELETE\<close>

definition can_open :: "fs_env \<Rightarrow> bool" where
  "can_open E \<longleftrightarrow> open_ok E GLOBAL_FILE_NAME \<and> open_ok E ''temp.txt''"

text \<open>What reaches \<^verbatim>\<open>temp.txt\<close>.\<close>

definition rewritten :: "fs_env \<Rightarrow> string \<Rightarrow> (string \<times> string) list \<Rightarrow> string" where
  "rewritten E k kvs = take (reaches E (file_of (without k kvs))) (file_of (without k kvs))"

text \<open>The files after a DELETE of a stored key.\<close>

definition after_delete :: "fs_env \<Rightarrow> string \<Rightarrow> (string \<times> string) list \<Rightarrow> kv_state \<Rightarrow> bool" where
  "after_delete E k kvs st \<longleftrightarrow>
     (if \<not> can_open E \<or> \<not> remove_ok E then files st GLOBAL_FILE_NAME = Some (file_of kvs)
      else if \<not> rename_ok E
      then files st GLOBAL_FILE_NAME = None \<and> files st ''temp.txt'' = Some (rewritten E k kvs)
      else files st GLOBAL_FILE_NAME = Some (rewritten E k kvs) \<and> files st ''temp.txt'' = None)"

lemma delete_result:
  assumes "wf_entries kvs" and "files st GLOBAL_FILE_NAME = Some (file_of kvs)" and "map_of kvs k = Some v"
  shows "\<exists>st'. handle_delete E k st = Inr st' \<and> after_delete E k kvs st' \<and>
    (if can_open E \<and> remove_ok E \<and> rename_ok E
     then out st' = out st @ deleted_text k v \<and> err st' = err st
     else out st' = out st \<and> length (err st') = Suc (length (err st)))"
proof -
  have d: "del_scan k (fgets_all 700 (file_of kvs)) None = (file_of (without k kvs), Some v)"
    using assms(1,3) by (simp add: fgets_file_of del_scan_entries without_def)
  have n: "GLOBAL_FILE_NAME \<noteq> ''temp.txt''" by (simp add: GLOBAL_FILE_NAME_def)
  note defs = handle_delete_def after_delete_def can_open_def rewritten_def Let_def fopen_r_def set_file_def
    error_out_def say_def deleted_text_def
  show ?thesis
  proof (cases "can_open E")
    case False
    then show ?thesis using assms(2) d n by (auto simp: defs)
  next
    case True
    then show ?thesis using assms(2) d n by (cases "remove_ok E"; cases "rename_ok E") (auto simp: defs)
  qed
qed

text \<open>
  C9: DELETE of a stored key under every combination of refusals. It never faults. As long as one of
  the files cannot be opened or \<^verbatim>\<open>store.txt\<close> cannot be removed, the store is as before; when the renaming
  is refused there is no store any more and \<^verbatim>\<open>temp.txt\<close> holds the other pairs; otherwise the store holds
  the other pairs, as far as what was printed has reached the disk, down to nothing at all, which is
  reported as a success as well.
\<close>

theorem delete_failures:
  assumes "wf_entries kvs" and "files st GLOBAL_FILE_NAME = Some (file_of kvs)" and "map_of kvs k = Some v"
  shows "\<exists>st'. handle_delete E k st = Inr st' \<and> after_delete E k kvs st' \<and>
    (if can_open E \<and> remove_ok E \<and> rename_ok E
     then out st' = out st @ deleted_text k v \<and> err st' = err st
     else out st' = out st \<and> length (err st') = Suc (length (err st)))"
  by (rule delete_result [OF assms])

theorem delete_failures_witness:
  "\<exists>st'. handle_delete (plain_env\<lparr>rename_ok := False\<rparr>) ''one'' one_store = Inr st' \<and>
    files st' GLOBAL_FILE_NAME = None \<and> files st' ''temp.txt'' = Some [] \<and> out st' = []"
proof -
  have wf: "wf_entries [(''one'', ''three'')]" by (simp add: wf_entries_def ok_pair_def plain_def)
  have f: "files one_store GLOBAL_FILE_NAME = Some (file_of [(''one'', ''three'')])" by (simp add: one_store_def)
  have "map_of [(''one'', ''three'')] ''one'' = Some ''three''" by simp
  from delete_failures [OF wf f this, of "plain_env\<lparr>rename_ok := False\<rparr>"] show ?thesis
    by (auto simp: after_delete_def rewritten_def can_open_def plain_env_def without_def file_of_def one_store_def)
qed

section \<open>PUT\<close>

lemma fgets_file_rest:
  "wf_entries kvs \<Longrightarrow> 512 \<le> n \<Longrightarrow>
    fgets_all n (file_of kvs @ rest) = map (\<lambda>e. kv_line e @ [NL]) kvs @ fgets_all n rest"
proof (induction kvs)
  case (Cons e kvs)
  have "ok_pair (fst e) (snd e)" "wf_entries kvs" using Cons.prems(1) by (auto simp: wf_entries_def)
  then show ?case
    using Cons.IH Cons.prems(2) kv_line_chars [of e] by (simp add: file_of_def fgets_all_line)
qed (simp add: file_of_def)

lemma scans_rest:
  assumes "wf_entries kvs" and "k \<notin> fst ` set kvs"
  shows "put_scan k (map (\<lambda>e. kv_line e @ [NL]) kvs @ ls) = put_scan k ls"
    and "get_scan k (map (\<lambda>e. kv_line e @ [NL]) kvs @ ls) = get_scan k ls"
  using assms by (induction kvs) (auto simp: wf_entries_def kv_line_strtok)

text \<open>The first token of a line of which only some bytes were written, with another line behind it.\<close>

lemma strtok_torn:
  assumes "plain k" and "plain k'" and "0 < m"
  shows "fst (strtok CHR ''='' (take m (kv_line (k, v)))) = Some (take m k)"
    and "fst (strtok CHR ''='' (take m (kv_line (k, v)) @ kv_line (k', v'))) =
      Some (if m \<le> length k then take m k @ k' else k)"
proof -
  have k: "take m k \<noteq> []" "CHR ''='' \<notin> set (take m k)" "k \<noteq> []" "CHR ''='' \<notin> set k" "CHR ''='' \<notin> set k'"
    using assms by (auto simp: plain_def dest: in_set_takeD)
  have "take m (kv_line (k, v)) = take m k" if "m \<le> length k" using that by (simp add: kv_line_def)
  moreover have "take m (kv_line (k, v)) = k @ CHR ''='' # take (m - length k - 1) v" if "\<not> m \<le> length k"
    using that by (simp add: kv_line_def take_Cons')
  ultimately show "fst (strtok CHR ''='' (take m (kv_line (k, v)))) = Some (take m k)"
    "fst (strtok CHR ''='' (take m (kv_line (k, v)) @ kv_line (k', v'))) = Some (if m \<le> length k then take m k @ k' else k)"
    using k strtok_last [OF k(1,2)] strtok_token [OF k(3,4)] strtok_token [of "take m k @ k'" "CHR ''=''" v']
    by (cases "m \<le> length k"; simp add: kv_line_def)+
qed

definition stored_text :: "string \<Rightarrow> string \<Rightarrow> string" where
  "stored_text k v = ''Succesfully written to file: ['' @ kv_line (k, v) @ '']'' @ [NL]"

lemma put_result:
  assumes "open_ok E GLOBAL_FILE_NAME" and "print_ok E" and "ok_pair k v"
    and "files st GLOBAL_FILE_NAME = Some c" and "\<not> put_scan k (fgets_all 700 c)"
  shows "files (handle_put E (Some k) (Some v) (Some GLOBAL_FILE_NAME) st) =
      (files st)(GLOBAL_FILE_NAME \<mapsto> c @ take (reaches E (kv_line (k, v) @ [NL])) (kv_line (k, v) @ [NL]))"
    and "out (handle_put E (Some k) (Some v) (Some GLOBAL_FILE_NAME) st) = out st @ stored_text k v"
proof -
  have len: "\<not> 700 \<le> length (kv_line (k, v))" "take 699 (kv_line (k, v)) = kv_line (k, v)"
    using assms(3) by (auto simp: ok_pair_def kv_line_def intro!: take_all)
  have line: "k @ CHR ''='' # v = kv_line (k, v)" by (simp add: kv_line_def)
  show "files (handle_put E (Some k) (Some v) (Some GLOBAL_FILE_NAME) st) =
      (files st)(GLOBAL_FILE_NAME \<mapsto> c @ take (reaches E (kv_line (k, v) @ [NL])) (kv_line (k, v) @ [NL]))"
    "out (handle_put E (Some k) (Some v) (Some GLOBAL_FILE_NAME) st) = out st @ stored_text k v"
    using assms(1,2,4,5) len
    by (simp_all add: handle_put_def line Let_def set_file_def say_def stored_text_def del: length_append)
qed

text \<open>
  A PUT of which only some bytes reach the disk, its newline not among them, reports success; so does a
  PUT of another key after it, whose line ends up behind these bytes, so that the new key is not found.
\<close>

lemma torn_put_hides_next:
  assumes "wf_entries kvs" and "files st GLOBAL_FILE_NAME = Some (file_of kvs)"
    and "k \<notin> fst ` set kvs" and "k' \<notin> fst ` set kvs" and "ok_pair k v" and "ok_pair k' v'"
    and "length k + length v + length k' + length v' < 500" and "take m k \<noteq> k'"
    and "open_ok E GLOBAL_FILE_NAME" and "print_ok E" and "reaches E (kv_line (k, v) @ [NL]) = m"
    and "0 < m" and "m \<le> length (kv_line (k, v))" and "good_env E'"
    and "st1 = handle_put E (Some k) (Some v) (Some GLOBAL_FILE_NAME) st"
    and "st2 = handle_put E' (Some k') (Some v') (Some GLOBAL_FILE_NAME) st1"
  shows "out st2 = out st @ stored_text k v @ stored_text k' v'"
    and "files st2 GLOBAL_FILE_NAME = Some (file_of kvs @ take m (kv_line (k, v)) @ kv_line (k', v') @ [NL])"
    and "handle_get E' k' None 512 st2 = Inl Uninit_Read"
proof -
  let ?torn = "take m (kv_line (k, v))"
  have torn: "NL \<notin> set ?torn" "NUL \<notin> set ?torn" "NL \<notin> set (kv_line (k', v'))" "NUL \<notin> set (kv_line (k', v'))"
    using kv_line_chars [of "(k, v)"] kv_line_chars [of "(k', v')"] assms(5,6) by (auto dest: in_set_takeD)
  have lens: "length ?torn + length (kv_line (k', v')) + 1 < 512" "length ?torn + 1 < 700"
    using assms(7) by (auto simp: kv_line_def)
  have plain: "plain k" "plain k'" using assms(5,6) by (simp_all add: ok_pair_def)
  note tok = strtok_torn [OF plain assms(12), of v]
  have "\<not> put_scan k (fgets_all 700 (file_of kvs))"
    using assms(1,3) by (simp add: fgets_file_of put_scan_entries)
  note p1 = put_result [OF assms(9,10,5,2) this, folded assms(15)]
  have f1: "files st1 GLOBAL_FILE_NAME = Some (file_of kvs @ ?torn)" using p1(1) assms(11,13) by simp
  have "fgets_all 700 ?torn = [?torn]" using fgets_all_last [OF torn(1)] lens(2) assms(12) by (auto simp: kv_line_def)
  then have no: "\<not> put_scan k' (fgets_all 700 (file_of kvs @ ?torn))"
    using assms(1,4,8) torn tok(1) by (simp add: fgets_file_rest scans_rest)
  have "open_ok E' GLOBAL_FILE_NAME" "prints_all E'" using assms(14) by (simp_all add: good_env_def GLOBAL_FILE_NAME_def)
  note p2 = put_result [OF this(1) prints_allD(1) [OF this(2)] assms(6) f1 no, folded assms(16)]
  show "out st2 = out st @ stored_text k v @ stored_text k' v'" using p1(2) p2(2) by simp
  show f2: "files st2 GLOBAL_FILE_NAME = Some (file_of kvs @ ?torn @ kv_line (k', v') @ [NL])"
    using p2(1) by (simp only: prints_allD(2) [OF \<open>prints_all E'\<close>] fun_upd_same append_assoc)
  have l: "NL \<notin> set (?torn @ kv_line (k', v'))" "length (?torn @ kv_line (k', v')) + 1 < 512" using torn lens by simp_all
  have "fgets_all 512 (?torn @ kv_line (k', v') @ [NL]) = [(?torn @ kv_line (k', v')) @ [NL]]"
    using fgets_all_line [OF l, of "[]"] by simp
  moreover have "k \<noteq> k' \<or> m \<le> length k" using assms(8) by (cases "m \<le> length k") auto
  then have "fst (strtok CHR ''='' (?torn @ kv_line (k', v'))) \<noteq> Some k'" using tok(2) assms(12) plain
    by (auto simp: plain_def)
  moreover have "chomp (cstr ((?torn @ kv_line (k', v')) @ [NL])) = ?torn @ kv_line (k', v')"
    using torn chomp_NL [OF l(1), of "[]"] by simp
  ultimately show "handle_get E' k' None 512 st2 = Inl Uninit_Read"
    using f2 assms(1,4,14) tok(2) [of v']
    by (auto simp: handle_get_def open_store fgets_file_rest scans_rest split: prod.splits)
qed

section \<open>UPDATE\<close>

lemma put_file:
  assumes "open_ok E GLOBAL_FILE_NAME" and "prints_all E" and "wf_entries kvs" and "ok_pair k v"
    and "(case files st GLOBAL_FILE_NAME of None \<Rightarrow> [] | Some c \<Rightarrow> c) = file_of kvs"
  shows "files (handle_put E (Some k) (Some v) (Some GLOBAL_FILE_NAME) st) =
    (files st)(GLOBAL_FILE_NAME \<mapsto> file_of (if map_of kvs k = None then kvs @ [(k, v)] else kvs))"
proof -
  have s: "put_scan k (fgets_all 700 (file_of kvs)) \<longleftrightarrow> map_of kvs k \<noteq> None"
    using assms(3) by (simp add: fgets_file_of put_scan_entries map_of_eq_None_iff)
  have len: "\<not> 700 \<le> length (k @ CHR ''='' # v)" "take 699 (k @ CHR ''='' # v) = k @ CHR ''='' # v"
    using assms(4) by (auto simp: ok_pair_def intro!: take_all)
  show ?thesis
    using assms(1,2) len s
    by (simp add: handle_put_def assms(5) Let_def set_file_def say_def error_out_def file_of_snoc
        del: append_assoc length_append)
qed

definition updated_text :: "string \<Rightarrow> string \<Rightarrow> string" where
  "updated_text k v = ''Successfully Updated KEY: '' @ k @ '', with VALUE: '' @ v"

text \<open>
  UPDATE of a stored key when \<^verbatim>\<open>store.txt\<close> cannot be removed or \<^verbatim>\<open>temp.txt\<close> not be renamed: it goes on to
  store the new pair all the same. In the first case the key keeps its old value, in the second the new
  pair becomes the whole store and all others are only in \<^verbatim>\<open>temp.txt\<close>, which the next DELETE empties. In
  each case, as when nothing is refused and the value is replaced, it ends by reporting success.
\<close>

theorem update_failures:
  assumes "wf_entries kvs" and "files st GLOBAL_FILE_NAME = Some (file_of kvs)" and "map_of kvs k = Some u"
    and "ok_pair k v" and "can_open E" and "prints_all E"
  shows "\<exists>st'. handle_update E k v st = Inr st' \<and>
    files st' GLOBAL_FILE_NAME = Some (file_of
      (if \<not> remove_ok E then kvs else if \<not> rename_ok E then [(k, v)] else without k kvs @ [(k, v)])) \<and>
    (remove_ok E \<and> \<not> rename_ok E \<longrightarrow> files st' ''temp.txt'' = Some (file_of (without k kvs))) \<and>
    (\<exists>s. out st' = s @ updated_text k v)"
proof -
  obtain st1 where st1: "handle_delete E k st = Inr st1" "after_delete E k kvs st1"
    using delete_result [OF assms(1-3)] by blast
  have n: "''temp.txt'' \<noteq> GLOBAL_FILE_NAME" by (simp add: GLOBAL_FILE_NAME_def)
  let ?left = "if \<not> remove_ok E then kvs else if \<not> rename_ok E then [] else without k kvs"
  have wf: "wf_entries ?left" using assms(1) wf_filter by (simp add: without_def wf_entries_def)
  have c: "(case files st1 GLOBAL_FILE_NAME of None \<Rightarrow> [] | Some c \<Rightarrow> c) = file_of ?left"
    using st1(2) assms(5,6) by (auto simp: after_delete_def rewritten_def file_of_def)
  have "map_of (without k kvs) k = None" by (simp add: without_def map_of_filter_key)
  moreover note put_file [OF _ assms(6) wf assms(4) c]
  ultimately show ?thesis
    using st1 assms(3,5,6) n
    by (auto simp: handle_update_def can_open_def say_def updated_text_def after_delete_def rewritten_def)
qed

theorem update_failures_witness:
  "\<exists>st'. handle_update (plain_env\<lparr>remove_ok := False\<rparr>) ''one'' ''two'' one_store = Inr st' \<and>
    files st' GLOBAL_FILE_NAME = files one_store GLOBAL_FILE_NAME \<and>
    (\<exists>s. out st' = s @ ''Successfully Updated KEY: one, with VALUE: two'')"
proof -
  have wf: "wf_entries [(''one'', ''three'')]" by (simp add: wf_entries_def ok_pair_def plain_def)
  have f: "files one_store GLOBAL_FILE_NAME = Some (file_of [(''one'', ''three'')])" by (simp add: one_store_def)
  have m: "map_of [(''one'', ''three'')] ''one'' = Some ''three''" by simp
  have ok: "ok_pair ''one'' ''two''" by (simp add: ok_pair_def plain_def)
  show ?thesis
    using update_failures [OF wf f m ok, of "plain_env\<lparr>remove_ok := False\<rparr>"] f
    by (auto simp: can_open_def plain_env_def prints_all_def updated_text_def)
qed

end
