(* ===== verification/StepMachine.thy ===== *)
theory StepMachine
  imports Prelude
begin

text \<open>
  Machines that consume a list of inputs and may stop early (a fault, a return): the run, its
  composition, and the contract that lifts an invariant of one step to every run. And step relations
  of programs that interleave: an invariant of every step holds in every state that is reached.
\<close>

fun run_steps :: "('i \<Rightarrow> 's \<Rightarrow> 'e + 's) \<Rightarrow> 'i list \<Rightarrow> 's \<Rightarrow> 'e + 's" where
  "run_steps next [] s = Inr s"
| "run_steps next (i # is) s = (case next i s of Inl e \<Rightarrow> Inl e | Inr s' \<Rightarrow> run_steps next is s')"

lemma run_steps_append:
  "run_steps next (is @ js) s =
     (case run_steps next is s of Inl e \<Rightarrow> Inl e | Inr s' \<Rightarrow> run_steps next js s')"
  by (induction "is" arbitrary: s) (auto split: sum.splits)

lemma run_steps_concat:
  "run_steps (\<lambda>is s. run_steps next is s) iss s = run_steps next (concat iss) s"
  by (induction iss arbitrary: s) (auto simp: run_steps_append split: sum.splits)

lemma run_steps_cong:
  "(\<And>i s. i \<in> set is \<Longrightarrow> f i s = g i s) \<Longrightarrow> run_steps f is s = run_steps g is s"
  by (induction "is" arbitrary: s) (auto split: sum.splits)

locale step_machine =
  fixes step :: "'i \<Rightarrow> 's \<Rightarrow> 'e + 's"
    and inv :: "'s \<Rightarrow> bool"
    and stops :: "'e \<Rightarrow> bool"
  assumes step_inv: "inv s \<Longrightarrow> step i s = Inr s' \<Longrightarrow> inv s'"
    and step_stops: "inv s \<Longrightarrow> step i s = Inl e \<Longrightarrow> stops e"
begin

lemma run_inv: "inv s \<Longrightarrow> run_steps step is s = Inr s' \<Longrightarrow> inv s'"
  by (induction "is" arbitrary: s) (auto split: sum.splits dest: step_inv)

lemma run_stops: "inv s \<Longrightarrow> run_steps step is s = Inl e \<Longrightarrow> stops e"
  by (induction "is" arbitrary: s) (auto split: sum.splits dest: step_inv step_stops)

end

locale invariant_steps =
  fixes moves :: "'s \<Rightarrow> 's \<Rightarrow> bool"
    and holds :: "'s \<Rightarrow> bool"
  assumes moves_holds: "moves s s' \<Longrightarrow> holds s \<Longrightarrow> holds s'"
begin

lemma reach_holds: "moves\<^sup>*\<^sup>* s s' \<Longrightarrow> holds s \<Longrightarrow> holds s'"
  by (induction rule: rtranclp_induct) (blast dest: moves_holds)+

text \<open>What a step keeps wherever the invariant holds.\<close>

lemma reach_keeps:
  assumes "moves\<^sup>*\<^sup>* s s'" and "holds s" and "P s" and "\<And>t t'. moves t t' \<Longrightarrow> holds t \<Longrightarrow> P t \<Longrightarrow> P t'"
  shows "P s'"
  using assms(1,3)
proof (induction rule: rtranclp_induct)
  case (step t t')
  then show ?case using assms(4) reach_holds [OF step.hyps(1) assms(2)] by blast
qed

end

end
