(* ===== verification/KvCrash.thy ===== *)
theory KvCrash
  imports KvFailures StepMachine
begin

text \<open>
  DELETE and UPDATE of \<^verbatim>\<open>key-value-store/spkvs.c\<close> as sequences of their system calls: what the disk holds when the
  program is killed between two of them, and what the next run makes of it. The stream to \<^verbatim>\<open>temp.txt\<close> is
  buffered, so what was printed reaches the file in pieces of any size, and at the latest in \<^verbatim>\<open>fclose\<close>.
\<close>

section \<open>The system calls of DELETE\<close>

datatype delete_phase = Begin | Copying string | Closed | Removed | Finished

inductive delete_call ::
  "string \<Rightarrow> delete_phase \<times> (string \<Rightarrow> string option) \<Rightarrow> delete_phase \<times> (string \<Rightarrow> string option) \<Rightarrow> bool"
  for key :: string where
  opens: "fs GLOBAL_FILE_NAME = Some c \<Longrightarrow>
     delete_call key (Begin, fs) (Copying (fst (del_scan key (fgets_all 700 c) None)), fs(''temp.txt'' \<mapsto> []))"
| no_store: "fs GLOBAL_FILE_NAME = None \<Longrightarrow> delete_call key (Begin, fs) (Finished, fs(''temp.txt'' \<mapsto> []))"
| flushes: "fs ''temp.txt'' = Some w \<Longrightarrow>
     delete_call key (Copying (s @ rest), fs) (Copying rest, fs(''temp.txt'' \<mapsto> w @ s))"
| closes: "delete_call key (Copying [], fs) (Closed, fs)"
| removes: "delete_call key (Closed, fs) (Removed, fs(GLOBAL_FILE_NAME := None))"
| renames: "delete_call key (Removed, fs) (Finished, fs(GLOBAL_FILE_NAME := fs ''temp.txt'', ''temp.txt'' := None))"

inductive_cases delete_callE: "delete_call key s s'"

abbreviation delete_calls ::
  "string \<Rightarrow> delete_phase \<times> (string \<Rightarrow> string option) \<Rightarrow> delete_phase \<times> (string \<Rightarrow> string option) \<Rightarrow> bool" where
  "delete_calls key \<equiv> (delete_call key)\<^sup>*\<^sup>*"

lemma file_names [simp]: "GLOBAL_FILE_NAME \<noteq> ''temp.txt''" "''temp.txt'' \<noteq> GLOBAL_FILE_NAME"
  by (simp_all add: GLOBAL_FILE_NAME_def)

text \<open>What each phase finds on the disk, when the store held \<open>old\<close> and the rewriting gives \<open>new\<close>.\<close>

fun phase_ok :: "string \<Rightarrow> string \<Rightarrow> delete_phase \<times> (string \<Rightarrow> string option) \<Rightarrow> bool" where
  "phase_ok old new (Begin, fs) \<longleftrightarrow> fs GLOBAL_FILE_NAME = Some old"
| "phase_ok old new (Copying rest, fs) \<longleftrightarrow> fs GLOBAL_FILE_NAME = Some old \<and>
     (\<exists>w. fs ''temp.txt'' = Some w \<and> w @ rest = new)"
| "phase_ok old new (Closed, fs) \<longleftrightarrow> fs GLOBAL_FILE_NAME = Some old \<and> fs ''temp.txt'' = Some new"
| "phase_ok old new (Removed, fs) \<longleftrightarrow> fs GLOBAL_FILE_NAME = None \<and> fs ''temp.txt'' = Some new"
| "phase_ok old new (Finished, fs) \<longleftrightarrow> fs GLOBAL_FILE_NAME = Some new \<and> fs ''temp.txt'' = None"

lemma phase_step:
  assumes "delete_call key s s'" and "phase_ok old (fst (del_scan key (fgets_all 700 old) None)) s"
  shows "phase_ok old (fst (del_scan key (fgets_all 700 old) None)) s'"
  using assms by (cases rule: delete_call.cases) auto

interpretation phases: invariant_steps "delete_call key" "phase_ok old (fst (del_scan key (fgets_all 700 old) None))"
  for key old
  by unfold_locales (rule phase_step)

text \<open>Run to its end, the sequence is what the handler does.\<close>

lemma calls_to_removed:
  assumes "fs GLOBAL_FILE_NAME = Some c" and "t = fst (del_scan key (fgets_all 700 c) None)"
  shows "delete_calls key (Begin, fs) (Removed, fs(''temp.txt'' \<mapsto> t, GLOBAL_FILE_NAME := None))"
proof -
  let ?f = "fs(''temp.txt'' \<mapsto> [])"
  have 1: "delete_call key (Begin, fs) (Copying t, ?f)" using opens [of fs c key] assms by simp
  have 2: "delete_call key (Copying t, ?f) (Copying [], fs(''temp.txt'' \<mapsto> t))"
    using flushes [of ?f "[]" key t "[]"] by simp
  note 3 = closes [of key "fs(''temp.txt'' \<mapsto> t)"] removes [of key "fs(''temp.txt'' \<mapsto> t)"]
  show ?thesis using 1 2 3 by (meson converse_rtranclp_into_rtranclp rtranclp.rtrancl_refl)
qed

lemma handler_calls:
  assumes "good_env E" and "files st GLOBAL_FILE_NAME = Some c" and "handle_delete E key st = Inr st'"
  shows "delete_calls key (Begin, files st) (Finished, files st')"
proof -
  obtain t v where t: "del_scan key (fgets_all 700 c) None = (t, v)" by fastforce
  let ?f = "(files st)(''temp.txt'' \<mapsto> t, GLOBAL_FILE_NAME := None)"
  have "delete_calls key (Begin, files st) (Removed, ?f)" using calls_to_removed [of "files st" c t key] assms(2) t by simp
  moreover have "delete_call key (Removed, ?f) (Finished, ?f(GLOBAL_FILE_NAME := ?f ''temp.txt'', ''temp.txt'' := None))"
    by (rule renames)
  moreover have "files st' = ?f(GLOBAL_FILE_NAME := ?f ''temp.txt'', ''temp.txt'' := None)"
    using assms t
    by (auto simp: handle_delete_def fopen_r_def good_env_def Let_def set_file_def say_def GLOBAL_FILE_NAME_def
        split: option.splits if_splits)
  ultimately show ?thesis by (simp add: rtranclp.rtrancl_into_rtrancl)
qed

section \<open>Being killed\<close>

definition two_pairs :: "(string \<times> string) list" where
  "two_pairs = [(''one'', ''1''), (''two'', ''2'')]"

definition two_store :: kv_state where
  "two_store = \<lparr>files = Map.empty(GLOBAL_FILE_NAME \<mapsto> file_of two_pairs), out = [], err = []\<rparr>"

lemma two_store_ok:
  "good_env plain_env" "wf_entries two_pairs" "files two_store GLOBAL_FILE_NAME = Some (file_of two_pairs)"
  "map_of two_pairs ''one'' = Some ''1''" "file_of (without ''one'' two_pairs) = ''two=2'' @ [NL]"
  by (simp_all add: good_env_def prints_all_def plain_env_def two_pairs_def wf_entries_def ok_pair_def plain_def two_store_def
      without_def file_of_def kv_line_def)

text \<open>
  Being killed during DELETE: whenever the program stops between two of its system calls, the disk
  still holds every pair but the deleted one in full: the store is as before, or it is missing and
  \<^verbatim>\<open>temp.txt\<close> holds exactly the other pairs, or the store holds exactly the other pairs. And the calls,
  run to their end, are what the handler does.
\<close>

theorem delete_killed:
  assumes "good_env E" and "wf_entries kvs" and "files st GLOBAL_FILE_NAME = Some (file_of kvs)" and "map_of kvs k = Some v"
  shows "(\<forall>ph fs. delete_calls k (Begin, files st) (ph, fs) \<longrightarrow>
      fs GLOBAL_FILE_NAME = Some (file_of kvs) \<or>
      fs GLOBAL_FILE_NAME = None \<and> fs ''temp.txt'' = Some (file_of (without k kvs)) \<or>
      fs GLOBAL_FILE_NAME = Some (file_of (without k kvs))) \<and>
    (\<exists>st'. handle_delete E k st = Inr st' \<and> delete_calls k (Begin, files st) (Finished, files st'))"
proof -
  have new: "fst (del_scan k (fgets_all 700 (file_of kvs)) None) = file_of (without k kvs)"
    using assms(2) by (simp add: fgets_file_of del_scan_entries without_def)
  have 1: "fs GLOBAL_FILE_NAME = Some (file_of kvs) \<or>
      fs GLOBAL_FILE_NAME = None \<and> fs ''temp.txt'' = Some (file_of (without k kvs)) \<or>
      fs GLOBAL_FILE_NAME = Some (file_of (without k kvs))"
    if "delete_calls k (Begin, files st) (ph, fs)" for ph fs
  proof -
    have "phase_ok (file_of kvs) (file_of (without k kvs)) (ph, fs)"
      using phases.reach_holds [OF that, of "file_of kvs"] assms(3) by (simp add: new)
    then show ?thesis by (cases ph) auto
  qed
  obtain st' where "handle_delete E k st = Inr st'" using delete_result [OF assms(2-4), of E] by blast
  then show ?thesis using 1 handler_calls [OF assms(1,3)] by blast
qed

theorem delete_killed_witness:
  "(\<exists>st'. handle_delete plain_env ''one'' two_store = Inr st' \<and>
      delete_calls ''one'' (Begin, files two_store) (Finished, files st')) \<and>
   \<not> (\<exists>ph. delete_calls ''one'' (Begin, files two_store) (ph, Map.empty))"
  using delete_killed [OF two_store_ok(1-4)] by fastforce

text \<open>
  C11: The next run does not look at \<^verbatim>\<open>temp.txt\<close>: killed between the removal and the renaming, the program
  leaves all other pairs there, and the next DELETE, of whatever key, empties that file before it
  reports that it cannot open the store; then no file holds a pair any more.
\<close>

theorem delete_after_kill:
  assumes "good_env E" and "wf_entries kvs" and "files st GLOBAL_FILE_NAME = Some (file_of kvs)" and "map_of kvs k = Some v"
  shows "\<exists>ph fs. delete_calls k (Begin, files st) (ph, fs) \<and> fs ''temp.txt'' = Some (file_of (without k kvs)) \<and>
    (\<forall>k' st2. files st2 = fs \<longrightarrow> (\<exists>st3. handle_delete E k' st2 = Inr st3 \<and> out st3 = out st2 \<and>
      files st3 = (files st)(GLOBAL_FILE_NAME := None, ''temp.txt'' \<mapsto> [])))"
proof -
  have new: "fst (del_scan k (fgets_all 700 (file_of kvs)) None) = file_of (without k kvs)"
    using assms(2) by (simp add: fgets_file_of del_scan_entries without_def)
  let ?f = "(files st)(''temp.txt'' \<mapsto> file_of (without k kvs), GLOBAL_FILE_NAME := None)"
  have "delete_calls k (Begin, files st) (Removed, ?f)" using calls_to_removed [of "files st" "file_of kvs" "file_of (without k kvs)" k] assms(3) new by simp
  moreover have "\<exists>st3. handle_delete E k' st2 = Inr st3 \<and> out st3 = out st2 \<and>
      files st3 = (files st)(GLOBAL_FILE_NAME := None, ''temp.txt'' \<mapsto> [])" if "files st2 = ?f" for k' st2
    using that assms(1)
    by (auto simp: handle_delete_def fopen_r_def good_env_def Let_def set_file_def error_out_def fun_eq_iff)
  ultimately show ?thesis by (intro exI [of _ Removed] exI [of _ ?f]) simp
qed

theorem delete_after_kill_witness:
  "\<exists>ph fs. delete_calls ''one'' (Begin, files two_store) (ph, fs) \<and> fs ''temp.txt'' = Some (''two=2'' @ [NL]) \<and>
    (\<exists>st3. handle_delete plain_env ''two'' (two_store\<lparr>files := fs\<rparr>) = Inr st3 \<and> files st3 = [''temp.txt'' \<mapsto> []])"
proof -
  obtain ph fs where f: "delete_calls ''one'' (Begin, files two_store) (ph, fs)"
      "fs ''temp.txt'' = Some (file_of (without ''one'' two_pairs))"
      "\<forall>k' st2. files st2 = fs \<longrightarrow> (\<exists>st3. handle_delete plain_env k' st2 = Inr st3 \<and> out st3 = out st2 \<and>
        files st3 = (files two_store)(GLOBAL_FILE_NAME := None, ''temp.txt'' \<mapsto> []))"
    using delete_after_kill [OF two_store_ok(1-4)] by blast
  obtain st3 where s: "handle_delete plain_env ''two'' (two_store\<lparr>files := fs\<rparr>) = Inr st3"
      "files st3 = (files two_store)(GLOBAL_FILE_NAME := None, ''temp.txt'' \<mapsto> [])"
    using spec [OF spec [OF f(3), of "''two''"], of "two_store\<lparr>files := fs\<rparr>"] by auto
  have "(files two_store)(GLOBAL_FILE_NAME := None, ''temp.txt'' \<mapsto> []) = [''temp.txt'' \<mapsto> []]"
    by (simp add: two_store_def)
  then show ?thesis using f(1,2) s two_store_ok(5) by auto
qed

section \<open>UPDATE\<close>

text \<open>UPDATE is DELETE and then PUT, which appends to what is left; the flushes of its line are of any size.\<close>

datatype update_phase = Deleting delete_phase | Appending string | Updated

inductive update_call ::
  "string \<Rightarrow> string \<Rightarrow> update_phase \<times> (string \<Rightarrow> string option) \<Rightarrow> update_phase \<times> (string \<Rightarrow> string option) \<Rightarrow> bool"
  for key :: string and val :: string where
  deletes: "delete_call key (p, fs) (p', fs') \<Longrightarrow> update_call key val (Deleting p, fs) (Deleting p', fs')"
| reopens: "c = (case fs GLOBAL_FILE_NAME of None \<Rightarrow> [] | Some c \<Rightarrow> c) \<Longrightarrow>
     update_call key val (Deleting Finished, fs)
       (if put_scan key (fgets_all 700 c) then Updated else Appending (take 699 (key @ ''='' @ val) @ [NL]),
        fs(GLOBAL_FILE_NAME \<mapsto> c))"
| appends: "fs GLOBAL_FILE_NAME = Some w \<Longrightarrow>
     update_call key val (Appending (s @ rest), fs) (Appending rest, fs(GLOBAL_FILE_NAME \<mapsto> w @ s))"
| ends: "update_call key val (Appending [], fs) (Updated, fs)"

abbreviation update_calls ::
  "string \<Rightarrow> string \<Rightarrow> update_phase \<times> (string \<Rightarrow> string option) \<Rightarrow> update_phase \<times> (string \<Rightarrow> string option) \<Rightarrow> bool" where
  "update_calls key val \<equiv> (update_call key val)\<^sup>*\<^sup>*"

fun update_ok :: "string \<Rightarrow> string \<Rightarrow> string \<Rightarrow> update_phase \<times> (string \<Rightarrow> string option) \<Rightarrow> bool" where
  "update_ok old new line (Deleting p, fs) \<longleftrightarrow> phase_ok old new (p, fs)"
| "update_ok old new line (Appending rest, fs) \<longleftrightarrow> (\<exists>w. fs GLOBAL_FILE_NAME = Some (new @ w) \<and> w @ rest = line)"
| "update_ok old new line (Updated, fs) \<longleftrightarrow> fs GLOBAL_FILE_NAME = Some (new @ line)"

lemma update_step:
  assumes "update_call key val s s'" and "update_ok old new line s"
    and "new = fst (del_scan key (fgets_all 700 old) None)" and "line = take 699 (key @ ''='' @ val) @ [NL]"
    and "\<not> put_scan key (fgets_all 700 new)"
  shows "update_ok old new line s'"
  using assms(1)
proof cases
  case (deletes p fs p' fs')
  then show ?thesis using phase_step [of key "(p, fs)" "(p', fs')" old] assms(2,3) by simp
qed (use assms(2,4,5) in auto)

definition update_inv :: "string \<Rightarrow> string \<Rightarrow> string \<Rightarrow> update_phase \<times> (string \<Rightarrow> string option) \<Rightarrow> bool" where
  "update_inv key val old s \<longleftrightarrow>
     (let new = fst (del_scan key (fgets_all 700 old) None)
      in \<not> put_scan key (fgets_all 700 new) \<longrightarrow> update_ok old new (take 699 (key @ ''='' @ val) @ [NL]) s)"

interpretation updates: invariant_steps "update_call key val" "update_inv key val old" for key val old
  by unfold_locales (metis update_inv_def update_step)

lemma delete_in_update: "delete_calls key s s' \<Longrightarrow> update_calls key val (Deleting (fst s), snd s) (Deleting (fst s'), snd s')"
proof (induction rule: rtranclp_induct)
  case (step t u)
  then have "update_call key val (Deleting (fst t), snd t) (Deleting (fst u), snd u)" by (intro deletes) simp
  then show ?case using step.IH by simp
qed simp

lemma update_facts:
  assumes "wf_entries kvs" and "ok_pair k v"
  shows "fst (del_scan k (fgets_all 700 (file_of kvs)) None) = file_of (without k kvs)"
    and "\<not> put_scan k (fgets_all 700 (file_of (without k kvs)))"
    and "take 699 (k @ ''='' @ v) @ [NL] = kv_line (k, v) @ [NL]"
proof -
  show "fst (del_scan k (fgets_all 700 (file_of kvs)) None) = file_of (without k kvs)"
    using assms(1) by (simp add: fgets_file_of del_scan_entries without_def)
  have "wf_entries (without k kvs)" using wf_filter [OF assms(1)] by (simp add: without_def)
  then show "\<not> put_scan k (fgets_all 700 (file_of (without k kvs)))"
    by (auto simp: fgets_file_of put_scan_entries without_def)
  show "take 699 (k @ ''='' @ v) @ [NL] = kv_line (k, v) @ [NL]"
    using assms(2) by (auto simp: ok_pair_def kv_line_def intro!: take_all simp del: take_append)
qed

lemma update_reaches:
  assumes "wf_entries kvs" and "ok_pair k v" and "fs GLOBAL_FILE_NAME = Some (file_of kvs)"
    and "update_calls k v (Deleting Begin, fs) s"
  shows "update_ok (file_of kvs) (file_of (without k kvs)) (kv_line (k, v) @ [NL]) s"
proof -
  note f = update_facts [OF assms(1,2)]
  have "update_inv k v (file_of kvs) (Deleting Begin, fs)" using assms(3) by (simp add: update_inv_def)
  from updates.reach_holds [OF assms(4) this] show ?thesis
    using f(2) unfolding update_inv_def Let_def f(1,3) by blast
qed

lemma put_calls:
  assumes "good_env E" and "ok_pair k v" and "files st GLOBAL_FILE_NAME = Some c" and "\<not> put_scan k (fgets_all 700 c)"
  shows "update_calls k v (Deleting Finished, files st)
    (Updated, files (handle_put E (Some k) (Some v) (Some GLOBAL_FILE_NAME) st))"
proof -
  let ?line = "kv_line (k, v) @ [NL]"
  have E: "open_ok E GLOBAL_FILE_NAME" "prints_all E" using assms(1) by (simp_all add: good_env_def GLOBAL_FILE_NAME_def)
  have line: "take 699 (k @ ''='' @ v) @ [NL] = ?line"
    using assms(2) by (auto simp: ok_pair_def kv_line_def intro!: take_all simp del: take_append)
  have same: "(files st)(GLOBAL_FILE_NAME \<mapsto> c) = files st" using assms(3) by auto
  have 1: "update_call k v (Deleting Finished, files st) (Appending ?line, files st)"
    using reopens [of c "files st" k v, unfolded line same] assms(3,4) by simp
  have 2: "update_call k v (Appending ?line, files st) (Appending [], (files st)(GLOBAL_FILE_NAME \<mapsto> c @ ?line))"
    using appends [of "files st" c k v ?line "[]"] assms(3) by simp
  have "files (handle_put E (Some k) (Some v) (Some GLOBAL_FILE_NAME) st) = (files st)(GLOBAL_FILE_NAME \<mapsto> c @ ?line)"
    using put_result(1) [OF E(1) _ assms(2-4)] E(2) by (simp only: prints_allD)
  then show ?thesis using 1 2 ends by (metis (no_types) converse_rtranclp_into_rtranclp rtranclp.rtrancl_refl)
qed

text \<open>
  C10: Being killed during UPDATE: whenever the program stops between two of its system calls, every pair
  with another key is still there in full: the store is as before, or it is missing and \<^verbatim>\<open>temp.txt\<close> holds
  the other pairs, or the store holds the other pairs followed by a beginning of the line of the new
  one. The calls, run to their end, are what the handler does. In between there is a moment in which
  no file holds a pair of the key, neither the old nor the new one.
\<close>

theorem update_killed:
  assumes "good_env E" and "wf_entries kvs" and "files st GLOBAL_FILE_NAME = Some (file_of kvs)"
    and "map_of kvs k = Some u" and "ok_pair k v"
  shows "(\<forall>ph fs. update_calls k v (Deleting Begin, files st) (ph, fs) \<longrightarrow>
      fs GLOBAL_FILE_NAME = Some (file_of kvs) \<or>
      fs GLOBAL_FILE_NAME = None \<and> fs ''temp.txt'' = Some (file_of (without k kvs)) \<or>
      (\<exists>n. fs GLOBAL_FILE_NAME = Some (file_of (without k kvs) @ take n (kv_line (k, v) @ [NL])))) \<and>
    (\<exists>st'. handle_update E k v st = Inr st' \<and> update_calls k v (Deleting Begin, files st) (Updated, files st')) \<and>
    (\<exists>fs. update_calls k v (Deleting Begin, files st) (Deleting Finished, fs) \<and>
      fs GLOBAL_FILE_NAME = Some (file_of (without k kvs)) \<and> fs ''temp.txt'' = None)"
proof (intro conjI allI impI)
  fix ph fs
  assume "update_calls k v (Deleting Begin, files st) (ph, fs)"
  from update_reaches [OF assms(2,5,3) this]
  have ok: "update_ok (file_of kvs) (file_of (without k kvs)) (kv_line (k, v) @ [NL]) (ph, fs)" .
  show "fs GLOBAL_FILE_NAME = Some (file_of kvs) \<or>
      fs GLOBAL_FILE_NAME = None \<and> fs ''temp.txt'' = Some (file_of (without k kvs)) \<or>
      (\<exists>n. fs GLOBAL_FILE_NAME = Some (file_of (without k kvs) @ take n (kv_line (k, v) @ [NL])))"
  proof (cases ph)
    case (Deleting p)
    then show ?thesis using ok by (cases p) (auto intro: exI [of _ 0])
  next
    case (Appending rest)
    then obtain w where w: "fs GLOBAL_FILE_NAME = Some (file_of (without k kvs) @ w)" "w @ rest = kv_line (k, v) @ [NL]"
      using ok by auto
    then have "take (length w) (kv_line (k, v) @ [NL]) = w" by (metis append_eq_conv_conj)
    then show ?thesis using w(1) by metis
  next
    case Updated
    then show ?thesis using ok by (auto intro: exI [of _ "length (kv_line (k, v) @ [NL])"])
  qed
next
  obtain st1 where st1: "handle_delete E k st = Inr st1" using delete_result [OF assms(2-4), of E] by blast
  note d = handler_calls [OF assms(1,3) st1]
  note del = delete_in_update [OF d, of v, simplified]
  have fin: "files st1 GLOBAL_FILE_NAME = Some (file_of (without k kvs))" "files st1 ''temp.txt'' = None"
    using update_reaches [OF assms(2,5,3) del] by simp_all
  show "\<exists>fs. update_calls k v (Deleting Begin, files st) (Deleting Finished, fs) \<and>
      fs GLOBAL_FILE_NAME = Some (file_of (without k kvs)) \<and> fs ''temp.txt'' = None"
    using del fin by blast
  note put = put_calls [OF assms(1,5) fin(1) update_facts(2) [OF assms(2,5)]]
  have "handle_update E k v st = Inr (say (''Successfully Updated KEY: '' @ k @ '', with VALUE: '' @ v)
      (handle_put E (Some k) (Some v) (Some GLOBAL_FILE_NAME) st1))"
    using st1 by (simp add: handle_update_def)
  then show "\<exists>st'. handle_update E k v st = Inr st' \<and> update_calls k v (Deleting Begin, files st) (Updated, files st')"
    using rtranclp_trans [OF del put] by (simp add: say_def)
qed

theorem update_killed_witness:
  "\<exists>fs. update_calls ''one'' ''9'' (Deleting Begin, files two_store) (Deleting Finished, fs) \<and>
    fs GLOBAL_FILE_NAME = Some (''two=2'' @ [NL]) \<and> fs ''temp.txt'' = None"
proof -
  have "ok_pair ''one'' ''9''" by (simp add: ok_pair_def plain_def)
  from update_killed [OF two_store_ok(1-4) this] show ?thesis using two_store_ok(5) by simp
qed

end
