(* ===== verification/CFloat.thy ===== *)
theory CFloat
  imports CString "HOL-Library.Log_Nat"
begin

text \<open>
  IEEE single precision as the programs use it, on non-negative numbers: rounding a quotient of
  naturals to a \<^verbatim>\<open>float\<close> (to nearest, ties to even), reading a decimal fraction with \<^verbatim>\<open>strtof\<close>, and
  printing with \<^verbatim>\<open>%.<d>f\<close>, which rounds the exact binary value.
\<close>

definition round_even :: "nat \<Rightarrow> nat \<Rightarrow> nat" where
  "round_even p q =
     (let d = p div q; r = p mod q
      in if 2 * r < q then d else if q < 2 * r then d + 1 else if even d then d else d + 1)"

text \<open>\<open>Fin m e\<close> is \<open>m * 2 ^ e\<close>.\<close>

datatype float32 = Fin nat int | Inf

definition scaled :: "nat \<Rightarrow> nat \<Rightarrow> int \<Rightarrow> nat \<times> nat" where
  "scaled p q e = (if 0 \<le> e then (p, q * 2 ^ nat e) else (p * 2 ^ nat (- e), q))"

definition log2_quot :: "nat \<Rightarrow> nat \<Rightarrow> int" where
  "log2_quot p q =
     (let k = int (floorlog 2 p) - int (floorlog 2 q); (a, b) = scaled p q k
      in if b \<le> a then k else k - 1)"

definition f32 :: "nat \<Rightarrow> nat \<Rightarrow> float32" where
  "f32 p q =
     (if p = 0 then Fin 0 0
      else let e = max (- 149) (log2_quot p q - 23); (a, b) = scaled p q e; m = round_even a b
           in if 105 < e \<or> e \<in> {104, 105} \<and> 2 ^ 128 \<le> m * 2 ^ nat e then Inf else Fin m e)"

definition pad_left :: "nat \<Rightarrow> char \<Rightarrow> string \<Rightarrow> string" where
  "pad_left n c s = replicate (n - length s) c @ s"

fun fmt_fixed :: "nat \<Rightarrow> float32 \<Rightarrow> string" where
  "fmt_fixed d Inf = ''inf''"
| "fmt_fixed d (Fin m e) =
     (let h = (if 0 \<le> e then m * 2 ^ nat e * 10 ^ d else round_even (m * 10 ^ d) (2 ^ nat (- e)))
      in dec_nat (h div 10 ^ d) @
         (if d = 0 then [] else ''.'' @ pad_left d CHR ''0'' (dec_nat (h mod 10 ^ d))))"

text \<open>
  \<^verbatim>\<open>strtof\<close> on an optional minus, digits, and an optional point with digits; what follows is ignored.
  Without a digit nothing is converted and the result is 0.
\<close>

definition decimal_parts :: "string \<Rightarrow> string \<times> string" where
  "decimal_parts s =
     (let ip = takeWhile isdigit s; r = dropWhile isdigit s
      in case r of c # r' \<Rightarrow> if c = CHR ''.'' then (ip, takeWhile isdigit r') else (ip, []) | [] \<Rightarrow> (ip, []))"

definition strtof_fixed :: "nat \<Rightarrow> string \<Rightarrow> string" where
  "strtof_fixed d s =
     (let neg = (case s of c # _ \<Rightarrow> c = CHR ''-'' | [] \<Rightarrow> False);
          (ip, fp) = decimal_parts (if neg then tl s else s)
      in (if neg \<and> ip @ fp \<noteq> [] then ''-'' else []) @
         fmt_fixed d (f32 (val_dec (ip @ fp)) (10 ^ length fp)))"

lemma round_even_exact [simp]: "0 < q \<Longrightarrow> round_even (k * q) q = k"
  by (simp add: round_even_def)

lemma round_even_near:
  assumes "0 < q"
  shows "2 * (round_even p q * q) \<le> 2 * p + q \<and> 2 * p \<le> 2 * (round_even p q * q) + q"
proof -
  define d r where "d = p div q" and "r = p mod q"
  have p: "p = d * q + r" by (simp add: d_def r_def)
  have r: "r < q" using assms by (simp add: r_def)
  have "round_even p q = (if 2 * r < q then d else if q < 2 * r then d + 1
      else if even d then d else d + 1)"
    by (simp add: round_even_def Let_def d_def r_def)
  then show ?thesis using r p by (auto simp: add_mult_distrib)
qed

section \<open>Arithmetic\<close>

text \<open>Conversion of an integer, quotient, product with an integer constant, truncation to an integer.\<close>

definition f_of_nat :: "nat \<Rightarrow> float32" where
  "f_of_nat n = f32 n 1"

fun fdiv :: "float32 \<Rightarrow> float32 \<Rightarrow> float32" where
  "fdiv (Fin a e) (Fin b g) =
     (if b = 0 then Inf
      else if g \<le> e then f32 (a * 2 ^ nat (e - g)) b else f32 a (b * 2 ^ nat (g - e)))"
| "fdiv (Fin a e) Inf = Fin 0 0"
| "fdiv Inf y = Inf"

fun fmul_nat :: "float32 \<Rightarrow> nat \<Rightarrow> float32" where
  "fmul_nat (Fin m e) k = (if 0 \<le> e then f32 (m * 2 ^ nat e * k) 1 else f32 (m * k) (2 ^ nat (- e)))"
| "fmul_nat Inf k = Inf"

fun ftrunc :: "float32 \<Rightarrow> nat option" where
  "ftrunc (Fin m e) = Some (if 0 \<le> e then m * 2 ^ nat e else m div 2 ^ nat (- e))"
| "ftrunc Inf = None"

text \<open>The value as a real number.\<close>

fun fval :: "float32 \<Rightarrow> real" where
  "fval (Fin m e) = real m * 2 powi e"
| "fval Inf = 0"

lemma round_even_le:
  assumes "0 < q" and "p \<le> k * q"
  shows "round_even p q \<le> k"
proof -
  have "p div q \<le> k" using div_le_mono [OF assms(2), of q] assms(1) by simp
  moreover have "p mod q = 0" if "p div q = k"
    using div_mult_mod_eq [of p q] assms(2) unfolding that by simp
  ultimately show ?thesis using assms(1) by (fastforce simp: round_even_def Let_def)
qed

lemma f32_bounded:
  assumes "0 < q" and "p \<le> 2 ^ j * q" and "j \<le> 23"
  shows "\<exists>m e. f32 p q = Fin m e \<and> e \<le> 0 \<and> m \<le> 2 ^ j * 2 ^ nat (- e)"
proof (cases "p = 0")
  case True
  then show ?thesis by (intro exI [of _ 0]) (simp add: f32_def)
next
  case False
  let ?e = "max (- 149) (log2_quot p q - 23)"
  have "floorlog 2 p \<le> floorlog 2 (q * 2 ^ j)"
    using assms(2) by (intro floorlog_mono) (simp add: mult.commute)
  also have "\<dots> = floorlog 2 q + j" using assms(1) by (intro floorlog_power) simp_all
  finally have "log2_quot p q \<le> int j" by (simp add: log2_quot_def Let_def split: prod.splits)
  then have e: "?e \<le> 0" using assms(3) by simp
  then have s: "scaled p q ?e = (p * 2 ^ nat (- ?e), q)" by (auto simp: scaled_def)
  have "p * 2 ^ nat (- ?e) \<le> 2 ^ j * 2 ^ nat (- ?e) * q" using assms(2) by simp
  then have "round_even (p * 2 ^ nat (- ?e)) q \<le> 2 ^ j * 2 ^ nat (- ?e)"
    using round_even_le [OF assms(1)] by blast
  moreover have "f32 p q = Fin (round_even (p * 2 ^ nat (- ?e)) q) ?e"
  proof -
    have "\<not> 105 < ?e" "?e \<notin> {104, 105}" using e by (simp_all del: max_less_iff_conj) auto
    then show ?thesis using False unfolding f32_def Let_def s by simp
  qed
  ultimately show ?thesis using e by blast
qed

lemma log2_nat:
  assumes "0 < n"
  shows "log2_quot n 1 = int (floorlog 2 n) - 1" and "1 \<le> floorlog 2 n"
proof -
  show l: "1 \<le> floorlog 2 n" using assms floorlog_geI [of 2 1 n] by simp
  have 1: "floorlog 2 1 = 1" by (simp add: floorlog_def)
  have "2 ^ (floorlog 2 n - 1) \<le> n" using floorlog_bounds [of n 2] assms by simp
  then show "log2_quot n 1 = int (floorlog 2 n) - 1"
    using l 1 by (simp add: log2_quot_def scaled_def Let_def nat_diff_distrib')
qed

lemma f_of_nat_near:
  assumes "0 < n" and "n < 2 ^ 64"
  shows "\<exists>m e. f_of_nat n = Fin m e \<and> 0 < m \<and> n \<le> 2 * fval (Fin m e) \<and> 2 * fval (Fin m e) \<le> 3 * n"
proof -
  let ?l = "floorlog 2 n"
  have l: "1 \<le> ?l" "?l \<le> 64" using log2_nat(2) [OF assms(1)] assms(2) by (auto intro: floorlog_leI)
  have lo: "2 ^ (?l - 1) \<le> n" using floorlog_bounds [of n 2] assms(1) by simp
  let ?e = "int ?l - 24"
  have e: "max (- 149) (log2_quot n 1 - 23) = ?e" using log2_nat(1) [OF assms(1)] l by simp
  have fin: "f_of_nat n = (let (a, b) = scaled n 1 ?e in Fin (round_even a b) ?e)"
    using assms(1) l unfolding f_of_nat_def f32_def Let_def e by (auto split: prod.splits)
  show ?thesis
  proof (cases "?e \<le> 0")
    case True
    then have "scaled n 1 ?e = (n * 2 ^ nat (- ?e), 1)" by (auto simp: scaled_def)
    moreover have "round_even (n * 2 ^ nat (- ?e)) 1 = n * 2 ^ nat (- ?e)"
      using round_even_exact [of 1 "n * 2 ^ nat (- ?e)"] by simp
    moreover have "real (n * 2 ^ nat (- ?e)) * 2 powi ?e = n"
      using True by (simp add: power_int_def field_simps)
    ultimately show ?thesis using fin assms(1) by simp
  next
    case False
    let ?q = "2 ^ nat ?e :: nat"
    let ?m = "round_even n ?q"
    have s: "scaled n 1 ?e = (n, ?q)" using False by (simp add: scaled_def)
    have "?q \<le> 2 ^ (?l - 1)" using l by (intro power_increasing) auto
    then have q: "?q \<le> n" using lo by (rule order_trans)
    have near: "2 * (?m * ?q) \<le> 2 * n + ?q" "2 * n \<le> 2 * (?m * ?q) + ?q"
      using round_even_near [of ?q n] by simp_all
    have v: "fval (Fin ?m ?e) = real (?m * ?q)" using False by (simp add: power_int_def)
    have "real (2 * (?m * ?q)) \<le> real (3 * n)" "real n \<le> real (2 * (?m * ?q))"
      using near q by (simp_all only: of_nat_le_iff)
    moreover have "0 < ?m" using near(2) q assms(1) by (cases "?m = 0") auto
    ultimately show ?thesis using fin s v by simp
  qed
qed

lemma fdiv_bounded:
  assumes "0 < b" and "fval (Fin a e) \<le> 4 * fval (Fin b g)"
  shows "\<exists>m h. fdiv (Fin a e) (Fin b g) = Fin m h \<and> h \<le> 0 \<and> m \<le> 2 ^ 2 * 2 ^ nat (- h)"
proof (cases "g \<le> e")
  case True
  have "2 powi e = 2 powi g * (2 ^ nat (e - g) :: real)"
    using True power_int_add [of "2::real" g "e - g"] by (simp add: power_int_def)
  then have "2 powi g * real (a * 2 ^ nat (e - g)) \<le> 2 powi g * real (4 * b)"
    using assms(2) by (simp add: algebra_simps)
  then have "real (a * 2 ^ nat (e - g)) \<le> real (4 * b)"
    by (subst (asm) mult_le_cancel_left_pos) simp_all
  then have "a * 2 ^ nat (e - g) \<le> 2 ^ 2 * b" by (simp only: of_nat_le_iff) simp
  from f32_bounded [OF assms(1) this] show ?thesis using True assms(1) by simp
next
  case False
  have "2 powi g = 2 powi e * (2 ^ nat (g - e) :: real)"
    using False power_int_add [of "2::real" e "g - e"] by (simp add: power_int_def)
  then have "2 powi e * real a \<le> 2 powi e * real (4 * (b * 2 ^ nat (g - e)))"
    using assms(2) by (simp add: algebra_simps)
  then have "real a \<le> real (4 * (b * 2 ^ nat (g - e)))"
    by (subst (asm) mult_le_cancel_left_pos) simp_all
  then have "a \<le> 2 ^ 2 * (b * 2 ^ nat (g - e))" by (simp only: of_nat_le_iff) simp
  moreover have "0 < b * 2 ^ nat (g - e)" using assms(1) by simp
  ultimately show ?thesis using f32_bounded [of "b * 2 ^ nat (g - e)" a 2] False assms(1) by simp
qed

lemma fmul_bounded:
  assumes "h \<le> 0" and "m \<le> 2 ^ i * 2 ^ nat (- h)" and "k \<le> 2 ^ j" and "i + j \<le> 23"
  shows "\<exists>m' h'. fmul_nat (Fin m h) k = Fin m' h' \<and> h' \<le> 0 \<and> m' \<le> 2 ^ (i + j) * 2 ^ nat (- h')"
proof -
  have "m * k \<le> 2 ^ i * 2 ^ nat (- h) * 2 ^ j" by (rule mult_le_mono) (use assms in simp_all)
  then have le: "m * k \<le> 2 ^ (i + j) * 2 ^ nat (- h)" by (simp add: power_add ac_simps)
  have "fmul_nat (Fin m h) k = f32 (m * k) (2 ^ nat (- h))" using assms(1) by (cases "h = 0") auto
  then show ?thesis using f32_bounded [OF _ le assms(4)] by simp
qed

lemma ftrunc_bounded:
  assumes "h \<le> 0" and "m \<le> k * 2 ^ nat (- h)"
  shows "\<exists>n. ftrunc (Fin m h) = Some n \<and> n \<le> k"
proof (cases "h = 0")
  case False
  have "m div 2 ^ nat (- h) \<le> k" using div_le_mono [OF assms(2), of "2 ^ nat (- h)"] by simp
  then show ?thesis using False assms(1) by simp
qed (use assms in simp)

text \<open>The quotient of two positive integers, the first not the larger, times a constant.\<close>

lemma fraction_bounded:
  assumes "0 < p" and "p \<le> q" and "q < 2 ^ 64" and "k \<le> 2 ^ 7"
  shows "\<exists>m h. fmul_nat (fdiv (f_of_nat p) (f_of_nat q)) k = Fin m h \<and> h \<le> 0 \<and> m \<le> 2 ^ 9 * 2 ^ nat (- h)"
proof -
  obtain a e where a: "f_of_nat p = Fin a e" "2 * fval (Fin a e) \<le> 3 * p"
    using f_of_nat_near [of p] assms by auto
  obtain b g where b: "f_of_nat q = Fin b g" "0 < b" "q \<le> 2 * fval (Fin b g)"
    using f_of_nat_near [of q] assms by auto
  have "real p \<le> real q" using assms(2) by simp
  then have "fval (Fin a e) \<le> 4 * fval (Fin b g)" using a(2) b(3) by linarith
  then obtain m h where m: "fdiv (f_of_nat p) (f_of_nat q) = Fin m h" "h \<le> 0" "m \<le> 2 ^ 2 * 2 ^ nat (- h)"
    using fdiv_bounded [OF b(2)] a(1) b(1) by metis
  have "2 + 7 \<le> (23::nat)" by simp
  from fmul_bounded [OF m(2,3) assms(4) this] m(1) show ?thesis by simp
qed

section \<open>Accuracy\<close>

text \<open>
  Rounding is accurate to 24 bits where nothing overflows or becomes subnormal, and exact on integers
  of 24 bits.
\<close>

lemma powi_nat: "0 \<le> e \<Longrightarrow> (2::real) powi e = 2 ^ nat e" "e \<le> 0 \<Longrightarrow> (2::real) powi e = 1 / 2 ^ nat (- e)"
  by (auto simp: power_int_def field_simps)

lemma scaled_ratio:
  assumes "scaled p q e = (a, b)" and "0 < q"
  shows "0 < b" "real p / real q = real a / real b * 2 powi e"
  using assms by (auto simp: scaled_def powi_nat split: if_splits)

lemma log2_quot_bounds:
  assumes "0 < p" and "0 < q"
  shows "2 powi log2_quot p q \<le> real p / real q" and "real p / real q < 2 powi (log2_quot p q + 1)"
proof -
  define lp lq where "lp = floorlog 2 p" and "lq = floorlog 2 q"
  have lb: "1 \<le> lp" "1 \<le> lq" using log2_nat(2) assms by (simp_all add: lp_def lq_def)
  have "2 ^ (lp - 1) \<le> p" "p < 2 ^ lp" "2 ^ (lq - 1) \<le> q" "q < 2 ^ lq"
    using floorlog_bounds [of p 2] floorlog_bounds [of q 2] assms unfolding lp_def lq_def by simp_all
  then have "real (2 ^ (lp - 1)) \<le> real p" "real p < real (2 ^ lp)" "real (2 ^ (lq - 1)) \<le> real q" "real q < real (2 ^ lq)"
    by (simp_all only: of_nat_le_iff of_nat_less_iff)
  then have P: "(2::real) ^ (lp - 1) \<le> real p" "real p < 2 ^ lp" and Q: "(2::real) ^ (lq - 1) \<le> real q" "real q < 2 ^ lq"
    by simp_all
  have p2: "(2::real) ^ lp = 2 * 2 ^ (lp - 1)" "(2::real) ^ lq = 2 * 2 ^ (lq - 1)"
    using lb by (simp_all add: power_eq_if)
  let ?k = "int lp - int lq"
  have k: "(2::real) powi ?k = 2 ^ lp / 2 ^ lq" by (simp add: power_int_diff)
  have k1: "(2::real) powi (?k + 1) = 2 * (2 ^ lp / 2 ^ lq)" "(2::real) powi (?k - 1) = 2 ^ lp / 2 ^ lq / 2"
    using power_int_add [of "2::real" ?k 1] power_int_diff [of "2::real" ?k 1] by (simp_all add: k)
  obtain a b where ab: "scaled p q ?k = (a, b)" by fastforce
  have r: "0 < b" "real p / real q = real a / real b * 2 powi ?k" using scaled_ratio [OF ab assms(2)] .
  have l: "log2_quot p q = (if b \<le> a then ?k else ?k - 1)"
    using ab by (simp add: log2_quot_def Let_def lp_def lq_def)
  have q0: "0 < real q" "(0::real) < 2 ^ lq" using assms(2) by simp_all
  have up: "real p / real q < 2 * (2 ^ lp / 2 ^ lq)"
  proof -
    have "real p / real q < 2 ^ lp / 2 ^ (lq - 1)" using P(2) Q(1) q0 by (intro frac_less) simp_all
    then show ?thesis by (simp add: p2(2))
  qed
  have lo: "2 ^ lp / 2 ^ lq / 2 \<le> real p / real q"
  proof -
    have "2 ^ (lp - 1) / 2 ^ lq \<le> real p / real q" using P(1) Q(2) q0 by (intro frac_le) simp_all
    then show ?thesis by (simp add: p2(1))
  qed
  have "2 powi ?k \<le> real p / real q" if "b \<le> a"
  proof -
    have "1 \<le> real a / real b" using that r(1) by simp
    then have "1 * 2 powi ?k \<le> real a / real b * 2 powi ?k" by (intro mult_right_mono) (simp_all add: k)
    then show ?thesis by (simp only: r(2) mult_1)
  qed
  moreover have "real p / real q < 2 powi ?k" if "\<not> b \<le> a"
  proof -
    have "real a / real b < 1" using that r(1) by simp
    then have "real a / real b * 2 powi ?k < 1 * 2 powi ?k" by (intro mult_strict_right_mono) (simp_all add: k)
    then show ?thesis by (simp only: r(2) mult_1)
  qed
  ultimately show "2 powi log2_quot p q \<le> real p / real q" "real p / real q < 2 powi (log2_quot p q + 1)"
    using up lo by (simp_all add: l k k1)
qed

lemma round_even_real:
  assumes "0 < q"
  shows "\<bar>real (round_even p q) - real p / real q\<bar> \<le> 1 / 2"
proof -
  let ?d = "round_even p q"
  have "2 * (?d * q) \<le> 2 * p + q" "2 * p \<le> 2 * (?d * q) + q" using round_even_near [OF assms, of p] by simp_all
  then have "real (2 * (?d * q)) \<le> real (2 * p + q)" "real (2 * p) \<le> real (2 * (?d * q) + q)"
    by (simp_all only: of_nat_le_iff)
  then have "\<bar>real ?d * real q - real p\<bar> \<le> real q / 2" unfolding abs_le_iff by (simp add: algebra_simps)
  moreover have "real ?d * real q - real p = (real ?d - real p / real q) * real q"
    using assms by (simp add: left_diff_distrib)
  ultimately have "\<bar>real ?d - real p / real q\<bar> * real q \<le> 1 / 2 * real q" by (simp add: abs_mult)
  then show ?thesis using assms by (subst (asm) mult_le_cancel_right_pos) simp_all
qed

definition near :: "real \<Rightarrow> real \<Rightarrow> real \<Rightarrow> bool" where
  "near u a b \<longleftrightarrow> \<bar>a - b\<bar> \<le> u * b"

lemma powi_less: "(2::real) powi i < 2 powi j \<Longrightarrow> i < j"
  by (metis linorder_not_less one_le_numeral power_int_increasing)

text \<open>The unit of rounding.\<close>

abbreviation unit32 :: real where
  "unit32 \<equiv> 1 / 2 ^ 24"

lemma f32_accurate:
  assumes "0 < p" and "0 < q" and "1 / 2 ^ 120 \<le> real p / real q" and "real p / real q < 2 ^ 100"
  shows "\<exists>m e. f32 p q = Fin m e \<and> near unit32 (fval (Fin m e)) (real p / real q)"
proof -
  let ?r = "real p / real q" and ?l = "log2_quot p q"
  note lb = log2_quot_bounds [OF assms(1,2)]
  have "(2::real) powi ?l < 2 powi 100" using lb(1) assms(4) by (simp add: power_int_def)
  from powi_less [OF this] have l1: "?l < 100" .
  have "(2::real) powi (-120) = 1 / 2 ^ 120" by (simp add: power_int_def field_simps)
  then have "(2::real) powi (-120) < 2 powi (?l + 1)" using lb(2) assms(3) by linarith
  from powi_less [OF this] have l2: "- 120 < ?l + 1" .
  let ?e = "?l - 23"
  have e: "max (- 149) ?e = ?e" using l2 by simp
  obtain a b where ab: "scaled p q ?e = (a, b)" by fastforce
  have r: "0 < b" "?r = real a / real b * 2 powi ?e" using scaled_ratio [OF ab assms(2)] .
  let ?m = "round_even a b"
  have f: "f32 p q = Fin ?m ?e" using assms(1) l1 by (simp add: f32_def Let_def e ab)
  have h: "\<bar>real ?m - real a / real b\<bar> \<le> 1 / 2" using round_even_real [OF r(1)] .
  have "(2::real) powi ?l = 2 ^ 23 * 2 powi ?e" using power_int_add [of "2::real" 23 ?e] by (simp add: power_int_def)
  then have "2 ^ 23 * 2 powi ?e \<le> real a / real b * 2 powi ?e" using lb(1) r(2) by simp
  then have "2 ^ 23 \<le> real a / real b" by (subst (asm) mult_le_cancel_right_pos) simp_all
  then have "\<bar>real ?m - real a / real b\<bar> \<le> unit32 * (real a / real b)" using h by simp
  then have "\<bar>real ?m - real a / real b\<bar> * 2 powi ?e \<le> unit32 * (real a / real b) * 2 powi ?e"
    by (intro mult_right_mono) simp_all
  moreover have "\<bar>real ?m - real a / real b\<bar> * 2 powi ?e = \<bar>real ?m * 2 powi ?e - ?r\<bar>"
  proof -
    have "\<bar>real ?m - real a / real b\<bar> * 2 powi ?e = \<bar>(real ?m - real a / real b) * 2 powi ?e\<bar>" by (simp add: abs_mult)
    then show ?thesis unfolding r(2) left_diff_distrib .
  qed
  ultimately show ?thesis using f by (simp add: near_def r(2))
qed

lemma f32_exact:
  assumes "0 < c" and "c < 2 ^ 24" and "0 < q"
  shows "\<exists>h. f32 (c * q) q = Fin (c * 2 ^ h) (- int h)"
proof -
  let ?l = "log2_quot (c * q) q"
  have "(2::real) powi ?l \<le> real c" using log2_quot_bounds(1) [of "c * q" q] assms(1,3) by simp
  also have "real c < 2 powi 24" using assms(2) by (simp add: power_int_def)
  finally have "?l < 24" by (rule powi_less)
  then have e: "max (- 149) (?l - 23) \<le> 0" by simp
  let ?e = "max (- 149) (?l - 23)"
  have "scaled (c * q) q ?e = (c * q * 2 ^ nat (- ?e), q)" using e by (auto simp: scaled_def)
  moreover have "round_even (c * q * 2 ^ nat (- ?e)) q = c * 2 ^ nat (- ?e)"
    using round_even_exact [OF assms(3), of "c * 2 ^ nat (- ?e)"] by (simp add: ac_simps)
  moreover have "\<not> 105 < ?e" "?e \<notin> {104, 105}" using e by (simp_all del: max_less_iff_conj) auto
  ultimately have "f32 (c * q) q = Fin (c * 2 ^ nat (- ?e)) ?e" using assms(1,3) by (simp add: f32_def Let_def)
  then show ?thesis using e by (intro exI [of _ "nat (- ?e)"]) simp
qed

lemma fdiv_ratio:
  assumes "0 < a" and "0 < b"
  shows "\<exists>p q. fdiv (Fin a e) (Fin b g) = f32 p q \<and> 0 < p \<and> 0 < q \<and>
    real p / real q = fval (Fin a e) / fval (Fin b g)"
proof (cases "g \<le> e")
  case True
  have "2 powi e = 2 powi g * (2 ^ nat (e - g) :: real)"
    using True power_int_add [of "2::real" g "e - g"] by (simp add: power_int_def)
  then show ?thesis using True assms
    by (intro exI [of _ "a * 2 ^ nat (e - g)"] exI [of _ b]) (simp add: field_simps)
next
  case False
  have "2 powi g = 2 powi e * (2 ^ nat (g - e) :: real)"
    using False power_int_add [of "2::real" e "g - e"] by (simp add: power_int_def)
  then show ?thesis using False assms
    by (intro exI [of _ a] exI [of _ "b * 2 ^ nat (g - e)"]) (simp add: field_simps)
qed

lemma fmul_ratio:
  assumes "0 < m" and "0 < k"
  shows "\<exists>p q. fmul_nat (Fin m e) k = f32 p q \<and> 0 < p \<and> 0 < q \<and> real p / real q = fval (Fin m e) * real k"
proof (cases "0 \<le> e")
  case True
  then show ?thesis using assms
    by (intro exI [of _ "m * 2 ^ nat e * k"] exI [of _ 1]) (simp add: powi_nat)
next
  case False
  then show ?thesis using assms
    by (intro exI [of _ "m * k"] exI [of _ "2 ^ nat (- e)"]) (simp add: powi_nat)
qed

lemma ftrunc_floor: "ftrunc (Fin m e) = Some (nat \<lfloor>fval (Fin m e)\<rfloor>)"
proof (cases "0 \<le> e")
  case True
  then have "fval (Fin m e) = real (m * 2 ^ nat e)" by (simp add: powi_nat)
  then show ?thesis using True by (simp del: of_nat_mult of_nat_power fval.simps)
next
  case False
  then have "fval (Fin m e) = real m / real (2 ^ nat (- e))" by (simp add: powi_nat)
  then show ?thesis using False by (simp only: ftrunc.simps floor_divide_of_nat_eq) simp
qed

lemma fmt_integer: "\<exists>d. fmt_fixed 0 (Fin m e) = dec_nat d \<and> \<bar>real d - fval (Fin m e)\<bar> \<le> 1 / 2"
proof (cases "0 \<le> e")
  case True
  then show ?thesis by (intro exI [of _ "m * 2 ^ nat e"]) (simp add: powi_nat Let_def)
next
  case False
  have "\<bar>real (round_even m (2 ^ nat (- e))) - real m / real (2 ^ nat (- e))\<bar> \<le> 1 / 2"
    by (rule round_even_real) simp
  then show ?thesis using False
    by (intro exI [of _ "round_even m (2 ^ nat (- e))"]) (simp add: powi_nat Let_def)
qed

lemma near_bounds:
  assumes "near u a b" and "0 < b" and "u < 1"
  shows "0 < a" "a \<le> b * (1 + u)" "b * (1 - u) \<le> a"
proof -
  have h: "a \<le> b + u * b" "b - u * b \<le> a" using assms(1) by (simp_all add: near_def abs_le_iff)
  then show "a \<le> b * (1 + u)" "b * (1 - u) \<le> a" by (simp_all add: algebra_simps)
  moreover have "0 < b * (1 - u)" using assms(2,3) by simp
  ultimately show "0 < a" by linarith
qed

lemma scale_trans:
  assumes "a \<le> b * \<alpha>" and "b \<le> c * \<beta>" and "0 \<le> \<alpha>"
  shows "(a :: real) \<le> c * (\<beta> * \<alpha>)"
proof -
  have "b * \<alpha> \<le> c * \<beta> * \<alpha>" using assms(2,3) by (intro mult_right_mono)
  then show ?thesis using assms(1) by (simp add: mult.assoc)
qed

lemma scale_trans_low:
  assumes "b * \<alpha> \<le> a" and "c * \<beta> \<le> b" and "0 \<le> \<alpha>"
  shows "c * (\<beta> * \<alpha>) \<le> (a :: real)"
proof -
  have "c * \<beta> * \<alpha> \<le> b * \<alpha>" using assms(2,3) by (intro mult_right_mono)
  then show ?thesis using assms(1) by (simp add: mult.assoc)
qed

text \<open>Three roundings and a division of rounded numbers.\<close>

lemma near_quotient:
  assumes "near unit32 x s" and "near unit32 y t" and "near unit32 v (x / y)" and "near unit32 w (v * k)"
    and "0 < s" and "0 < t" and "0 < k"
  shows "\<bar>w - k * s / t\<bar> \<le> 1 / 2 ^ 20 * (k * s / t)"
proof -
  let ?u = unit32
  have u: "?u < (1::real)" by simp
  note x = near_bounds [OF assms(1,5) u] and y = near_bounds [OF assms(2,6) u]
  have q: "0 < x / y" using x(1) y(1) by simp
  note v = near_bounds [OF assms(3) q u]
  have vk: "0 < v * k" using v(1) assms(7) by simp
  note w = near_bounds [OF assms(4) vk u]
  have "x / y \<le> (s * (1 + ?u)) / (t * (1 - ?u))"
    using x y assms(5,6) by (intro frac_le) simp_all
  then have q1: "x / y \<le> s / t * ((1 + ?u) / (1 - ?u))" by (simp only: times_divide_times_eq)
  have "(s * (1 - ?u)) / (t * (1 + ?u)) \<le> x / y"
    using x y assms(5,6) by (intro frac_le) simp_all
  then have q2: "s / t * ((1 - ?u) / (1 + ?u)) \<le> x / y" by (simp only: times_divide_times_eq)
  have p: "0 \<le> s / t * k" using assms(5-7) by simp
  have "v \<le> s / t * ((1 + ?u) / (1 - ?u) * (1 + ?u))" using scale_trans [OF v(2) q1] by simp
  then have "v * k \<le> s / t * ((1 + ?u) / (1 - ?u) * (1 + ?u)) * k" using assms(7) by (intro mult_right_mono) simp_all
  then have "v * k \<le> s / t * k * ((1 + ?u) / (1 - ?u) * (1 + ?u))" by (simp only: mult.assoc mult.commute [of k])
  from scale_trans [OF w(2) this] have "w \<le> s / t * k * ((1 + ?u) / (1 - ?u) * (1 + ?u) * (1 + ?u))" by simp
  also have "\<dots> \<le> s / t * k * (1 + 1 / 2 ^ 20)" using p by (intro mult_left_mono) simp_all
  finally have up: "w \<le> s / t * k * (1 + 1 / 2 ^ 20)" .
  have "s / t * ((1 - ?u) / (1 + ?u) * (1 - ?u)) \<le> v" using scale_trans_low [OF v(3) q2] by simp
  then have "s / t * ((1 - ?u) / (1 + ?u) * (1 - ?u)) * k \<le> v * k" using assms(7) by (intro mult_right_mono) simp_all
  then have "s / t * k * ((1 - ?u) / (1 + ?u) * (1 - ?u)) \<le> v * k" by (simp only: mult.assoc mult.commute [of k])
  from scale_trans_low [OF w(3) this] have "s / t * k * ((1 - ?u) / (1 + ?u) * (1 - ?u) * (1 - ?u)) \<le> w" by simp
  moreover have "s / t * k * (1 - 1 / 2 ^ 20) \<le> s / t * k * ((1 - ?u) / (1 + ?u) * (1 - ?u) * (1 - ?u))"
    using p by (intro mult_left_mono) simp_all
  ultimately have lo: "s / t * k * (1 - 1 / 2 ^ 20) \<le> w" by linarith
  have "k * s / t = s / t * k" by simp
  then show ?thesis using up lo unfolding abs_le_iff by (simp only: ring_distribs) (simp add: mult.commute)
qed

lemma fval_pos: "0 < fval (Fin m e) \<Longrightarrow> 0 < m"
  by (cases m) simp_all

lemma f_of_nat_accurate:
  assumes "0 < n" and "n < 2 ^ 63"
  shows "\<exists>m e. f_of_nat n = Fin m e \<and> near unit32 (fval (Fin m e)) (real n)"
proof -
  have "real n < real (2 ^ 63)" using assms(2) by (simp only: of_nat_less_iff)
  then have "real n / real 1 < 2 ^ 100" by simp
  moreover have "1 / 2 ^ 120 \<le> real n / real 1"
  proof -
    have "1 \<le> real n" using assms(1) by simp
    moreover have "1 / 2 ^ 120 \<le> (1::real)" by simp
    ultimately show ?thesis by simp
  qed
  ultimately show ?thesis using f32_accurate [of n 1] assms(1) by (simp add: f_of_nat_def)
qed

text \<open>A fraction of two sizes, times a constant, as the programs compute it.\<close>

lemma fraction_accurate:
  assumes "0 < n" and "n \<le> t" and "t < 2 ^ 63" and "0 < k" and "k \<le> 100"
  shows "\<exists>m e. fmul_nat (fdiv (f_of_nat n) (f_of_nat t)) k = Fin m e \<and>
    \<bar>fval (Fin m e) - real k * real n / real t\<bar> \<le> 1 / 10000"
proof -
  have n: "n < 2 ^ 63" and t0: "0 < t" using assms by simp_all
  have u: "unit32 < (1::real)" by simp
  obtain a e where a: "f_of_nat n = Fin a e" "near unit32 (fval (Fin a e)) (real n)"
    using f_of_nat_accurate [OF assms(1) n] by blast
  obtain b g where b: "f_of_nat t = Fin b g" "near unit32 (fval (Fin b g)) (real t)"
    using f_of_nat_accurate [OF t0 assms(3)] by blast
  have r: "0 < real n" "0 < real t" "real n \<le> real t" using assms by simp_all
  note x = near_bounds [OF a(2) r(1) u] and y = near_bounds [OF b(2) r(2) u]
  obtain p q where pq: "fdiv (Fin a e) (Fin b g) = f32 p q" "0 < p" "0 < q"
      "real p / real q = fval (Fin a e) / fval (Fin b g)"
    using fdiv_ratio [OF fval_pos [OF x(1)] fval_pos [OF y(1)]] by blast
  have "real t < real (2 ^ 63)" using assms(3) by (simp only: of_nat_less_iff)
  then have t63: "real t < 2 ^ 63" by simp
  have n1: "1 \<le> real n" using assms(1) by simp
  have u2: "1 + unit32 \<le> (2::real)" "1 / 2 \<le> (1 - unit32 :: real)" by simp_all
  have "real n * (1 + unit32) \<le> real t * 2" using r u2(1) by (intro mult_mono) simp_all
  moreover have "1 * (1 / 2) \<le> real n * (1 - unit32)" using n1 u2(2) by (intro mult_mono) simp_all
  moreover have "real t * (1 + unit32) \<le> 2 ^ 63 * 2" using t63 u2(1) by (intro mult_mono) simp_all
  moreover have "real t * (1 / 2) \<le> real t * (1 - unit32)" using r(2) u2(2) by (intro mult_left_mono) simp_all
  ultimately have f: "fval (Fin a e) \<le> real t * 2" "1 / 2 \<le> fval (Fin a e)" "fval (Fin b g) \<le> 2 ^ 63 * 2"
      "real t * (1 / 2) \<le> fval (Fin b g)"
    using x(2,3) y(2,3) by (simp_all only: mult_1)
  have "fval (Fin a e) / fval (Fin b g) \<le> (real t * 2) / (real t * (1 / 2))"
    using f x(1) r(2) by (intro frac_le) simp_all
  then have q4: "real p / real q \<le> 4" using r(2) pq(4) by simp
  have "(1 / 2) / (2 ^ 63 * 2) \<le> fval (Fin a e) / fval (Fin b g)"
    using f x(1) y(1) by (intro frac_le) simp_all
  then have q0: "1 / 2 ^ 65 \<le> real p / real q" using pq(4) by simp
  have "real p / real q < 2 ^ 100" "1 / 2 ^ 120 \<le> real p / real q"
  proof -
    show "real p / real q < 2 ^ 100" by (rule le_less_trans [OF q4]) simp
    show "1 / 2 ^ 120 \<le> real p / real q" by (rule order_trans [OF _ q0]) simp
  qed
  from f32_accurate [OF pq(2,3) this(2,1)] obtain m h
    where m: "fdiv (f_of_nat n) (f_of_nat t) = Fin m h" "near unit32 (fval (Fin m h)) (fval (Fin a e) / fval (Fin b g))"
    using a(1) b(1) pq(1,4) by auto
  have "0 < fval (Fin a e) / fval (Fin b g)" using x(1) y(1) by (rule divide_pos_pos)
  note v = near_bounds [OF m(2) this u]
  have "fval (Fin m h) \<le> 4 * 2"
    by (rule order_trans [OF v(2)], rule mult_mono) (use q4 pq(4) in simp_all)
  moreover have "1 / 2 ^ 65 * (1 / 2) \<le> fval (Fin m h)"
    by (rule order_trans [OF _ v(3)], rule mult_mono) (use q0 pq(4) x(1) y(1) in \<open>simp_all del: fval.simps\<close>)
  moreover have k: "1 \<le> real k" "real k \<le> 100" "0 < real k" using assms(4,5) by simp_all
  ultimately have mk: "fval (Fin m h) * real k \<le> 8 * 100" "1 / 2 ^ 66 * 1 \<le> fval (Fin m h) * real k"
    by (intro mult_mono; simp)+
  obtain p' q' where pq': "fmul_nat (Fin m h) k = f32 p' q'" "0 < p'" "0 < q'"
      "real p' / real q' = fval (Fin m h) * real k"
    using fmul_ratio [OF fval_pos [OF v(1)] assms(4)] by blast
  have "real p' / real q' < 2 ^ 100" "1 / 2 ^ 120 \<le> real p' / real q'"
  proof -
    show "real p' / real q' < 2 ^ 100" unfolding pq'(4) by (rule le_less_trans [OF mk(1)]) simp
    show "1 / 2 ^ 120 \<le> real p' / real q'" unfolding pq'(4) by (rule order_trans [OF _ mk(2)]) simp
  qed
  from f32_accurate [OF pq'(2,3) this(2,1)] obtain m' h'
    where m': "fmul_nat (fdiv (f_of_nat n) (f_of_nat t)) k = Fin m' h'" "near unit32 (fval (Fin m' h')) (fval (Fin m h) * real k)"
    using m(1) pq'(1,4) by auto
  have "\<bar>fval (Fin m' h') - real k * real n / real t\<bar> \<le> 1 / 2 ^ 20 * (real k * real n / real t)"
    by (rule near_quotient [OF a(2) b(2) m(2) m'(2) r(1,2) k(3)])
  also have "\<dots> \<le> 1 / 2 ^ 20 * 100"
  proof (rule mult_left_mono)
    have "real k * real n \<le> 100 * real t" using k(2) r by (intro mult_mono) simp_all
    then show "real k * real n / real t \<le> 100" using r(2) by (simp add: divide_le_eq)
  qed simp
  also have "\<dots> \<le> (1 / 10000 :: real)" by simp
  finally show ?thesis using m'(1) by blast
qed

lemma fraction_whole:
  assumes "0 < n" and "n < 2 ^ 63" and "0 < k" and "k < 2 ^ 24"
  shows "\<exists>h. fmul_nat (fdiv (f_of_nat n) (f_of_nat n)) k = Fin (k * 2 ^ h) (- int h)"
proof -
  obtain a e where a: "f_of_nat n = Fin a e" "near unit32 (fval (Fin a e)) (real n)"
    using f_of_nat_accurate [OF assms(1,2)] by blast
  have a0: "0 < a"
  proof (rule fval_pos)
    show "0 < fval (Fin a e)" by (rule near_bounds(1) [OF a(2)]) (use assms(1) in simp_all)
  qed
  obtain h where h: "fdiv (Fin a e) (Fin a e) = Fin (2 ^ h) (- int h)"
    using f32_exact [of 1 a] a0 by auto
  have "fmul_nat (Fin (2 ^ h) (- int h)) k = f32 (k * 2 ^ h) (2 ^ h)" by (cases "h = 0") (simp_all add: mult.commute)
  then show ?thesis using f32_exact [OF assms(3,4), of "2 ^ h"] h a(1) by auto
qed

end
