(* ===== verification/JsonParser.thy ===== *)
theory JsonParser
  imports CString CFloat StepMachine
begin

text \<open>
  \<^verbatim>\<open>json-parser/jparse.c\<close>: the character-driven parser. A step is one iteration of the inner loop: the
  \<^verbatim>\<open>switch\<close> on the state. The buffers are kept as the characters written so far (their length is the
  index), the key stack as its used part, bottom first. A write or read past a buffer is a fault, a
  \<^verbatim>\<open>return 1\<close> from \<^verbatim>\<open>main\<close> a stop.
\<close>

section \<open>The program\<close>

datatype parser_state =
    STATE_START | STATE_KEY_BEGIN | STATE_KEY | STATE_KEY_END | STATE_VALUE_BEGIN
  | STATE_VALUE_STRING | STATE_VALUE_NUMBER | STATE_VALUE_TRUE | STATE_VALUE_FALSE
  | STATE_VALUE_NULL | STATE_VALUE_END | STATE_DONE

record jparse =
  pstate :: parser_state
  key_buffer :: string
  val_buffer :: string
  literal_index :: nat
  key_stack :: "string list"
  in_array :: bool
  array_index :: nat
  jout :: string
  jerr :: "string list"

definition jparse_init :: jparse where
  "jparse_init = \<lparr>pstate = STATE_START, key_buffer = [], val_buffer = [], literal_index = 0,
     key_stack = [], in_array = False, array_index = 0, jout = [], jerr = []\<rparr>"

text \<open>How an iteration ends: on to the next character, the same one again (\<^verbatim>\<open>i--\<close>), or \<^verbatim>\<open>return 1\<close>.\<close>

datatype jctl = Advance | Again | Return_1

definition get_key :: "string list \<Rightarrow> string \<Rightarrow> string" where
  "get_key stack key = concat (map (\<lambda>k. k @ ''.'') stack) @ key"

text \<open>\<^verbatim>\<open>full_key\<close> has 512 bytes; \<^verbatim>\<open>snprintf\<close> truncates to it, \<^verbatim>\<open>strcat\<close> in \<^verbatim>\<open>get_key\<close> does not.\<close>

definition full_key :: "jparse \<Rightarrow> (string \<times> jparse) outcome" where
  "full_key st =
     (if in_array st then
        (if key_stack st = [] then Inl Out_Of_Bounds
         else if array_index st = 2147483647 then Inl Signed_Overflow
         else Inr (take 511 (last (key_stack st) @ ''['' @ dec_nat (array_index st) @ '']''),
                   st\<lparr>array_index := array_index st + 1\<rparr>))
      else let k = get_key (key_stack st) (key_buffer st)
           in if length k < 512 then Inr (k, st) else Inl Out_Of_Bounds)"

definition emit :: "jctl \<Rightarrow> string \<Rightarrow> jparse \<Rightarrow> (jctl \<times> jparse) outcome" where
  "emit ctl v st =
     (case full_key st of
        Inl f \<Rightarrow> Inl f
      | Inr (k, st1) \<Rightarrow>
          Inr (ctl, st1\<lparr>jout := jout st1 @ ''Key: '' @ k @ '', Value: '' @ v @ [NL],
                        pstate := STATE_VALUE_END\<rparr>))"

definition push_key :: "jparse \<Rightarrow> jparse outcome" where
  "push_key st =
     (if length (key_stack st) < 10 then Inr (st\<lparr>key_stack := key_stack st @ [key_buffer st]\<rparr>)
      else Inl Out_Of_Bounds)"

definition push_val :: "char \<Rightarrow> jparse \<Rightarrow> jparse outcome" where
  "push_val ch st =
     (if length (val_buffer st) < 256 then Inr (st\<lparr>val_buffer := val_buffer st @ [ch]\<rparr>)
      else Inl Out_Of_Bounds)"

text \<open>\<^verbatim>\<open>atoi\<close> on an optional minus and digits.\<close>

definition atoi :: "string \<Rightarrow> int" where
  "atoi s =
     (if s \<noteq> [] \<and> hd s = CHR ''-'' then - int (val_dec (takeWhile isdigit (tl s)))
      else int (val_dec (takeWhile isdigit s)))"

definition int32 :: "int \<Rightarrow> bool" where
  "int32 i \<longleftrightarrow> - 2147483648 \<le> i \<and> i \<le> 2147483647"

text \<open>The three literal states; \<open>word\<close> is the literal's spelling.\<close>

definition literal_step :: "string \<Rightarrow> char \<Rightarrow> jparse \<Rightarrow> (jctl \<times> jparse) outcome" where
  "literal_step word ch st =
     (if literal_index st < length word \<and> ch = word ! literal_index st then
        let st1 = st\<lparr>literal_index := literal_index st + 1\<rparr>
        in if literal_index st1 = length word then emit Advance word st1 else Inr (Advance, st1)
      else Inr (Return_1, st\<lparr>jerr := jerr st @
             [''Error: Invalid character '' @ [CHR 0x27, ch, CHR 0x27] @ '' in '' @ [CHR 0x27] @ word @
              [CHR 0x27]]\<rparr>))"

definition number_end :: "jparse \<Rightarrow> (jctl \<times> jparse) outcome" where
  "number_end st =
     (let v = val_buffer st
      in if 256 \<le> length v then Inl Out_Of_Bounds
         else if CHR ''.'' \<in> set v \<or> CHR ''e'' \<in> set v \<or> CHR ''E'' \<in> set v
              then emit Again (strtof_fixed 2 v) st
         else if int32 (atoi v) then emit Again (dec_int (atoi v)) st
         else Inl Signed_Overflow)"

definition value_begin :: "char \<Rightarrow> jparse \<Rightarrow> (jctl \<times> jparse) outcome" where
  "value_begin ch st =
     (if ch = CHR ''{'' then
        map_sum id (\<lambda>st. (Advance, st\<lparr>pstate := STATE_KEY_BEGIN\<rparr>)) (push_key st)
      else if ch = CHR ''['' then
        map_sum id (\<lambda>st. (Advance, st\<lparr>pstate := STATE_VALUE_BEGIN\<rparr>))
          (push_key (st\<lparr>in_array := True, array_index := 0\<rparr>))
      else if ch = CHR 0x22 then Inr (Advance, st\<lparr>val_buffer := [], pstate := STATE_VALUE_STRING\<rparr>)
      else if isdigit ch \<or> ch = CHR ''-'' \<or> ch = CHR ''.'' then
        Inr (Advance, st\<lparr>val_buffer := [ch], pstate := STATE_VALUE_NUMBER\<rparr>)
      else if ch = CHR ''t'' then
        Inr (Advance, st\<lparr>literal_index := 1, pstate := STATE_VALUE_TRUE\<rparr>)
      else if ch = CHR ''f'' then
        Inr (Advance, st\<lparr>literal_index := 1, pstate := STATE_VALUE_FALSE\<rparr>)
      else if ch = CHR ''n'' then
        Inr (Advance, st\<lparr>literal_index := 1, pstate := STATE_VALUE_NULL\<rparr>)
      else Inr (Advance, st))"

definition value_end :: "char \<Rightarrow> jparse \<Rightarrow> jparse" where
  "value_end ch st =
     (if ch = CHR '','' then
        st\<lparr>pstate := (if in_array st then STATE_VALUE_BEGIN else STATE_KEY_BEGIN)\<rparr>
      else if ch = CHR ''}'' then
        (if key_stack st \<noteq> [] then st\<lparr>key_stack := butlast (key_stack st), pstate := STATE_VALUE_END\<rparr>
         else st\<lparr>pstate := STATE_DONE\<rparr>)
      else if ch = CHR '']'' then
        st\<lparr>key_stack := butlast (key_stack st), in_array := False, pstate := STATE_VALUE_END\<rparr>
      else st)"

fun jstep_at :: "parser_state \<Rightarrow> char \<Rightarrow> jparse \<Rightarrow> (jctl \<times> jparse) outcome" where
  "jstep_at STATE_START ch st =
     Inr (Advance, if ch = CHR ''{'' then st\<lparr>pstate := STATE_KEY_BEGIN\<rparr> else st)"
| "jstep_at STATE_KEY_BEGIN ch st =
     Inr (Advance, if ch = CHR 0x22 then st\<lparr>key_buffer := [], pstate := STATE_KEY\<rparr> else st)"
| "jstep_at STATE_KEY ch st =
     (if 256 \<le> length (key_buffer st) then Inl Out_Of_Bounds
      else Inr (Advance, if ch = CHR 0x22 then st\<lparr>pstate := STATE_KEY_END\<rparr>
                         else st\<lparr>key_buffer := key_buffer st @ [ch]\<rparr>))"
| "jstep_at STATE_KEY_END ch st =
     Inr (Advance, if ch = CHR '':'' then st\<lparr>pstate := STATE_VALUE_BEGIN\<rparr> else st)"
| "jstep_at STATE_VALUE_BEGIN ch st = value_begin ch st"
| "jstep_at STATE_VALUE_STRING ch st =
     (if ch = CHR 0x22 then
        (if 256 \<le> length (val_buffer st) then Inl Out_Of_Bounds else emit Advance (val_buffer st) st)
      else map_sum id (Pair Advance) (push_val ch st))"
| "jstep_at STATE_VALUE_NUMBER ch st =
     (if isdigit ch \<or> ch = CHR ''.'' then map_sum id (Pair Advance) (push_val ch st)
      else number_end st)"
| "jstep_at STATE_VALUE_TRUE ch st = literal_step ''true'' ch st"
| "jstep_at STATE_VALUE_FALSE ch st = literal_step ''false'' ch st"
| "jstep_at STATE_VALUE_NULL ch st = literal_step ''null'' ch st"
| "jstep_at STATE_VALUE_END ch st = Inr (Advance, value_end ch st)"
| "jstep_at STATE_DONE ch st = Inr (Advance, st)"

definition jstep :: "char \<Rightarrow> jparse \<Rightarrow> (jctl \<times> jparse) outcome" where
  "jstep ch st = jstep_at (pstate st) ch st"

text \<open>
  The iterations spent on one character of the line: \<^verbatim>\<open>i--\<close> followed by \<^verbatim>\<open>++i\<close> reads it once more,
  then in the state after a value, which always advances.
\<close>

datatype jstop = JFault fault | JReturn int jparse

definition jnext :: "char \<Rightarrow> jparse \<Rightarrow> jstop + jparse" where
  "jnext ch st =
     (case jstep ch st of
        Inl f \<Rightarrow> Inl (JFault f)
      | Inr (Advance, st1) \<Rightarrow> Inr st1
      | Inr (Return_1, st1) \<Rightarrow> Inl (JReturn 1 st1)
      | Inr (Again, st1) \<Rightarrow>
          (case jstep ch st1 of Inl f \<Rightarrow> Inl (JFault f) | Inr (_, st2) \<Rightarrow> Inr st2))"

definition json_line :: "string \<Rightarrow> jparse \<Rightarrow> jstop + jparse" where
  "json_line line_buffer st = run_steps jnext (cstr line_buffer) st"

text \<open>\<^verbatim>\<open>main\<close> on the content of \<^verbatim>\<open>temp.json\<close>, if it can be opened: the exit code and the final state.\<close>

definition json_main :: "string option \<Rightarrow> (int \<times> jparse) outcome" where
  "json_main f =
     (case f of
        None \<Rightarrow> Inl Null_Deref
      | Some content \<Rightarrow>
          (case run_steps json_line (fgets_all 512 content) jparse_init of
             Inl (JFault e) \<Rightarrow> Inl e
           | Inl (JReturn c st) \<Rightarrow> Inr (c, st)
           | Inr st \<Rightarrow> Inr (0, st)))"

section \<open>One pass over the file\<close>

lemma json_line_id: "NUL \<notin> set l \<Longrightarrow> json_line l st = run_steps jnext l st"
  by (simp add: json_line_def)

lemma json_lines_pass:
  assumes "NUL \<notin> set content"
  shows "run_steps json_line (fgets_all 512 content) st = run_steps jnext content st"
proof -
  let ?ls = "fgets_all 512 content"
  have c: "concat ?ls = content" by (simp add: concat_fgets_all)
  have "NUL \<notin> set l" if "l \<in> set ?ls" for l
    using that assms c by (metis UN_I set_concat)
  then have "run_steps json_line ?ls st = run_steps (\<lambda>is s. run_steps jnext is s) ?ls st"
    by (intro run_steps_cong json_line_id) blast
  then show ?thesis by (simp only: run_steps_concat c)
qed

end
