(* ===== verification/JsonDecimal.thy ===== *)
theory JsonDecimal
  imports CFloat
begin

text \<open>
  Decimal numbers through \<^verbatim>\<open>strtof\<close> and \<^verbatim>\<open>%.2f\<close>: below \<open>2 ^ 17\<close> a single-precision number is within
  a 256th of the decimal it was read from, so a decimal of at most two fraction digits is printed as
  it is.
\<close>

section \<open>Rounding\<close>

lemma round_even_unique:
  assumes "2 * p < 2 * (k * q) + q" and "2 * (k * q) < 2 * p + q"
  shows "round_even p q = k"
proof -
  have q: "0 < q" using assms(1,2) by (cases "q = 0") auto
  let ?r = "round_even p q"
  have near: "2 * (?r * q) \<le> 2 * p + q" "2 * p \<le> 2 * (?r * q) + q"
    using round_even_near [OF q, of p] by simp_all
  have "?r * q < (k + 1) * q" "k * q < (?r + 1) * q"
    using near assms by (simp_all add: algebra_simps)
  then have "?r < k + 1" "k < ?r + 1" by (simp_all only: mult_less_cancel2)
  then show ?thesis by simp
qed

lemma log2_quot_less:
  assumes "0 < q" and "p < 2 ^ j * q"
  shows "log2_quot p q \<le> int j - 1"
proof -
  have "floorlog 2 p \<le> floorlog 2 (q * 2 ^ j)"
    using assms(2) by (intro floorlog_mono) (simp add: mult.commute)
  also have "\<dots> = floorlog 2 q + j" using assms(1) by (intro floorlog_power) simp_all
  finally have le: "int (floorlog 2 p) - int (floorlog 2 q) \<le> int j" by simp
  show ?thesis
  proof (cases "int (floorlog 2 p) - int (floorlog 2 q) = int j")
    case True
    have "\<not> q * 2 ^ j \<le> p" using assms(2) by (simp add: mult.commute)
    then show ?thesis unfolding log2_quot_def True by (simp add: scaled_def)
  next
    case False
    then show ?thesis using le by (auto simp: log2_quot_def Let_def split: prod.splits)
  qed
qed

lemma f32_near:
  assumes "0 < p" and "0 < q" and "p < 2 ^ j * q" and "j \<le> 23"
  shows "\<exists>m k. f32 p q = Fin m (- int k) \<and> 24 \<le> j + k \<and>
    2 * (m * q) \<le> 2 * (p * 2 ^ k) + q \<and> 2 * (p * 2 ^ k) \<le> 2 * (m * q) + q"
proof -
  let ?e = "max (- 149) (log2_quot p q - 23)"
  have e: "?e \<le> int j - 24" using log2_quot_less [OF assms(2,3)] assms(4) by simp
  then have neg: "?e \<le> 0" using assms(4) by simp
  then have s: "scaled p q ?e = (p * 2 ^ nat (- ?e), q)" by (auto simp: scaled_def)
  let ?m = "round_even (p * 2 ^ nat (- ?e)) q"
  have "\<not> 105 < ?e" "?e \<notin> {104, 105}" using neg by (simp_all del: max_less_iff_conj) auto
  then have "f32 p q = Fin ?m ?e" using assms(1) unfolding f32_def Let_def s by simp
  moreover have "?e = - int (nat (- ?e))" using neg by simp
  ultimately have "f32 p q = Fin ?m (- int (nat (- ?e)))" by simp
  moreover have "24 \<le> j + nat (- ?e)" using e neg by linarith
  ultimately show ?thesis using round_even_near [OF assms(2)] by blast
qed

text \<open>A hundredth survives the rounding to single precision and back.\<close>

lemma fmt_hundredths:
  assumes "n < 2 ^ 17 * q" and "N * q = n * 100" and "0 < q"
  shows "fmt_fixed 2 (f32 n q) = dec_nat (N div 100) @ ''.'' @ pad_left 2 CHR ''0'' (dec_nat (N mod 100))"
proof (cases "n = 0")
  case True
  then have "N = 0" using assms(2,3) by simp
  then show ?thesis using True by (simp add: f32_def)
next
  case False
  obtain m k where f: "f32 n q = Fin m (- int k)" and k: "24 \<le> 17 + k"
    and near: "2 * (m * q) \<le> 2 * (n * 2 ^ k) + q" "2 * (n * 2 ^ k) \<le> 2 * (m * q) + q"
    using f32_near [of n q 17] False assms(1,3) by auto
  have "(2::nat) ^ 7 \<le> 2 ^ k" using k by (intro power_increasing) simp_all
  then have big: "100 * q < 2 ^ k * q" using assms(3) by simp
  have "2 * (N * 2 ^ k) * q = 100 * (2 * (n * 2 ^ k))" using assms(2) by (simp add: algebra_simps)
  moreover have "2 * (m * 100) * q = 100 * (2 * (m * q))" by (simp add: algebra_simps)
  ultimately have "2 * (m * 100) * q < (2 * (N * 2 ^ k) + 2 ^ k) * q" "2 * (N * 2 ^ k) * q < (2 * (m * 100) + 2 ^ k) * q"
    using near big unfolding add_mult_distrib by linarith+
  then have "round_even (m * 100) (2 ^ k) = N" by (intro round_even_unique) simp_all
  moreover have "k \<noteq> 0" using k by simp
  ultimately show ?thesis using f by simp
qed

section \<open>Digits\<close>

lemma val_dec_append: "val_dec (xs @ ys) = val_dec xs * 10 ^ length ys + val_dec ys"
  by (induction ys rule: rev_induct) (simp_all add: append_assoc [symmetric] algebra_simps del: append_assoc)

lemma digit_digit_val [simp]: "isdigit c \<Longrightarrow> digit (digit_val c) = c"
  by (simp add: digit_def digit_val_def isdigit_def)

lemma digit_val_less: "isdigit c \<Longrightarrow> digit_val c < 10"
  by (auto simp: digit_val_def isdigit_def)

lemma isdigit_neq_minus: "isdigit c \<Longrightarrow> c \<noteq> CHR ''-''"
  by (auto simp: isdigit_def)

text \<open>At most two fraction digits, filled up to two.\<close>

definition hundredths :: "string \<Rightarrow> string" where
  "hundredths f = take 2 (f @ ''00'')"

lemma hundredths_digits:
  assumes "list_all isdigit f" and "length f \<le> 2"
  shows "pad_left 2 CHR ''0'' (dec_nat (val_dec f * 10 ^ (2 - length f))) = hundredths f"
proof -
  have two: "pad_left 2 CHR ''0'' (dec_nat (10 * a + b)) = [digit a, digit b]" if "a < 10" "b < 10" for a b
  proof (cases "a = 0")
    case True
    then show ?thesis using that(2) by (subst dec_nat.simps) (simp add: pad_left_def numeral_2_eq_2)
  next
    case False
    then show ?thesis using that by (simp add: dec_nat.simps [of "10 * a + b"] dec_nat.simps [of a] pad_left_def)
  qed
  consider "f = []" | c where "f = [c]" | c d where "f = [c, d]"
    using assms(2) by (cases f; cases "tl f") (auto simp: Suc_le_eq)
  then show ?thesis
  proof cases
    case 1
    then show ?thesis using two [of 0 0] by (simp add: hundredths_def)
  next
    case 2
    then show ?thesis
      using two [of "digit_val c" 0] val_dec_snoc [of "[]" c] assms(1) digit_val_less [of c]
      by (simp add: hundredths_def mult.commute numeral_2_eq_2)
  next
    case 3
    then show ?thesis
      using two [of "digit_val c" "digit_val d"] val_dec_snoc [of "[c]" d] val_dec_snoc [of "[]" c] assms(1)
        digit_val_less [of c] digit_val_less [of d]
      by (simp add: hundredths_def)
  qed
qed

lemma val_dec_less: "list_all isdigit f \<Longrightarrow> val_dec f < 10 ^ length f"
  by (induction f rule: rev_induct) (auto dest!: digit_val_less)

section \<open>The round trip\<close>

definition decimal_text :: "bool \<Rightarrow> nat \<Rightarrow> string \<Rightarrow> string" where
  "decimal_text neg i f = (if neg then ''-'' else []) @ dec_nat i @ CHR ''.'' # f"

lemma takeWhile_dec_nat [simp]: "takeWhile isdigit (dec_nat n @ CHR ''.'' # r) = dec_nat n"
  "dropWhile isdigit (dec_nat n @ CHR ''.'' # r) = CHR ''.'' # r"
  using dec_nat_digits [of _ n] by (simp_all add: takeWhile_append2 dropWhile_append2 isdigit_def)

lemma decimal_parts_text:
  "list_all isdigit f \<Longrightarrow> decimal_parts (dec_nat i @ CHR ''.'' # f) = (dec_nat i, f)"
  by (simp add: decimal_parts_def takeWhile_eq_all_conv [THEN iffD2] list_all_iff)

lemma strtof_decimal:
  assumes "i < 131072" and "list_all isdigit f" and "length f \<le> 2"
  shows "strtof_fixed 2 (decimal_text neg i f) = decimal_text neg i (hundredths f)"
proof -
  let ?n = "val_dec (dec_nat i @ f)" and ?q = "10 ^ length f :: nat"
  let ?N = "i * 100 + val_dec f * 10 ^ (2 - length f)"
  have n: "?n = i * ?q + val_dec f" by (simp add: val_dec_append)
  have vf: "val_dec f < ?q" by (rule val_dec_less [OF assms(2)])
  have "?n < (i + 1) * ?q" using n vf by simp
  also have "\<dots> \<le> 2 ^ 17 * ?q" using assms(1) by (intro mult_le_mono1) simp
  finally have less: "?n < 2 ^ 17 * ?q" .
  have hundred: "?q * 10 ^ (2 - length f) = 100" using assms(3) by (simp flip: power_add)
  have N: "?N * ?q = ?n * 100" unfolding n hundred [symmetric] by (simp add: algebra_simps)
  have "val_dec f * 10 ^ (2 - length f) < 100" using vf hundred by (metis mult_less_cancel2 zero_less_numeral zero_less_power)
  then have digits: "?N div 100 = i" "?N mod 100 = val_dec f * 10 ^ (2 - length f)" by simp_all
  have "fmt_fixed 2 (f32 ?n ?q) = dec_nat i @ ''.'' @ hundredths f"
    using fmt_hundredths [OF less N] hundredths_digits [OF assms(2,3)] digits by simp
  moreover obtain c ds where c: "dec_nat i = c # ds" "c \<noteq> CHR ''-''"
    using dec_nat_digits [of "hd (dec_nat i)" i] by (cases "dec_nat i") (auto dest: isdigit_neq_minus)
  ultimately show ?thesis
    using decimal_parts_text [OF assms(2), of i]
    by (auto simp: strtof_fixed_def decimal_text_def Let_def)
qed

text \<open>Beyond the 24 bits of single precision an integer part is not kept.\<close>

lemma strtof_loses: "strtof_fixed 2 ''16777217.0'' = ''16777216.00''"
proof -
  have l: "floorlog 2 167772170 = 28" "floorlog 2 10 = 4"
    by (simp_all add: compute_floorlog)
  have "f32 167772170 10 = Fin 8388608 1"
    by (simp add: f32_def log2_quot_def l scaled_def round_even_def Let_def)
  moreover have "val_dec ''167772170'' = 167772170" by (simp add: val_dec_def digit_val_def)
  moreover have "decimal_parts ''16777217.0'' = (''16777217'', ''0'')" by (simp add: decimal_parts_def isdigit_def)
  ultimately show ?thesis
    by (simp add: strtof_fixed_def dec_nat.simps pad_left_def)
qed

end
