(* ===== verification/JsonSpec.thy ===== *)
theory JsonSpec
  imports JsonParser JsonDecimal
begin

text \<open>
  What \<^verbatim>\<open>json-parser/jparse.c\<close> is for: a grammar of JSON objects (strings without escapes, integers,
  decimals of up to two fraction digits, literals, arrays of scalars, nested non-empty objects, arbitrary white space), the lines the parser
  should print for such an object, and the proof that it prints them.
\<close>

section \<open>Objects, their texts and their lines\<close>

text \<open>\<open>SDec\<close>: the sign, the integer part and the digits behind the point.\<close>

datatype scalar = SStr string | SInt int | SDec bool nat string | STrue | SFalse | SNull

datatype jv = Scalar scalar | Arr scalar "scalar list" | Obj jms
  and jms = One string jv | More string jv jms

fun scalar_text :: "scalar \<Rightarrow> string" where
  "scalar_text (SStr s) = CHR 0x22 # s @ [CHR 0x22]"
| "scalar_text (SInt i) = dec_int i"
| "scalar_text (SDec neg i f) = decimal_text neg i f"
| "scalar_text STrue = ''true''"
| "scalar_text SFalse = ''false''"
| "scalar_text SNull = ''null''"

fun scalar_out :: "scalar \<Rightarrow> string" where
  "scalar_out (SStr s) = s"
| "scalar_out (SInt i) = dec_int i"
| "scalar_out (SDec neg i f) = decimal_text neg i (hundredths f)"
| "scalar_out STrue = ''true''"
| "scalar_out SFalse = ''false''"
| "scalar_out SNull = ''null''"

definition ws :: "string \<Rightarrow> bool" where
  "ws w \<longleftrightarrow> set w \<subseteq> {CHR '' '', NL, CHR 0x09, CHR 0x0D}"

inductive elems :: "scalar list \<Rightarrow> string \<Rightarrow> bool" where
  elem: "ws w \<Longrightarrow> ws w' \<Longrightarrow> elems [s] (w @ scalar_text s @ w')"
| elem_more: "ws w \<Longrightarrow> ws w' \<Longrightarrow> elems ss t \<Longrightarrow> elems (s # ss) (w @ scalar_text s @ w' @ CHR '','' # t)"

inductive jtext :: "jv \<Rightarrow> string \<Rightarrow> bool" and mems :: "jms \<Rightarrow> string \<Rightarrow> bool" where
  scalar: "jtext (Scalar s) (scalar_text s)"
| arr: "elems (s # ss) t \<Longrightarrow> jtext (Arr s ss) (CHR ''['' # t @ '']'')"
| obj: "mems ms t \<Longrightarrow> jtext (Obj ms) (CHR ''{'' # t @ ''}'')"
| mem: "ws w1 \<Longrightarrow> ws w2 \<Longrightarrow> ws w3 \<Longrightarrow> ws w4 \<Longrightarrow> jtext v t \<Longrightarrow>
     mems (One k v) (w1 @ CHR 0x22 # k @ CHR 0x22 # w2 @ CHR '':'' # w3 @ t @ w4)"
| mem_more: "ws w1 \<Longrightarrow> ws w2 \<Longrightarrow> ws w3 \<Longrightarrow> ws w4 \<Longrightarrow> jtext v t \<Longrightarrow> mems ms t' \<Longrightarrow>
     mems (More k v ms) (w1 @ CHR 0x22 # k @ CHR 0x22 # w2 @ CHR '':'' # w3 @ t @ w4 @ CHR '','' # t')"

definition key_line :: "string \<Rightarrow> string \<Rightarrow> string" where
  "key_line k v = ''Key: '' @ k @ '', Value: '' @ v @ [NL]"

fun arr_lines :: "string \<Rightarrow> nat \<Rightarrow> scalar list \<Rightarrow> string" where
  "arr_lines k n [] = []"
| "arr_lines k n (s # ss) =
     key_line (k @ ''['' @ dec_nat n @ '']'') (scalar_out s) @ arr_lines k (Suc n) ss"

fun jv_lines :: "string list \<Rightarrow> string \<Rightarrow> jv \<Rightarrow> string"
  and jms_lines :: "string list \<Rightarrow> jms \<Rightarrow> string" where
  "jv_lines S k (Scalar s) = key_line (get_key S k) (scalar_out s)"
| "jv_lines S k (Arr s ss) = arr_lines k 0 (s # ss)"
| "jv_lines S k (Obj ms) = jms_lines (S @ [k]) ms"
| "jms_lines S (One k v) = jv_lines S k v"
| "jms_lines S (More k v ms) = jv_lines S k v @ jms_lines S ms"

text \<open>
  The lines as the README documents them: fully qualified keys, for the elements of arrays as well. The
  parser prints these elements under the last key only, so the two differ exactly on objects with an
  array inside a nested object.
\<close>

fun jv_documented :: "string list \<Rightarrow> string \<Rightarrow> jv \<Rightarrow> string"
  and jms_documented :: "string list \<Rightarrow> jms \<Rightarrow> string" where
  "jv_documented S k (Scalar s) = key_line (get_key S k) (scalar_out s)"
| "jv_documented S k (Arr s ss) = arr_lines (get_key S k) 0 (s # ss)"
| "jv_documented S k (Obj ms) = jms_documented (S @ [k]) ms"
| "jms_documented S (One k v) = jv_documented S k v"
| "jms_documented S (More k v ms) = jv_documented S k v @ jms_documented S ms"

fun jv_outer_arrays :: "string list \<Rightarrow> string \<Rightarrow> jv \<Rightarrow> bool"
  and jms_outer_arrays :: "string list \<Rightarrow> jms \<Rightarrow> bool" where
  "jv_outer_arrays S k (Scalar s) \<longleftrightarrow> True"
| "jv_outer_arrays S k (Arr s ss) \<longleftrightarrow> S = []"
| "jv_outer_arrays S k (Obj ms) \<longleftrightarrow> jms_outer_arrays (S @ [k]) ms"
| "jms_outer_arrays S (One k v) \<longleftrightarrow> jv_outer_arrays S k v"
| "jms_outer_arrays S (More k v ms) \<longleftrightarrow> jv_outer_arrays S k v \<and> jms_outer_arrays S ms"

lemma arr_lines_longer:
  assumes "length k < length k'"
  shows "length (arr_lines k n ss) + length ss \<le> length (arr_lines k' n ss)"
proof (induction ss arbitrary: n)
  case (Cons s ss)
  show ?case using Cons.IH [of "Suc n"] assms by (simp add: key_line_def)
qed simp

lemma get_key_longer: "S \<noteq> [] \<Longrightarrow> length k < length (get_key S k)"
  by (cases S) (simp_all add: get_key_def)

definition as_documented :: "bool \<Rightarrow> string \<Rightarrow> string \<Rightarrow> bool" where
  "as_documented same xs ys \<longleftrightarrow> (if same then xs = ys else length xs < length ys)"

lemma as_documented_append:
  "as_documented a xs ys \<Longrightarrow> as_documented b xs' ys' \<Longrightarrow> as_documented (a \<and> b) (xs @ xs') (ys @ ys')"
  by (auto simp: as_documented_def split: if_splits)

lemma documented_lines:
  "as_documented (jv_outer_arrays S k v) (jv_lines S k v) (jv_documented S k v)"
  "as_documented (jms_outer_arrays S ms) (jms_lines S ms) (jms_documented S ms)"
proof (induction S k v and S ms rule: jv_outer_arrays_jms_outer_arrays.induct)
  case (2 S k s ss)
  show ?case
  proof (cases "S = []")
    case True
    then show ?thesis by (simp add: as_documented_def get_key_def)
  next
    case False
    from arr_lines_longer [OF get_key_longer [OF this], of k 0 "s # ss"]
    have "length (arr_lines k 0 (s # ss)) < length (arr_lines (get_key S k) 0 (s # ss))" by (simp del: arr_lines.simps)
    then show ?thesis using False by (simp only: as_documented_def jv_outer_arrays.simps jv_lines.simps
        jv_documented.simps if_False)
  qed
qed (simp_all add: as_documented_append, simp_all add: as_documented_def)

lemma documented_iff: "jms_lines S ms = jms_documented S ms \<longleftrightarrow> jms_outer_arrays S ms"
  using documented_lines(2) [of S ms] by (auto simp: as_documented_def split: if_splits)

text \<open>The parser's limits: buffers of 256, full keys under 512, ten open containers, \<^verbatim>\<open>int\<close> values, and
  decimals below \<open>2 ^ 17\<close>, which single precision keeps apart.\<close>

definition key_fits :: "string \<Rightarrow> bool" where
  "key_fits k \<longleftrightarrow> length k < 256 \<and> CHR 0x22 \<notin> set k"

fun scalar_fits :: "scalar \<Rightarrow> bool" where
  "scalar_fits (SStr s) \<longleftrightarrow> length s < 256 \<and> CHR 0x22 \<notin> set s"
| "scalar_fits (SInt i) \<longleftrightarrow> int32 i"
| "scalar_fits (SDec neg i f) \<longleftrightarrow> i < 131072 \<and> list_all isdigit f \<and> length f \<le> 2"
| "scalar_fits s \<longleftrightarrow> True"

fun jv_fits :: "string list \<Rightarrow> string \<Rightarrow> jv \<Rightarrow> bool"
  and jms_fits :: "string list \<Rightarrow> jms \<Rightarrow> bool" where
  "jv_fits S k (Scalar s) \<longleftrightarrow> scalar_fits s \<and> length (get_key S k) < 512"
| "jv_fits S k (Arr s ss) \<longleftrightarrow>
     length S < 10 \<and> scalar_fits s \<and> list_all scalar_fits ss \<and> length ss < 2147483647"
| "jv_fits S k (Obj ms) \<longleftrightarrow> length S < 10 \<and> jms_fits (S @ [k]) ms"
| "jms_fits S (One k v) \<longleftrightarrow> key_fits k \<and> jv_fits S k v"
| "jms_fits S (More k v ms) \<longleftrightarrow> key_fits k \<and> jv_fits S k v \<and> jms_fits S ms"

section \<open>Single steps\<close>

definition key_ok :: "jparse \<Rightarrow> bool" where
  "key_ok st \<longleftrightarrow>
     (if in_array st then key_stack st \<noteq> [] \<and> array_index st < 2147483647
      else length (get_key (key_stack st) (key_buffer st)) < 512)"

definition key_name :: "jparse \<Rightarrow> string" where
  "key_name st =
     (if in_array st then take 511 (last (key_stack st) @ ''['' @ dec_nat (array_index st) @ '']'')
      else get_key (key_stack st) (key_buffer st))"

definition after_value :: "string \<Rightarrow> jparse \<Rightarrow> jparse" where
  "after_value v st = st\<lparr>pstate := STATE_VALUE_END, jout := jout st @ key_line (key_name st) v,
     array_index := array_index st + (if in_array st then 1 else 0)\<rparr>"

lemma key_frame [simp]:
  "key_ok (st\<lparr>val_buffer := b\<rparr>) = key_ok st" "key_name (st\<lparr>val_buffer := b\<rparr>) = key_name st"
  "key_ok (st\<lparr>literal_index := i\<rparr>) = key_ok st" "key_name (st\<lparr>literal_index := i\<rparr>) = key_name st"
  "key_ok (st\<lparr>pstate := p\<rparr>) = key_ok st" "key_name (st\<lparr>pstate := p\<rparr>) = key_name st"
  by (simp_all add: key_ok_def key_name_def)

lemma emit_after: "key_ok st \<Longrightarrow> emit ctl v st = Inr (ctl, after_value v st)"
  by (cases "in_array st")
    (auto simp: emit_def full_key_def key_ok_def key_name_def after_value_def key_line_def Let_def)

lemma after_value_sel [simp]:
  "pstate (after_value v st) = STATE_VALUE_END" "key_stack (after_value v st) = key_stack st"
  "in_array (after_value v st) = in_array st" "key_buffer (after_value v st) = key_buffer st"
  "array_index (after_value v st) = array_index st + (if in_array st then 1 else 0)"
  "jout (after_value v st) = jout st @ key_line (key_name st) v" "jerr (after_value v st) = jerr st"
  by (simp_all add: after_value_def)

text \<open>\<open>same_core\<close>: equal but for the scratch fields a value leaves behind.\<close>

definition same_core :: "jparse \<Rightarrow> jparse \<Rightarrow> bool" where
  "same_core s t \<longleftrightarrow> pstate s = pstate t \<and> key_stack s = key_stack t \<and> in_array s = in_array t \<and>
     key_buffer s = key_buffer t \<and> array_index s = array_index t \<and> jout s = jout t \<and> jerr s = jerr t"

lemma isdigit_neq:
  assumes "isdigit c"
  shows "c \<noteq> CHR ''{''" "c \<noteq> CHR ''[''" "c \<noteq> CHR 0x22" "c \<noteq> CHR ''-''" "c \<noteq> CHR ''.''"
    "c \<noteq> CHR ''e''" "c \<noteq> CHR ''E''" "c \<noteq> CHR ''t''"
  using assms by (auto simp: isdigit_def)

lemma skip_ws:
  assumes "ws w" and "pstate st \<in> {STATE_START, STATE_KEY_BEGIN, STATE_KEY_END, STATE_VALUE_BEGIN,
    STATE_VALUE_END, STATE_DONE}"
  shows "run_steps jnext (w @ r) st = run_steps jnext r st"
  using assms(1)
proof (induction w)
  case Nil
  then show ?case by simp
next
  case (Cons c w)
  have "jnext c st = Inr st"
    using assms(2) Cons.prems
    by (auto simp: ws_def jnext_def jstep_def value_begin_def value_end_def isdigit_def)
  then show ?case using Cons by (simp add: ws_def)
qed

lemma scan_key:
  assumes "CHR 0x22 \<notin> set k" and "length (key_buffer st) + length k < 256" and "pstate st = STATE_KEY"
  shows "run_steps jnext (k @ CHR 0x22 # r) st =
    run_steps jnext r (st\<lparr>key_buffer := key_buffer st @ k, pstate := STATE_KEY_END\<rparr>)"
  using assms
proof (induction k arbitrary: st)
  case Nil
  then show ?case by (simp add: jnext_def jstep_def)
next
  case (Cons c k)
  have "jnext c st = Inr (st\<lparr>key_buffer := key_buffer st @ [c]\<rparr>)"
    using Cons.prems by (auto simp: jnext_def jstep_def)
  then show ?case using Cons by simp
qed

lemma scan_string:
  assumes "CHR 0x22 \<notin> set s" and "length (val_buffer st) + length s < 256"
    and "pstate st = STATE_VALUE_STRING" and "key_ok st"
  shows "run_steps jnext (s @ CHR 0x22 # r) st =
    run_steps jnext r (after_value (val_buffer st @ s) (st\<lparr>val_buffer := val_buffer st @ s\<rparr>))"
  using assms
proof (induction s arbitrary: st)
  case Nil
  then show ?case by (simp add: jnext_def jstep_def emit_after)
next
  case (Cons c s)
  have "jnext c st = Inr (st\<lparr>val_buffer := val_buffer st @ [c]\<rparr>)"
    using Cons.prems by (auto simp: jnext_def jstep_def push_val_def)
  then show ?case using Cons by simp
qed

text \<open>The characters of a number, and what \<^verbatim>\<open>number_end\<close> makes of them at the first other one.\<close>

lemma scan_number:
  assumes "list_all (\<lambda>d. isdigit d \<or> d = CHR ''.'') ds" and "length (val_buffer st) + length ds < 256"
    and "pstate st = STATE_VALUE_NUMBER" and "key_ok st" and "\<not> isdigit c" and "c \<noteq> CHR ''.''"
    and "\<forall>s. val_buffer s = val_buffer st @ ds \<longrightarrow> number_end s = emit Again v s"
  shows "run_steps jnext (ds @ c # r) st =
    run_steps jnext (c # r) (after_value v (st\<lparr>val_buffer := val_buffer st @ ds\<rparr>))"
  using assms
proof (induction ds arbitrary: st)
  case Nil
  have "jstep c st = Inr (Again, after_value v st)"
    using Nil by (simp add: jstep_def emit_after)
  moreover have "jstep c (after_value v st) = Inr (Advance, value_end c (after_value v st))"
    by (simp add: jstep_def)
  ultimately show ?case by (simp add: jnext_def)
next
  case (Cons d ds)
  have "jnext d st = Inr (st\<lparr>val_buffer := val_buffer st @ [d]\<rparr>)"
    using Cons.prems by (auto simp: jnext_def jstep_def push_val_def)
  then show ?case using Cons by simp
qed

section \<open>Scalars\<close>

lemma takeWhile_digits: "takeWhile isdigit (dec_nat n) = dec_nat n"
  by (auto simp: takeWhile_eq_all_conv dest: dec_nat_digits)

lemma dec_nat_hd: "isdigit (hd (dec_nat n))"
  using dec_nat_digits [of "hd (dec_nat n)" n] by simp

lemma atoi_dec_int [simp]: "atoi (dec_int i) = i"
proof (cases "i < 0")
  case True
  then show ?thesis by (simp add: atoi_def dec_int_def takeWhile_digits)
next
  case False
  then show ?thesis
    using isdigit_neq(4) [OF dec_nat_hd, of "nat i"]
    by (simp add: atoi_def dec_int_def takeWhile_digits)
qed

lemma int32_digits: "int32 i \<Longrightarrow> length (dec_int i) \<le> 11"
proof -
  assume i: "int32 i"
  then have "nat i < 10 ^ 10" "nat (- i) < 10 ^ 10" by (auto simp: int32_def nat_less_iff)
  then have "length (dec_nat (nat i)) \<le> 10" "length (dec_nat (nat (- i))) \<le> 10"
    by (auto intro: length_dec_nat)
  then show "length (dec_int i) \<le> 11" by (simp add: dec_int_def)
qed

lemma dec_int_chars: "c \<in> set (dec_int i) \<Longrightarrow> isdigit c \<or> c = CHR ''-''"
  by (auto simp: dec_int_def dest: dec_nat_digits split: if_splits)

lemma dec_int_scan:
  obtains c ds where "dec_int i = c # ds" "isdigit c \<or> c = CHR ''-''" "list_all isdigit ds"
proof (cases "i < 0")
  case True
  then show thesis
    using that [of "CHR ''-''" "dec_nat (nat (- i))"]
    by (simp add: dec_int_def list_all_iff dec_nat_digits)
next
  case False
  obtain c ds where "dec_nat (nat i) = c # ds" by (cases "dec_nat (nat i)") auto
  moreover from this have "list_all isdigit (c # ds)"
    using dec_nat_digits [of _ "nat i"] by (simp add: list_all_iff)
  ultimately show thesis using that [of c ds] False by (simp add: dec_int_def)
qed

definition stopper :: "string \<Rightarrow> bool" where
  "stopper r \<longleftrightarrow> r \<noteq> [] \<and> \<not> isdigit (hd r) \<and> hd r \<noteq> CHR ''.''"

lemma literal_run:
  assumes lit: "\<And>ch s. pstate s = P \<Longrightarrow> jstep ch s = literal_step word ch s"
    and "pstate st = P" and "key_ok st" and "word = pre @ suf" and "suf \<noteq> []"
    and "literal_index st = length pre"
  shows "run_steps jnext (suf @ r) st =
    run_steps jnext r (after_value word (st\<lparr>literal_index := length word\<rparr>))"
  using assms(2-)
proof (induction suf arbitrary: st pre)
  case Nil
  then show ?case by simp
next
  case (Cons c suf)
  have c: "literal_index st < length word" "word ! literal_index st = c" using Cons.prems by auto
  let ?st1 = "st\<lparr>literal_index := literal_index st + 1\<rparr>"
  show ?case
  proof (cases "suf = []")
    case True
    then have "jnext c st = Inr (after_value word (st\<lparr>literal_index := length word\<rparr>))"
      using Cons.prems c lit [of st c]
      by (simp add: jnext_def literal_step_def Let_def emit_after)
    then show ?thesis using True by simp
  next
    case False
    then have "jnext c st = Inr ?st1"
      using Cons.prems c lit [of st c] by (simp add: jnext_def literal_step_def Let_def)
    moreover have "run_steps jnext (suf @ r) ?st1 =
        run_steps jnext r (after_value word (?st1\<lparr>literal_index := length word\<rparr>))"
      by (rule Cons.IH [of _ "pre @ [c]"]) (use Cons.prems False in auto)
    ultimately show ?thesis by simp
  qed
qed

lemma scan_literal:
  assumes "P \<in> {STATE_VALUE_TRUE, STATE_VALUE_FALSE, STATE_VALUE_NULL}"
    and "\<And>ch s. jstep_at P ch s = literal_step word ch s"
    and "key_ok st" and "word = c # suf" and "suf \<noteq> []"
    and "jnext c st = Inr (st\<lparr>literal_index := 1, pstate := P\<rparr>)"
  shows "run_steps jnext (word @ r) st =
    run_steps jnext r (after_value word (st\<lparr>pstate := P, literal_index := length word\<rparr>))"
proof -
  have "run_steps jnext (suf @ r) (st\<lparr>literal_index := 1, pstate := P\<rparr>) =
    run_steps jnext r (after_value word
      (st\<lparr>literal_index := 1, pstate := P\<rparr>\<lparr>literal_index := length word\<rparr>))"
    by (rule literal_run [where pre = "[c]" and P = P]) (use assms in \<open>auto simp: jstep_def\<close>)
  then show ?thesis using assms(4,6) by simp
qed

lemma same_core_after [simp]:
  "same_core (after_value v (st\<lparr>pstate := p, literal_index := n\<rparr>)) (after_value v st)"
  "same_core (after_value v (st\<lparr>pstate := p, val_buffer := b\<rparr>)) (after_value v st)"
  "same_core (after_value v (st\<lparr>val_buffer := b, pstate := p\<rparr>)) (after_value v st)"
  by (simp_all add: same_core_def)

lemma scan_str:
  assumes "pstate st = STATE_VALUE_BEGIN" and "scalar_fits (SStr t)" and "key_ok st"
  shows "\<exists>st'. run_steps jnext (scalar_text (SStr t) @ r) st = run_steps jnext r st' \<and>
    same_core st' (after_value t st)"
proof -
  let ?s = "st\<lparr>val_buffer := [], pstate := STATE_VALUE_STRING\<rparr>"
  have "jnext CHR 0x22 st = Inr ?s"
    using assms(1) by (simp add: jnext_def jstep_def value_begin_def)
  then have "run_steps jnext (scalar_text (SStr t) @ r) st = run_steps jnext (t @ CHR 0x22 # r) ?s"
    by simp
  also have "\<dots> = run_steps jnext r (after_value (val_buffer ?s @ t) (?s\<lparr>val_buffer := val_buffer ?s @ t\<rparr>))"
    by (rule scan_string) (use assms in simp_all)
  finally have "run_steps jnext (scalar_text (SStr t) @ r) st =
      run_steps jnext r (after_value t (st\<lparr>pstate := STATE_VALUE_STRING, val_buffer := t\<rparr>))"
    by simp
  then show ?thesis using same_core_after(2) by blast
qed

lemma scan_num:
  assumes "pstate st = STATE_VALUE_BEGIN" and "key_ok st" and "stopper r" and "num = c # ds"
    and "isdigit c \<or> c = CHR ''-''" and "list_all (\<lambda>d. isdigit d \<or> d = CHR ''.'') ds" and "length num < 256"
    and number: "\<forall>s. val_buffer s = num \<longrightarrow> number_end s = emit Again v s"
  shows "\<exists>st'. run_steps jnext (num @ r) st = run_steps jnext r st' \<and> same_core st' (after_value v st)"
proof -
  obtain c' r' where r: "r = c' # r'" "\<not> isdigit c'" "c' \<noteq> CHR ''.''"
    using assms(3) by (cases r) (auto simp: stopper_def)
  let ?s = "st\<lparr>val_buffer := [c], pstate := STATE_VALUE_NUMBER\<rparr>"
  have all: "val_buffer ?s @ ds = num" by (simp add: assms(4))
  have "jnext c st = Inr ?s"
    using assms(1,5) isdigit_neq [of c] by (auto simp: jnext_def jstep_def value_begin_def)
  then have "run_steps jnext (num @ r) st = run_steps jnext (ds @ c' # r') ?s"
    by (simp add: assms(4) r)
  also have "\<dots> = run_steps jnext (c' # r') (after_value v (?s\<lparr>val_buffer := val_buffer ?s @ ds\<rparr>))"
  proof (rule scan_number [OF assms(6) _ _ _ r(2,3)])
    show "\<forall>s. val_buffer s = val_buffer ?s @ ds \<longrightarrow> number_end s = emit Again v s" unfolding all by (rule number)
    show "length (val_buffer ?s) + length ds < 256" using assms(4,7) by simp
  qed (use assms(2) in auto)
  finally have "run_steps jnext (num @ r) st =
      run_steps jnext r (after_value v (st\<lparr>pstate := STATE_VALUE_NUMBER, val_buffer := num\<rparr>))"
    unfolding all by (simp add: r)
  then show ?thesis using same_core_after(2) by blast
qed

lemma scan_int:
  assumes "pstate st = STATE_VALUE_BEGIN" and "int32 i" and "key_ok st" and "stopper r"
  shows "\<exists>st'. run_steps jnext (dec_int i @ r) st = run_steps jnext r st' \<and>
    same_core st' (after_value (dec_int i) st)"
proof -
  obtain c ds where d: "dec_int i = c # ds" "isdigit c \<or> c = CHR ''-''" "list_all isdigit ds"
    by (rule dec_int_scan)
  have "set (dec_int i) \<inter> {CHR ''.'', CHR ''e'', CHR ''E''} = {}"
    using dec_int_chars [of _ i] isdigit_neq(5-7) by fastforce
  then have "number_end s = emit Again (dec_int i) s" if "val_buffer s = dec_int i" for s
    using int32_digits [OF assms(2)] assms(2) by (auto simp: number_end_def that Let_def)
  moreover have "list_all (\<lambda>d. isdigit d \<or> d = CHR ''.'') ds" using d(3) by (simp add: list_all_iff)
  ultimately show ?thesis
    using int32_digits [OF assms(2)] by (intro scan_num [OF assms(1,3,4) d(1,2)]) auto
qed

lemma scan_decimal:
  assumes "pstate st = STATE_VALUE_BEGIN" and "scalar_fits (SDec neg i f)" and "key_ok st" and "stopper r"
  shows "\<exists>st'. run_steps jnext (decimal_text neg i f @ r) st = run_steps jnext r st' \<and>
    same_core st' (after_value (decimal_text neg i (hundredths f)) st)"
proof -
  have fits: "i < 131072" "list_all isdigit f" "length f \<le> 2" using assms(2) by simp_all
  obtain c ds where c: "dec_nat i = c # ds" by (cases "dec_nat i") auto
  have ds: "isdigit c" "list_all isdigit ds"
    using dec_nat_digits [of _ i] by (simp_all add: c list_all_iff)
  have "length (dec_nat i) \<le> 6" using fits(1) by (intro length_dec_nat) simp_all
  then have len: "length (decimal_text neg i f) < 256" using fits(3) by (simp add: decimal_text_def)
  have "number_end s = emit Again (decimal_text neg i (hundredths f)) s" if "val_buffer s = decimal_text neg i f" for s
  proof -
    have "\<not> 256 \<le> length (val_buffer s)" "CHR ''.'' \<in> set (val_buffer s)"
      using len by (simp_all add: that decimal_text_def)
    then show ?thesis using strtof_decimal [OF fits, of neg] by (simp add: number_end_def that)
  qed
  moreover have "list_all (\<lambda>d. isdigit d \<or> d = CHR ''.'') (tl (decimal_text neg i f))"
    using ds fits(2) by (auto simp: decimal_text_def c list_all_iff)
  moreover have "isdigit (hd (decimal_text neg i f)) \<or> hd (decimal_text neg i f) = CHR ''-''"
    using ds(1) by (simp add: decimal_text_def c)
  moreover have "decimal_text neg i f = hd (decimal_text neg i f) # tl (decimal_text neg i f)"
    by (simp add: decimal_text_def)
  ultimately show ?thesis using len by (intro scan_num [OF assms(1,3,4)]) auto
qed

lemma scan_scalar:
  assumes "pstate st = STATE_VALUE_BEGIN" and "scalar_fits s" and "key_ok st" and "stopper r"
  shows "\<exists>st'. run_steps jnext (scalar_text s @ r) st = run_steps jnext r st' \<and>
    same_core st' (after_value (scalar_out s) st)"
proof -
  have lit: "\<exists>st'. run_steps jnext (word @ r) st = run_steps jnext r st' \<and>
      same_core st' (after_value word st)"
    if "run_steps jnext (word @ r) st =
      run_steps jnext r (after_value word (st\<lparr>pstate := P, literal_index := n\<rparr>))" for P n word
    using that same_core_after(1) by blast
  have jn: "jnext CHR ''t'' st = Inr (st\<lparr>literal_index := 1, pstate := STATE_VALUE_TRUE\<rparr>)"
    "jnext CHR ''f'' st = Inr (st\<lparr>literal_index := 1, pstate := STATE_VALUE_FALSE\<rparr>)"
    "jnext CHR ''n'' st = Inr (st\<lparr>literal_index := 1, pstate := STATE_VALUE_NULL\<rparr>)"
    using assms(1) by (simp_all add: jnext_def jstep_def value_begin_def isdigit_def)
  show ?thesis
  proof (cases s)
    case (SStr t)
    then show ?thesis using scan_str [OF assms(1) _ assms(3)] assms(2) by simp
  next
    case (SInt i)
    then show ?thesis using scan_int [OF assms(1) _ assms(3,4)] assms(2) by simp
  next
    case (SDec neg i f)
    then show ?thesis using scan_decimal [OF assms(1) _ assms(3,4), of neg i f] assms(2) by simp
  next
    case STrue
    have "run_steps jnext (''true'' @ r) st = run_steps jnext r
        (after_value ''true'' (st\<lparr>pstate := STATE_VALUE_TRUE, literal_index := length ''true''\<rparr>))"
      by (rule scan_literal [where suf = "''rue''", OF _ _ assms(3) _ _ jn(1)]) simp_all
    then show ?thesis using lit STrue by simp
  next
    case SFalse
    have "run_steps jnext (''false'' @ r) st = run_steps jnext r
        (after_value ''false'' (st\<lparr>pstate := STATE_VALUE_FALSE, literal_index := length ''false''\<rparr>))"
      by (rule scan_literal [where suf = "''alse''", OF _ _ assms(3) _ _ jn(2)]) simp_all
    then show ?thesis using lit SFalse by simp
  next
    case SNull
    have "run_steps jnext (''null'' @ r) st = run_steps jnext r
        (after_value ''null'' (st\<lparr>pstate := STATE_VALUE_NULL, literal_index := length ''null''\<rparr>))"
      by (rule scan_literal [where suf = "''ull''", OF _ _ assms(3) _ _ jn(3)]) simp_all
    then show ?thesis using lit SNull by simp
  qed
qed

section \<open>Arrays, objects, members\<close>

definition val_post :: "jparse \<Rightarrow> bool \<Rightarrow> string \<Rightarrow> jparse \<Rightarrow> bool" where
  "val_post st arr out st' \<longleftrightarrow> pstate st' = STATE_VALUE_END \<and> key_stack st' = key_stack st \<and>
     in_array st' = arr \<and> jout st' = jout st @ out \<and> jerr st' = jerr st"

definition closer :: "string \<Rightarrow> bool" where
  "closer r \<longleftrightarrow> r \<noteq> [] \<and> hd r \<in> {CHR '','', CHR ''}'', CHR '']''}"

lemma closer_Cons [simp]: "closer (c # r) \<longleftrightarrow> c \<in> {CHR '','', CHR ''}'', CHR '']''}"
  by (simp add: closer_def)

lemma stopper_ws:
  assumes "ws w" and "closer r"
  shows "stopper (w @ r)"
proof (cases w)
  case Nil
  then show ?thesis using assms(2) by (auto simp: stopper_def closer_def isdigit_def)
next
  case (Cons c w')
  then show ?thesis using assms(1) by (auto simp: stopper_def ws_def isdigit_def)
qed

lemma arr_key_name:
  assumes "in_array st" and "key_stack st = S @ [k]" and "length k < 256" and "array_index st < 2147483647"
  shows "key_ok st" and "key_name st = k @ ''['' @ dec_nat (array_index st) @ '']''"
proof -
  show "key_ok st" using assms by (simp add: key_ok_def)
  have "length (dec_nat (array_index st)) \<le> 10" using assms(4) by (intro length_dec_nat) simp_all
  then show "key_name st = k @ ''['' @ dec_nat (array_index st) @ '']''"
    using assms by (simp add: key_name_def)
qed

lemma scan_elem:
  assumes "pstate st = STATE_VALUE_BEGIN" and "scalar_fits s" and "ws w" and "ws w'" and "closer r"
    and "in_array st" and "key_stack st = S @ [k]" and "length k < 256" and "array_index st < 2147483647"
  shows "\<exists>st'. run_steps jnext (w @ scalar_text s @ w' @ r) st = run_steps jnext r st' \<and>
    val_post st True (key_line (k @ ''['' @ dec_nat (array_index st) @ '']'') (scalar_out s)) st' \<and>
    array_index st' = Suc (array_index st)"
proof -
  note key = arr_key_name [OF assms(6-9)]
  obtain st' where r: "run_steps jnext (scalar_text s @ w' @ r) st = run_steps jnext (w' @ r) st'"
    and c: "same_core st' (after_value (scalar_out s) st)"
    using scan_scalar [OF assms(1,2) key(1) stopper_ws [OF assms(4,5)]] by blast
  have "pstate st' = STATE_VALUE_END" using c by (simp add: same_core_def)
  then have "run_steps jnext (w @ scalar_text s @ w' @ r) st = run_steps jnext r st'"
    using r skip_ws [OF assms(3), of st] skip_ws [OF assms(4), of st'] assms(1) by simp
  then show ?thesis using c assms(6) key(2) by (auto simp: same_core_def val_post_def)
qed

lemma scan_elems:
  assumes "elems ss t" and "pstate st = STATE_VALUE_BEGIN" and "in_array st"
    and "key_stack st = S @ [k]" and "length k < 256" and "list_all scalar_fits ss"
    and "array_index st + length ss \<le> 2147483647"
  shows "\<exists>st'. run_steps jnext (t @ CHR '']'' # r) st = run_steps jnext (CHR '']'' # r) st' \<and>
    val_post st True (arr_lines k (array_index st) ss) st'"
  using assms
proof (induction arbitrary: st)
  case (elem w w' s)
  then show ?case
    using scan_elem [of st s w w' "CHR '']'' # r" S k] by auto
next
  case (elem_more w w' ss t s)
  obtain s1 where s1: "run_steps jnext (w @ scalar_text s @ w' @ CHR '','' # t @ CHR '']'' # r) st =
      run_steps jnext (CHR '','' # t @ CHR '']'' # r) s1"
    and p1: "val_post st True (key_line (k @ ''['' @ dec_nat (array_index st) @ '']'') (scalar_out s)) s1"
    and i1: "array_index s1 = Suc (array_index st)"
    using scan_elem [of st s w w' "CHR '','' # t @ CHR '']'' # r" S k] elem_more.prems elem_more.hyps
    by auto
  let ?s2 = "s1\<lparr>pstate := STATE_VALUE_BEGIN\<rparr>"
  have "jnext CHR '','' s1 = Inr ?s2"
    using p1 by (simp add: val_post_def jnext_def jstep_def value_end_def)
  moreover obtain s3 where "run_steps jnext (t @ CHR '']'' # r) ?s2 = run_steps jnext (CHR '']'' # r) s3"
      "val_post ?s2 True (arr_lines k (array_index ?s2) ss) s3"
    using elem_more.IH [of ?s2] elem_more.prems p1 i1 by (auto simp: val_post_def)
  ultimately show ?case using s1 p1 i1 by (auto simp: val_post_def)
qed

lemma scan_arr:
  assumes "elems (s # ss) t" and "pstate st = STATE_VALUE_BEGIN" and "key_stack st = S"
    and "key_buffer st = k" and "key_fits k" and "jv_fits S k (Arr s ss)"
  shows "\<exists>st'. run_steps jnext ((CHR ''['' # t @ '']'') @ r) st = run_steps jnext r st' \<and>
    val_post st False (arr_lines k 0 (s # ss)) st'"
proof -
  let ?s1 = "st\<lparr>in_array := True, array_index := 0, key_stack := S @ [k], pstate := STATE_VALUE_BEGIN\<rparr>"
  have 1: "jnext CHR ''['' st = Inr ?s1"
    using assms by (simp add: jnext_def jstep_def value_begin_def push_key_def)
  obtain s2 where 2: "run_steps jnext (t @ CHR '']'' # r) ?s1 = run_steps jnext (CHR '']'' # r) s2"
    and p: "val_post ?s1 True (arr_lines k (array_index ?s1) (s # ss)) s2"
    using scan_elems [OF assms(1), of ?s1 S k r] assms(5,6) by (auto simp: key_fits_def)
  let ?s3 = "s2\<lparr>key_stack := S, in_array := False, pstate := STATE_VALUE_END\<rparr>"
  have "jnext CHR '']'' s2 = Inr ?s3"
    using p by (simp add: val_post_def jnext_def jstep_def value_end_def)
  then show ?thesis using 1 2 p assms(3) by (auto simp: val_post_def)
qed

text \<open>A value is read from its first character, members from the first quote of a key on.\<close>

definition value_reads :: "jv \<Rightarrow> string \<Rightarrow> bool" where
  "value_reads v t \<longleftrightarrow> (\<forall>S k st r. jv_fits S k v \<longrightarrow> key_fits k \<longrightarrow> pstate st = STATE_VALUE_BEGIN \<longrightarrow>
     key_stack st = S \<longrightarrow> key_buffer st = k \<longrightarrow> \<not> in_array st \<longrightarrow> stopper r \<longrightarrow>
     (\<exists>st'. run_steps jnext (t @ r) st = run_steps jnext r st' \<and> val_post st False (jv_lines S k v) st'))"

definition mems_read :: "jms \<Rightarrow> string \<Rightarrow> bool" where
  "mems_read ms t \<longleftrightarrow> (\<forall>S st r. jms_fits S ms \<longrightarrow> pstate st = STATE_KEY_BEGIN \<longrightarrow>
     key_stack st = S \<longrightarrow> \<not> in_array st \<longrightarrow> closer r \<longrightarrow>
     (\<exists>st'. run_steps jnext (t @ r) st = run_steps jnext r st' \<and> val_post st False (jms_lines S ms) st'))"

lemma value_reads_scalar: "value_reads (Scalar s) (scalar_text s)"
  unfolding value_reads_def
proof (intro allI impI)
  fix S k r and st :: jparse
  assume a: "jv_fits S k (Scalar s)" "pstate st = STATE_VALUE_BEGIN" "key_stack st = S"
    "key_buffer st = k" "\<not> in_array st" "stopper r"
  then have "key_ok st" "key_name st = get_key S k" by (simp_all add: key_ok_def key_name_def)
  then show "\<exists>st'. run_steps jnext (scalar_text s @ r) st = run_steps jnext r st' \<and>
      val_post st False (jv_lines S k (Scalar s)) st'"
    using scan_scalar [OF a(2) _ _ a(6), of s] a by (auto simp: val_post_def same_core_def)
qed

lemma value_reads_arr: "elems (s # ss) t \<Longrightarrow> value_reads (Arr s ss) (CHR ''['' # t @ '']'')"
  unfolding value_reads_def
  by (intro allI impI) (simp only: jv_lines.simps scan_arr)

lemma value_reads_obj:
  assumes "mems_read ms t"
  shows "value_reads (Obj ms) (CHR ''{'' # t @ ''}'')"
  unfolding value_reads_def
proof (intro allI impI)
  fix S k r and st :: jparse
  assume a: "jv_fits S k (Obj ms)" "pstate st = STATE_VALUE_BEGIN" "key_stack st = S"
    "key_buffer st = k" "\<not> in_array st"
  let ?s1 = "st\<lparr>key_stack := S @ [k], pstate := STATE_KEY_BEGIN\<rparr>"
  have 1: "jnext CHR ''{'' st = Inr ?s1"
    using a by (simp add: jnext_def jstep_def value_begin_def push_key_def)
  obtain s2 where 2: "run_steps jnext (t @ CHR ''}'' # r) ?s1 = run_steps jnext (CHR ''}'' # r) s2"
    and p: "val_post ?s1 False (jms_lines (S @ [k]) ms) s2"
    using assms [unfolded mems_read_def, rule_format, of "S @ [k]" ?s1 "CHR ''}'' # r"] a by auto
  have "jnext CHR ''}'' s2 = Inr (s2\<lparr>key_stack := S, pstate := STATE_VALUE_END\<rparr>)"
    using p by (simp add: val_post_def jnext_def jstep_def value_end_def)
  then show "\<exists>st'. run_steps jnext ((CHR ''{'' # t @ ''}'') @ r) st = run_steps jnext r st' \<and>
      val_post st False (jv_lines S k (Obj ms)) st'"
    using 1 2 p a(3) by (auto simp: val_post_def)
qed

lemma read_member:
  assumes v: "value_reads v t" and w: "ws w1" "ws w2" "ws w3" "ws w4"
    and st: "pstate st = STATE_KEY_BEGIN" "\<not> in_array st" "closer r"
    and f: "key_fits k" "jv_fits (key_stack st) k v"
  shows "\<exists>st'. run_steps jnext (w1 @ CHR 0x22 # k @ CHR 0x22 # w2 @ CHR '':'' # w3 @ t @ w4 @ r) st =
    run_steps jnext r st' \<and> val_post st False (jv_lines (key_stack st) k v) st'"
proof -
  let ?s1 = "st\<lparr>key_buffer := [], pstate := STATE_KEY\<rparr>"
  let ?s2 = "?s1\<lparr>key_buffer := key_buffer ?s1 @ k, pstate := STATE_KEY_END\<rparr>"
  let ?s3 = "?s2\<lparr>pstate := STATE_VALUE_BEGIN\<rparr>"
  have 1: "jnext CHR 0x22 st = Inr ?s1" and 2: "jnext CHR '':'' ?s2 = Inr ?s3"
    using st(1) by (simp_all add: jnext_def jstep_def)
  obtain s4 where 4: "run_steps jnext (t @ w4 @ r) ?s3 = run_steps jnext (w4 @ r) s4"
    and p: "val_post ?s3 False (jv_lines (key_stack st) k v) s4"
    using v [unfolded value_reads_def, rule_format, of "key_stack st" k ?s3 "w4 @ r"]
      f st(2) stopper_ws [OF w(4) st(3)] by auto
  have "run_steps jnext (w1 @ CHR 0x22 # k @ CHR 0x22 # w2 @ CHR '':'' # w3 @ t @ w4 @ r) st =
      run_steps jnext (k @ CHR 0x22 # w2 @ CHR '':'' # w3 @ t @ w4 @ r) ?s1"
    using skip_ws [OF w(1), of st] st(1) 1 by simp
  also have "\<dots> = run_steps jnext (w2 @ CHR '':'' # w3 @ t @ w4 @ r) ?s2"
    by (rule scan_key) (use f(1) in \<open>simp_all add: key_fits_def\<close>)
  also have "\<dots> = run_steps jnext (w3 @ t @ w4 @ r) ?s3"
    using skip_ws [OF w(2), of ?s2] 2 by simp
  also have "\<dots> = run_steps jnext (w4 @ r) s4"
    using skip_ws [OF w(3), of ?s3] 4 by simp
  also have "\<dots> = run_steps jnext r s4"
    using skip_ws [OF w(4), of s4] p by (simp add: val_post_def)
  finally show ?thesis using p by (auto simp: val_post_def)
qed

lemma jtext_reads: "jtext v t \<Longrightarrow> value_reads v t" and mems_reads: "mems ms t \<Longrightarrow> mems_read ms t"
proof (induction rule: jtext_mems.inducts)
  case (scalar s)
  then show ?case by (rule value_reads_scalar)
next
  case (arr s ss t)
  then show ?case by (rule value_reads_arr)
next
  case (obj ms t)
  then show ?case by (simp add: value_reads_obj)
next
  case (mem w1 w2 w3 w4 v t k)
  show ?case
    unfolding mems_read_def
    using read_member [OF mem.IH mem.hyps(1-4)] by fastforce
next
  case (mem_more w1 w2 w3 w4 v t ms t' k)
  show ?case
    unfolding mems_read_def
  proof (intro allI impI)
    fix S r and st :: jparse
    assume a: "jms_fits S (More k v ms)" "pstate st = STATE_KEY_BEGIN" "key_stack st = S"
      "\<not> in_array st" "closer r"
    obtain s1 where 1: "run_steps jnext (w1 @ CHR 0x22 # k @ CHR 0x22 # w2 @ CHR '':'' # w3 @ t @ w4 @
        CHR '','' # t' @ r) st = run_steps jnext (CHR '','' # t' @ r) s1"
      and p1: "val_post st False (jv_lines S k v) s1"
      using read_member [OF mem_more.IH(1) mem_more.hyps(1-4), of st "CHR '','' # t' @ r" k] a by auto
    let ?s2 = "s1\<lparr>pstate := STATE_KEY_BEGIN\<rparr>"
    have 2: "jnext CHR '','' s1 = Inr ?s2"
      using p1 by (simp add: val_post_def jnext_def jstep_def value_end_def)
    obtain s3 where "run_steps jnext (t' @ r) ?s2 = run_steps jnext r s3"
        "val_post ?s2 False (jms_lines S ms) s3"
      using mem_more.IH(2) [unfolded mems_read_def, rule_format, of S ?s2 r] a p1
      by (auto simp: val_post_def)
    then show "\<exists>st'. run_steps jnext ((w1 @ CHR 0x22 # k @ CHR 0x22 # w2 @ CHR '':'' # w3 @ t @ w4 @
        CHR '','' # t') @ r) st = run_steps jnext r st' \<and> val_post st False (jms_lines S (More k v ms)) st'"
      using 1 2 p1 by (auto simp: val_post_def)
  qed
qed

end
