(* ===== verification/JsonProps.thy ===== *)
theory JsonProps
  imports JsonSpec
begin

text \<open>
  The properties of \<^verbatim>\<open>json-parser/jparse.c\<close>: what it prints for the objects of the grammar, the
  invariant of its buffers, and how it ends on what it cannot take.
\<close>

section \<open>Whole files\<close>

lemma json_main_pass:
  assumes "NUL \<notin> set content"
  shows "json_main (Some content) = (case run_steps jnext content jparse_init of
      Inl (JFault e) \<Rightarrow> Inl e | Inl (JReturn c st) \<Rightarrow> Inr (c, st) | Inr st \<Rightarrow> Inr (0, st))"
  by (simp add: json_main_def json_lines_pass [OF assms])

definition json_start :: jparse where
  "json_start = jparse_init\<lparr>pstate := STATE_KEY_BEGIN\<rparr>"

lemma json_start_sel [simp]:
  "pstate json_start = STATE_KEY_BEGIN" "key_stack json_start = []" "in_array json_start = False"
  "jout json_start = []" "jerr json_start = []"
  by (simp_all add: json_start_def jparse_init_def)

lemma json_open:
  assumes "ws w"
  shows "run_steps jnext (w @ CHR ''{'' # r) jparse_init = run_steps jnext r json_start"
proof -
  have "pstate jparse_init = STATE_START" by (simp add: jparse_init_def)
  moreover from this have "jnext CHR ''{'' jparse_init = Inr json_start"
    by (simp add: jnext_def jstep_def json_start_def)
  ultimately show ?thesis using skip_ws [OF assms, of jparse_init] by simp
qed

lemma json_close:
  assumes "val_post json_start False out st" and "ws w"
  shows "run_steps jnext (CHR ''}'' # w) st = Inr (st\<lparr>pstate := STATE_DONE\<rparr>)"
proof -
  let ?s = "st\<lparr>pstate := STATE_DONE\<rparr>"
  have "jnext CHR ''}'' st = Inr ?s"
    using assms(1) by (simp add: val_post_def jnext_def jstep_def value_end_def)
  then show ?thesis using skip_ws [OF assms(2), of ?s "[]"] by simp
qed

text \<open>
  C12: The parser's output: for every file that is an object of the grammar (strings, integers, decimals
  of at most two fraction digits, literals, arrays of scalars, nested non-empty objects, any white space)
  within the parser's limits, it returns 0, prints one line for each scalar in the order of the file, and
  reports no error, wherever the 512-byte reads cut the file. A scalar outside arrays is printed under
  its dotted key; an element of an array only under the array's own key and its index, without the keys
  of the enclosing objects. So the output is what the README documents (fully qualified keys throughout)
  exactly when no array stands inside a nested object.
\<close>

theorem json_prints_object:
  assumes "mems ms t" and "jms_fits [] ms" and "ws w" and "ws w'" and "NUL \<notin> set t"
  shows "\<exists>st. json_main (Some (w @ CHR ''{'' # t @ CHR ''}'' # w')) = Inr (0, st) \<and>
    jout st = jms_lines [] ms \<and> (jout st = jms_documented [] ms \<longleftrightarrow> jms_outer_arrays [] ms) \<and>
    jerr st = [] \<and> pstate st = STATE_DONE"
proof -
  have n: "NUL \<notin> set (w @ CHR ''{'' # t @ CHR ''}'' # w')"
    using assms(3-5) by (auto simp: ws_def)
  obtain st where r: "run_steps jnext (t @ CHR ''}'' # w') json_start =
      run_steps jnext (CHR ''}'' # w') st"
    and p: "val_post json_start False (jms_lines [] ms) st"
    using mems_reads [OF assms(1), unfolded mems_read_def, rule_format, of "[]" json_start
        "CHR ''}'' # w'"] assms(2) by auto
  show ?thesis
    using json_main_pass [OF n] json_open [OF assms(3)] r json_close [OF p assms(4)] p
    by (simp add: val_post_def documented_iff)
qed

theorem json_prints_object_witness:
  \<open>\<exists>st. json_main (Some ''{"u": {"name": "Al"},"t": ["x", -2.5],"ok": true}'') = Inr (0, st) \<and>
    jout st = ''Key: u.name, Value: Al'' @ [NL] @ ''Key: t[0], Value: x'' @ [NL] @
      ''Key: t[1], Value: -2.50'' @ [NL] @ ''Key: ok, Value: true'' @ [NL]\<close>
proof -
  let ?u = "Obj (One ''name'' (Scalar (SStr ''Al'')))"
  let ?t = "Arr (SStr ''x'') [SDec True 2 ''5'']"
  have w: "ws []" "ws '' ''" by (simp_all add: ws_def)
  have d: "decimal_text True 2 f = ''-2.'' @ f" for f by (simp add: decimal_text_def dec_nat.simps digit_simps)
  have u: \<open>jtext ?u ''{"name": "Al"}''\<close>
    using obj [OF mem [OF w(1,1,2,1) scalar [of "SStr ''Al''"]], of "''name''"] by simp
  have a: \<open>jtext ?t ''["x", -2.5]''\<close>
    using arr [OF elem_more [OF w(1,1) elem [OF w(2,1), of "SDec True 2 ''5''"], of "SStr ''x''"]]
    by (simp add: d)
  have m: \<open>mems (More ''u'' ?u (More ''t'' ?t (One ''ok'' (Scalar STrue))))
      ''"u": {"name": "Al"},"t": ["x", -2.5],"ok": true''\<close>
    using mem_more [OF w(1,1,2,1) u mem_more [OF w(1,1,2,1) a
        mem [OF w(1,1,2,1) scalar [of STrue], of "''ok''"], of "''t''"], of "''u''"] by simp
  show ?thesis
    using json_prints_object [OF m _ w(1,1)]
    by (auto simp: key_fits_def int32_def get_key_def key_line_def dec_nat.simps digit_simps d
        hundredths_def isdigit_def)
qed

section \<open>The parser's buffers\<close>

definition jinv :: "jparse \<Rightarrow> bool" where
  "jinv st \<longleftrightarrow> length (key_buffer st) \<le> 256 \<and> length (val_buffer st) \<le> 256 \<and>
     (pstate st \<noteq> STATE_KEY \<longrightarrow> length (key_buffer st) < 256) \<and>
     length (key_stack st) \<le> 10 \<and> list_all (\<lambda>k. length k < 256) (key_stack st) \<and>
     array_index st \<le> 2147483647 \<and>
     (pstate st = STATE_VALUE_NUMBER \<longrightarrow> CHR ''e'' \<notin> set (val_buffer st) \<and> CHR ''E'' \<notin> set (val_buffer st))"

definition jstops :: "jstop \<Rightarrow> bool" where
  "jstops e \<longleftrightarrow> (case e of JFault f \<Rightarrow> f \<in> {Out_Of_Bounds, Signed_Overflow}
     | JReturn c st \<Rightarrow> c = 1 \<and> length (jerr st) = 1 \<and> jinv st)"

definition jquiet :: "jparse \<Rightarrow> bool" where
  "jquiet st \<longleftrightarrow> jinv st \<and> jerr st = []"

lemma emit_jquiet:
  assumes "jquiet st" and "pstate st \<noteq> STATE_KEY"
  shows "case emit ctl v st of Inl f \<Rightarrow> f \<in> {Out_Of_Bounds, Signed_Overflow}
    | Inr (c, st') \<Rightarrow> c = ctl \<and> jquiet st' \<and> pstate st' = STATE_VALUE_END"
  using assms by (auto simp: emit_def full_key_def jquiet_def jinv_def Let_def)

lemma list_all_butlast: "list_all P xs \<Longrightarrow> list_all P (butlast xs)"
  by (auto simp: list_all_iff dest: in_set_butlastD)

definition jstep_good :: "(jctl \<times> jparse) outcome \<Rightarrow> bool" where
  "jstep_good r \<longleftrightarrow> (case r of Inl f \<Rightarrow> f \<in> {Out_Of_Bounds, Signed_Overflow}
     | Inr (Return_1, st') \<Rightarrow> jinv st' \<and> length (jerr st') = 1
     | Inr (Again, st') \<Rightarrow> jquiet st' \<and> pstate st' = STATE_VALUE_END
     | Inr (Advance, st') \<Rightarrow> jquiet st')"

lemma jstep_good_simps [simp]:
  "jstep_good (Inl f) \<longleftrightarrow> f \<in> {Out_Of_Bounds, Signed_Overflow}"
  "jstep_good (Inr (Return_1, st)) \<longleftrightarrow> jinv st \<and> length (jerr st) = 1"
  "jstep_good (Inr (Again, st)) \<longleftrightarrow> jquiet st \<and> pstate st = STATE_VALUE_END"
  "jstep_good (Inr (Advance, st)) \<longleftrightarrow> jquiet st"
  by (simp_all add: jstep_good_def)

lemma emit_good:
  assumes "jquiet st" and "pstate st \<noteq> STATE_KEY" and "ctl \<noteq> Return_1"
  shows "jstep_good (emit ctl v st)"
  using emit_jquiet [OF assms(1,2), of ctl v] assms(3)
  by (cases ctl) (auto split: sum.splits)

lemma literal_good:
  assumes "jquiet st" and "pstate st \<in> {STATE_VALUE_TRUE, STATE_VALUE_FALSE, STATE_VALUE_NULL}"
  shows "jstep_good (literal_step word ch st)"
proof -
  have "jquiet (st\<lparr>literal_index := n\<rparr>)" for n
    using assms by (auto simp: jquiet_def jinv_def)
  then show ?thesis
    using assms by (auto simp: literal_step_def Let_def jquiet_def jinv_def intro!: emit_good)
qed

lemma number_good:
  assumes "jquiet st" and "pstate st = STATE_VALUE_NUMBER"
  shows "jstep_good (number_end st)"
  using assms by (auto simp: number_end_def Let_def intro!: emit_good)

lemma jquiet_frame:
  assumes "jquiet st" and "pstate st \<noteq> STATE_KEY" and "p \<noteq> STATE_VALUE_NUMBER"
  shows "jquiet (st\<lparr>pstate := p\<rparr>)" and "jquiet (st\<lparr>literal_index := n, pstate := p\<rparr>)"
    and "length b \<le> 256 \<Longrightarrow> jquiet (st\<lparr>val_buffer := b, pstate := p\<rparr>)"
  using assms by (simp_all add: jquiet_def jinv_def)

lemma push_key_good:
  assumes "jquiet st" and "pstate st \<noteq> STATE_KEY" and "p \<noteq> STATE_VALUE_NUMBER"
  shows "jstep_good (map_sum id (\<lambda>st. (Advance, st\<lparr>pstate := p\<rparr>)) (push_key st))"
  using assms by (simp add: push_key_def jquiet_def jinv_def)

lemma push_val_good:
  assumes "jquiet st" and "pstate st = STATE_VALUE_STRING \<or> pstate st = STATE_VALUE_NUMBER \<and> ch \<noteq> CHR ''e'' \<and> ch \<noteq> CHR ''E''"
  shows "jstep_good (map_sum id (Pair Advance) (push_val ch st))"
  using assms by (auto simp: push_val_def jquiet_def jinv_def)

lemma value_begin_good:
  assumes "jquiet st" and "pstate st = STATE_VALUE_BEGIN"
  shows "jstep_good (value_begin ch st)"
proof -
  have "jquiet (st\<lparr>in_array := True, array_index := 0\<rparr>)"
    using assms by (simp add: jquiet_def jinv_def)
  then have "jstep_good (map_sum id (\<lambda>st. (Advance, st\<lparr>pstate := STATE_VALUE_BEGIN\<rparr>))
      (push_key (st\<lparr>in_array := True, array_index := 0\<rparr>)))"
    by (rule push_key_good) (simp_all add: assms(2))
  moreover have "jquiet (st\<lparr>val_buffer := [ch], pstate := STATE_VALUE_NUMBER\<rparr>)"
    if "isdigit ch \<or> ch = CHR ''-'' \<or> ch = CHR ''.''"
    using that assms isdigit_neq(6,7) [of ch] by (auto simp: jquiet_def jinv_def)
  ultimately show ?thesis
    using assms jquiet_frame [OF assms(1)] push_key_good [OF assms(1)]
    by (simp add: value_begin_def)
qed

lemma value_end_quiet:
  assumes "jquiet st" and "pstate st = STATE_VALUE_END"
  shows "jquiet (value_end ch st)"
  using assms by (auto simp: value_end_def jquiet_def jinv_def list_all_butlast)

lemma jstep_jquiet:
  assumes "jquiet st"
  shows "jstep_good (jstep ch st)"
proof (cases "pstate st")
  case STATE_VALUE_STRING
  then show ?thesis
    using assms emit_good [of st Advance] push_val_good [of st ch] by (simp add: jstep_def)
next
  case STATE_VALUE_NUMBER
  then show ?thesis
    using assms number_good [of st] isdigit_neq(6,7) [of ch] push_val_good [of st ch]
    by (auto simp: jstep_def)
next
  case STATE_KEY
  then show ?thesis using assms by (auto simp: jstep_def jquiet_def jinv_def)
next
  case STATE_KEY_BEGIN
  then show ?thesis using assms by (auto simp: jstep_def jquiet_def jinv_def)
qed (use assms literal_good [of st] value_begin_good [of st] value_end_quiet [of st]
    jquiet_frame(1) [of st] in \<open>simp_all add: jstep_def\<close>)

lemma jnext_jquiet:
  assumes "jquiet st"
  shows "case jnext ch st of Inl e \<Rightarrow> jstops e | Inr st' \<Rightarrow> jquiet st'"
proof -
  note g = jstep_jquiet [OF assms, of ch]
  show ?thesis
  proof (cases "jstep ch st")
    case (Inl f)
    then show ?thesis using g by (simp add: jnext_def jstops_def)
  next
    case (Inr r)
    obtain ctl s where r: "r = (ctl, s)" by (cases r)
    show ?thesis
    proof (cases ctl)
      case Again
      then have "jquiet s" "jstep ch s = Inr (Advance, value_end ch s)"
        using g Inr r by (auto simp: jstep_def)
      then show ?thesis using g Inr r Again value_end_quiet [of s ch] by (simp add: jnext_def)
    qed (use g Inr r in \<open>simp_all add: jnext_def jstops_def\<close>)
  qed
qed

interpretation jchar: step_machine jnext jquiet jstops
  by unfold_locales (metis jnext_jquiet sum.case)+

interpretation jline: step_machine json_line jquiet jstops
  by unfold_locales (unfold json_line_def, erule (1) jchar.run_inv, erule (1) jchar.run_stops)

text \<open>
  Whatever the file holds, the run either stops at a fault or returns 0 with nothing on \<^verbatim>\<open>stderr\<close> or 1
  with one message there; a number in progress has no exponent character, so the exponent test of the
  number state never decides anything.
\<close>

lemma json_buffers:
  "case json_main f of
     Inl e \<Rightarrow> e \<in> {Null_Deref, Out_Of_Bounds, Signed_Overflow}
   | Inr (c, st) \<Rightarrow> jinv st \<and> (c = 0 \<and> jerr st = [] \<or> c = 1 \<and> length (jerr st) = 1)"
proof (cases f)
  case None
  then show ?thesis by (simp add: json_main_def)
next
  case (Some content)
  have i: "jquiet jparse_init" by (simp add: jquiet_def jinv_def jparse_init_def)
  show ?thesis
  proof (cases "run_steps json_line (fgets_all 512 content) jparse_init")
    case (Inl e)
    then show ?thesis
      using Some jline.run_stops [OF i Inl]
      by (cases e) (auto simp: json_main_def jstops_def)
  next
    case (Inr st)
    then show ?thesis
      using Some jline.run_inv [OF i Inr] by (simp add: json_main_def jquiet_def)
  qed
qed

section \<open>What the parser does not take\<close>

text \<open>The state after \<open>{"k":\<close>, and the run up to it.\<close>

definition at_value :: "string \<Rightarrow> jparse" where
  "at_value k = json_start\<lparr>key_buffer := k, pstate := STATE_VALUE_BEGIN\<rparr>"

lemma at_value_sel [simp]:
  "pstate (at_value k) = STATE_VALUE_BEGIN" "key_buffer (at_value k) = k" "key_stack (at_value k) = []"
  "in_array (at_value k) = False" "jout (at_value k) = []" "jerr (at_value k) = []"
  by (simp_all add: at_value_def)

lemma read_to_value:
  assumes "key_fits k" and "pstate st = STATE_KEY_BEGIN"
  shows "run_steps jnext (CHR 0x22 # k @ CHR 0x22 # CHR '':'' # r) st =
    run_steps jnext r (st\<lparr>key_buffer := k, pstate := STATE_VALUE_BEGIN\<rparr>)"
proof -
  let ?s1 = "st\<lparr>key_buffer := [], pstate := STATE_KEY\<rparr>"
  let ?s2 = "?s1\<lparr>key_buffer := key_buffer ?s1 @ k, pstate := STATE_KEY_END\<rparr>"
  have 1: "jnext CHR 0x22 st = Inr ?s1"
    and 2: "jnext CHR '':'' ?s2 = Inr (?s2\<lparr>pstate := STATE_VALUE_BEGIN\<rparr>)"
    using assms(2) by (simp_all add: jnext_def jstep_def)
  have "run_steps jnext (k @ CHR 0x22 # CHR '':'' # r) ?s1 = run_steps jnext (CHR '':'' # r) ?s2"
    by (rule scan_key) (use assms(1) in \<open>simp_all add: key_fits_def\<close>)
  then show ?thesis using 1 2 by simp
qed

lemma json_to_value:
  assumes "key_fits k"
  shows "run_steps jnext (CHR ''{'' # CHR 0x22 # k @ CHR 0x22 # CHR '':'' # r) jparse_init =
    run_steps jnext r (at_value k)"
  using json_open [of "[]"] read_to_value [OF assms, of json_start] by (simp add: ws_def at_value_def)

lemma literal_prefix:
  assumes "\<And>ch s. jstep_at P ch s = literal_step word ch s" and "pstate st = P"
    and "word = p @ q @ s" and "s \<noteq> []" and "literal_index st = length p"
  shows "run_steps jnext (q @ r) st = run_steps jnext r (st\<lparr>literal_index := length (p @ q)\<rparr>)"
  using assms(2-)
proof (induction q arbitrary: st p)
  case Nil
  have "st\<lparr>literal_index := length p\<rparr> = st"
    unfolding Nil(4) [symmetric] by (cases st) simp
  then show ?case by (simp only: append_Nil append_Nil2)
next
  case (Cons c q)
  let ?st1 = "st\<lparr>literal_index := length (p @ [c])\<rparr>"
  have "literal_index st < length word" "word ! literal_index st = c"
    "Suc (literal_index st) \<noteq> length word"
    using Cons.prems by auto
  then have "jnext c st = Inr ?st1"
    using Cons.prems(1,4) assms(1) by (simp add: jnext_def jstep_def literal_step_def Let_def)
  then show ?case
    using Cons.IH [of ?st1 "p @ [c]"] Cons.prems by simp
qed

definition literal_word :: "string \<Rightarrow> bool" where
  "literal_word word \<longleftrightarrow> word \<in> {''true'', ''false'', ''null''}"

definition literal_error :: "string \<Rightarrow> char \<Rightarrow> string" where
  "literal_error word c =
     ''Error: Invalid character '' @ [CHR 0x27, c, CHR 0x27] @ '' in '' @ [CHR 0x27] @ word @ [CHR 0x27]"

lemma literal_first:
  assumes "literal_word (c # suf)" and "pstate st = STATE_VALUE_BEGIN"
  obtains P where "\<And>ch s. jstep_at P ch s = literal_step (c # suf) ch s"
    and "jnext c st = Inr (st\<lparr>literal_index := 1, pstate := P\<rparr>)"
proof -
  have n: "\<not> isdigit CHR ''t''" "\<not> isdigit CHR ''f''" "\<not> isdigit CHR ''n''"
    by (simp_all add: isdigit_def)
  consider "c # suf = ''true''" | "c # suf = ''false''" | "c # suf = ''null''"
    using assms(1) by (auto simp: literal_word_def)
  then show thesis
  proof cases
    case 1
    show thesis
      by (rule that [of STATE_VALUE_TRUE])
        (use 1 assms(2) n in \<open>simp_all add: jnext_def jstep_def value_begin_def\<close>)
  next
    case 2
    show thesis
      by (rule that [of STATE_VALUE_FALSE])
        (use 2 assms(2) n in \<open>simp_all add: jnext_def jstep_def value_begin_def\<close>)
  next
    case 3
    show thesis
      by (rule that [of STATE_VALUE_NULL])
        (use 3 assms(2) n in \<open>simp_all add: jnext_def jstep_def value_begin_def\<close>)
  qed
qed

text \<open>
  A misspelt literal ends the program: if the first value starts as \<^verbatim>\<open>true\<close>, \<^verbatim>\<open>false\<close> or
  \<^verbatim>\<open>null\<close> but departs from the word before its end, the program prints nothing, reports the offending
  character with the word it was expected in, and returns 1, whatever follows.
\<close>

theorem json_literal_error:
  assumes "key_fits k" and "literal_word (p @ s)" and "p \<noteq> []" and "s \<noteq> []" and "c \<noteq> hd s"
    and "NUL \<notin> set (k @ c # r)"
  shows "\<exists>st. json_main (Some (CHR ''{'' # CHR 0x22 # k @ CHR 0x22 # CHR '':'' # p @ c # r)) = Inr (1, st) \<and>
    jout st = [] \<and> jerr st = [literal_error (p @ s) c]"
proof -
  obtain d q where p: "p = d # q" using assms(3) by (cases p) auto
  have n: "NUL \<notin> set (CHR ''{'' # CHR 0x22 # k @ CHR 0x22 # CHR '':'' # p @ c # r)"
  proof -
    have "NUL \<notin> set w" if "literal_word w" for w using that by (auto simp: literal_word_def)
    then have "NUL \<notin> set (p @ s)" using assms(2) by blast
    then show ?thesis using assms(6) by simp
  qed
  obtain P where P: "\<And>ch s'. jstep_at P ch s' = literal_step (p @ s) ch s'"
    and d: "jnext d (at_value k) = Inr ((at_value k)\<lparr>literal_index := 1, pstate := P\<rparr>)"
    using literal_first [of d "q @ s" "at_value k"] assms(2) p by auto
  let ?s = "(at_value k)\<lparr>pstate := P, literal_index := length p\<rparr>"
  have "run_steps jnext (q @ c # r) ((at_value k)\<lparr>literal_index := 1, pstate := P\<rparr>) =
      run_steps jnext (c # r) ((at_value k)\<lparr>literal_index := 1, pstate := P\<rparr>\<lparr>literal_index := length ([d] @ q)\<rparr>)"
    by (rule literal_prefix [OF P]) (use p assms(4) in simp_all)
  then have run: "run_steps jnext (p @ c # r) (at_value k) = run_steps jnext (c # r) ?s"
    using d p by simp
  have "(p @ s) ! length p = hd s" using assms(4) by (simp add: hd_conv_nth nth_append)
  then have "jnext c ?s = Inl (JReturn 1 (?s\<lparr>jerr := [literal_error (p @ s) c]\<rparr>))"
    using P assms(5) by (simp add: jnext_def jstep_def literal_step_def literal_error_def)
  then show ?thesis
    using json_main_pass [OF n] json_to_value [OF assms(1)] run by simp
qed

theorem json_literal_error_witness:
  \<open>\<exists>st. json_main (Some ''{"a":trap}'') = Inr (1, st) \<and> jout st = [] \<and>
    jerr st = [literal_error ''true'' CHR ''a'']\<close>
  using json_literal_error [of "''a''" "''tr''" "''ue''" "CHR ''a''" "''p}''"]
  by (simp add: key_fits_def literal_word_def)

text \<open>
  A key of 256 characters or more is written past the key buffer: on any file whose first key
  is that long the run stops at an out-of-bounds write, before anything of the value is read.
\<close>

theorem json_key_overflow:
  assumes "256 \<le> length k" and "CHR 0x22 \<notin> set k" and "NUL \<notin> set (k @ r)"
  shows "json_main (Some (CHR ''{'' # CHR 0x22 # k @ CHR 0x22 # r)) = Inl Out_Of_Bounds"
proof -
  have n: "NUL \<notin> set (CHR ''{'' # CHR 0x22 # k @ CHR 0x22 # r)" using assms(3) by simp
  have full: "run_steps jnext (k @ CHR 0x22 # r) st = Inl (JFault Out_Of_Bounds)"
    if "pstate st = STATE_KEY" "length (key_buffer st) + length k \<ge> 256" "CHR 0x22 \<notin> set k" for st k
    using that
  proof (induction k arbitrary: st)
    case Nil
    then show ?case by (simp add: jnext_def jstep_def)
  next
    case (Cons c k)
    have "jnext c st = (if 256 \<le> length (key_buffer st) then Inl (JFault Out_Of_Bounds)
        else Inr (st\<lparr>key_buffer := key_buffer st @ [c]\<rparr>))"
      using Cons.prems by (auto simp: jnext_def jstep_def)
    then show ?case using Cons by simp
  qed
  let ?s = "json_start\<lparr>key_buffer := [], pstate := STATE_KEY\<rparr>"
  have "jnext CHR 0x22 json_start = Inr ?s" by (simp add: jnext_def jstep_def)
  then show ?thesis
    using json_main_pass [OF n] json_open [of "[]"] full [of ?s k] assms by (simp add: ws_def)
qed

theorem json_key_overflow_witness:
  "json_main (Some (CHR ''{'' # CHR 0x22 # replicate 256 CHR ''k'' @ CHR 0x22 # '':1}'')) = Inl Out_Of_Bounds"
  by (rule json_key_overflow) simp_all

lemma skip_value_end:
  assumes "pstate st = STATE_VALUE_END" and "set u \<inter> {CHR '','', CHR ''}'', CHR '']''} = {}"
  shows "run_steps jnext (u @ r) st = run_steps jnext r st"
  using assms(2)
proof (induction u)
  case (Cons c u)
  have "jnext c st = Inr st"
    using assms(1) Cons.prems by (auto simp: jnext_def jstep_def value_end_def)
  then show ?case using Cons by simp
qed simp

text \<open>
  An exponent is lost: the number \<open>i\<close> directly followed by \<^verbatim>\<open>e\<close> or \<^verbatim>\<open>E\<close> and further characters of
  an exponent is printed as \<open>i\<close>, and the exponent is skipped without a message.
\<close>

theorem json_exponent_lost:
  assumes "key_fits k" and "int32 i" and "e \<in> {CHR ''e'', CHR ''E''}"
    and "set ds \<inter> {CHR '','', CHR ''}'', CHR '']''} = {}" and "NUL \<notin> set (k @ ds)"
  shows "\<exists>st. json_main (Some (CHR ''{'' # CHR 0x22 # k @ CHR 0x22 # CHR '':'' # dec_int i @ e # ds @ ''}'')) =
    Inr (0, st) \<and> jout st = key_line k (dec_int i) \<and> jerr st = []"
proof -
  have n: "NUL \<notin> set (CHR ''{'' # CHR 0x22 # k @ CHR 0x22 # CHR '':'' # dec_int i @ e # ds @ ''}'')"
    using assms(3,5) dec_int_chars [of NUL i] by (auto simp: isdigit_def)
  have key: "key_ok (at_value k)" "key_name (at_value k) = k"
    using assms(1) by (simp_all add: key_ok_def key_name_def get_key_def key_fits_def)
  obtain st where r: "run_steps jnext (dec_int i @ e # ds @ ''}'') (at_value k) =
      run_steps jnext (e # ds @ ''}'') st"
    and c: "same_core st (after_value (dec_int i) (at_value k))"
    using scan_int [OF at_value_sel(1) assms(2) key(1), of "e # ds @ ''}''"] assms(3)
    by (auto simp: stopper_def isdigit_def)
  have e: "pstate st = STATE_VALUE_END" and s: "key_stack st = []" "jerr st = []"
      "jout st = key_line k (dec_int i)"
    using c key(2) by (simp_all add: same_core_def)
  have "run_steps jnext ((e # ds) @ ''}'') st = run_steps jnext ''}'' st"
    by (rule skip_value_end [OF e]) (use assms(3,4) in auto)
  moreover have "jnext CHR ''}'' st = Inr (st\<lparr>pstate := STATE_DONE\<rparr>)"
    using e s by (simp add: jnext_def jstep_def value_end_def)
  ultimately show ?thesis
    using json_main_pass [OF n] json_to_value [OF assms(1)] r s by simp
qed

theorem json_exponent_lost_witness:
  \<open>\<exists>st. json_main (Some ''{"x":1e5}'') = Inr (0, st) \<and> jout st = key_line ''x'' ''1'' \<and> jerr st = []\<close>
  using json_exponent_lost [of "''x''" 1 "CHR ''e''" "''5''"]
  by (simp add: key_fits_def int32_def dec_int_def dec_nat.simps digit_simps)

text \<open>
  An empty object swallows what follows it: after \<open>"a":{}\<close> the parser still waits for a key of the
  inner object, so the next member \<open>"b"\<close> of the outer object is printed under the key \<open>a.b\<close>, and the
  closing brace of the file leaves the machine short of its final state.
\<close>

theorem json_empty_object:
  assumes "key_fits a" and "key_fits b" and "int32 i" and "length a + length b < 511"
    and "NUL \<notin> set (a @ b)"
  shows "\<exists>st. json_main (Some (CHR ''{'' # CHR 0x22 # a @ CHR 0x22 # '':{},'' @ CHR 0x22 # b @ CHR 0x22 #
      CHR '':'' # dec_int i @ ''}'')) = Inr (0, st) \<and>
    jout st = key_line (a @ ''.'' @ b) (dec_int i) \<and> pstate st \<noteq> STATE_DONE"
proof -
  let ?m = "CHR 0x22 # b @ CHR 0x22 # CHR '':'' # dec_int i @ ''}''"
  have n: "NUL \<notin> set (CHR ''{'' # CHR 0x22 # a @ CHR 0x22 # '':{},'' @ ?m)"
    using assms(5) dec_int_chars [of NUL i] by (auto simp: isdigit_def)
  let ?s1 = "(at_value a)\<lparr>key_stack := [a], pstate := STATE_KEY_BEGIN\<rparr>"
  have 1: "jnext CHR ''{'' (at_value a) = Inr ?s1"
    by (simp add: jnext_def jstep_def value_begin_def push_key_def)
  have 2: "jnext CHR ''}'' ?s1 = Inr ?s1" "jnext CHR '','' ?s1 = Inr ?s1"
    by (simp_all add: jnext_def jstep_def)
  let ?s2 = "?s1\<lparr>key_buffer := b, pstate := STATE_VALUE_BEGIN\<rparr>"
  have 3: "run_steps jnext ?m ?s1 = run_steps jnext (dec_int i @ ''}'') ?s2"
    by (rule read_to_value [OF assms(2)]) simp
  have key: "key_ok ?s2" "key_name ?s2 = a @ ''.'' @ b"
    using assms(4) by (simp_all add: key_ok_def key_name_def get_key_def)
  obtain st where r: "run_steps jnext (dec_int i @ ''}'') ?s2 = run_steps jnext ''}'' st"
    and c: "same_core st (after_value (dec_int i) ?s2)"
    using scan_int [OF _ assms(3) key(1), of "''}''"] by (auto simp: stopper_def isdigit_def)
  have s: "pstate st = STATE_VALUE_END" "key_stack st = [a]"
      "jout st = key_line (a @ ''.'' @ b) (dec_int i)"
    using c key(2) by (simp_all add: same_core_def)
  then have "jnext CHR ''}'' st = Inr (st\<lparr>key_stack := [], pstate := STATE_VALUE_END\<rparr>)"
    by (simp add: jnext_def jstep_def value_end_def)
  then show ?thesis
    using json_main_pass [OF n] json_to_value [OF assms(1)] 1 2 3 r s by simp
qed

theorem json_empty_object_witness:
  \<open>\<exists>st. json_main (Some ''{"a":{},"b":1}'') = Inr (0, st) \<and> jout st = key_line ''a.b'' ''1'' \<and>
    pstate st \<noteq> STATE_DONE\<close>
  using json_empty_object [of "''a''" "''b''" 1]
  by (simp add: key_fits_def int32_def dec_int_def dec_nat.simps digit_simps)

end
