(* ===== verification/JsonSafety.thy ===== *)
theory JsonSafety
  imports JsonProps "HOL-Library.Sublist"
begin

text \<open>
  \<^verbatim>\<open>json-parser/jparse.c\<close> on files that need not be JSON: limits on the characters of a file under which
  the parser stays in its buffers whatever they spell, and what breaks it beyond them.
\<close>

section \<open>The limits\<close>



definition openers :: "string \<Rightarrow> nat" where
  "openers s = length (filter (\<lambda>c. c = CHR ''{'' \<or> c = CHR ''['') s)"





section \<open>What holds between two characters\<close>

text \<open>\<open>p\<close> has been read: the buffer being filled is the end of it.\<close>

definition jsafe :: "nat \<Rightarrow> string \<Rightarrow> jparse \<Rightarrow> bool" where
  "jsafe l p st \<longleftrightarrow> length (key_buffer st) \<le> l \<and>
     (pstate st = STATE_KEY \<longrightarrow> suffix (key_buffer st) p \<and> CHR 0x22 \<notin> set (key_buffer st)) \<and>
     (pstate st \<in> {STATE_VALUE_STRING, STATE_VALUE_NUMBER} \<longrightarrow>
       suffix (val_buffer st) p \<and> CHR 0x22 \<notin> set (val_buffer st)) \<and>
     list_all (\<lambda>k. length k \<le> l) (key_stack st) \<and>
     (if pstate st = STATE_START then key_stack st = [] else length (key_stack st) < openers p) \<and>
     (in_array st \<longrightarrow> key_stack st \<noteq> [] \<and> CHR ''['' \<in> set p) \<and> array_index st \<le> length p"

lemma openers_append [simp]: "openers (p @ q) = openers p + openers q"
  "openers (c # p) = (if c = CHR ''{'' \<or> c = CHR ''['' then 1 else 0) + openers p" "openers [] = 0"
  by (simp_all add: openers_def)










section \<open>One character\<close>

definition jgood :: "nat \<Rightarrow> string \<Rightarrow> jstop + jparse \<Rightarrow> bool" where
  "jgood l p r \<longleftrightarrow> (case r of Inl (JFault f) \<Rightarrow> False | Inl (JReturn c st) \<Rightarrow> True | Inr st \<Rightarrow> jsafe l p st)"

lemma jgood_simps [simp]:
  "jgood l p (Inl (JFault f)) \<longleftrightarrow> False" "jgood l p (Inl (JReturn c st)) \<longleftrightarrow> True" "jgood l p (Inr st) \<longleftrightarrow> jsafe l p st"
  by (simp_all add: jgood_def)








section \<open>Whole files\<close>





end
