(* ===== verification/ElfLoader.thy ===== *)
theory ElfLoader
  imports CString
begin

text \<open>
  \<^verbatim>\<open>ELF-loader/elfload.c\<close>: the loader, phase by phase. The files, the reads the operating system
  refuses and the addresses \<^verbatim>\<open>malloc\<close> returns are the environment \<open>E\<close>; what the loader keeps is the
  position of its descriptor, what it printed, its heap (what was written to a block, by its address,
  \<open>None\<close> where nothing was), the blocks it holds, and its table of segments. \<^verbatim>\<open>perror\<close> is recorded by its prefix.
\<close>

section \<open>The structures\<close>

text \<open>The fields of \<^verbatim>\<open>Elf64_Ehdr\<close> and \<^verbatim>\<open>Elf64_Phdr\<close> the program uses, at their offsets.\<close>

record Elf64_Ehdr =
  e_type :: u16
  e_machine :: u16
  e_version :: u32
  e_entry :: u64
  e_phoff :: u64
  e_shoff :: u64
  e_phentsize :: u16
  e_phnum :: u16

record Elf64_Phdr =
  p_type :: u32
  p_flags :: u32
  p_offset :: u64
  p_vaddr :: u64
  p_filesz :: u64
  p_memsz :: u64

record LoadedSegment =
  host_addr :: u64
  virt_addr :: u64
  seg_size :: u64
  seg_flags :: u32

definition field :: "u8 list \<Rightarrow> nat \<Rightarrow> nat \<Rightarrow> nat" where
  "field bs off n = le_load ((!) bs) off n"

definition read_ehdr :: "u8 list \<Rightarrow> Elf64_Ehdr" where
  "read_ehdr bs = \<lparr>e_type = of_nat (field bs 16 2), e_machine = of_nat (field bs 18 2),
     e_version = of_nat (field bs 20 4), e_entry = of_nat (field bs 24 8),
     e_phoff = of_nat (field bs 32 8), e_shoff = of_nat (field bs 40 8),
     e_phentsize = of_nat (field bs 54 2), e_phnum = of_nat (field bs 56 2)\<rparr>"

definition read_phdr :: "u8 list \<Rightarrow> Elf64_Phdr" where
  "read_phdr bs = \<lparr>p_type = of_nat (field bs 0 4), p_flags = of_nat (field bs 4 4),
     p_offset = of_nat (field bs 8 8), p_vaddr = of_nat (field bs 16 8),
     p_filesz = of_nat (field bs 32 8), p_memsz = of_nat (field bs 40 8)\<rparr>"

record elf_env =
  binary :: "string \<Rightarrow> u8 list option"
  read_ok :: "nat \<Rightarrow> nat \<Rightarrow> bool"
  malloc_at :: "nat \<Rightarrow> u64 \<Rightarrow> u64"

record loader =
  fpos :: nat
  lout :: string
  lerr :: "string list"
  mallocs :: nat
  live :: "u64 list"
  fd_open :: bool
  heap :: "u64 \<Rightarrow> u8 option list option"
  load_segments :: "LoadedSegment list"

definition loader_init :: loader where
  "loader_init = \<lparr>fpos = 0, lout = [], lerr = [], mallocs = 0, live = [], fd_open = False,
     heap = (\<lambda>_. None), load_segments = []\<rparr>"

definition opened :: loader where
  "opened = loader_init\<lparr>fd_open := True\<rparr>"

datatype estop = EFault fault | EReturn int loader

section \<open>System calls\<close>

definition put :: "string \<Rightarrow> loader \<Rightarrow> loader" where
  "put s st = st\<lparr>lout := lout st @ s\<rparr>"

text \<open>\<^verbatim>\<open>malloc\<close> and \<^verbatim>\<open>free\<close>; to free a block that is not held is a fault.\<close>

definition call_malloc :: "elf_env \<Rightarrow> u64 \<Rightarrow> loader \<Rightarrow> u64 \<times> loader" where
  "call_malloc E sz st =
     (let a = malloc_at E (mallocs st) sz
      in (a, st\<lparr>mallocs := mallocs st + 1, live := if a = 0 then live st else a # live st\<rparr>))"

definition call_free :: "u64 \<Rightarrow> loader \<Rightarrow> estop + loader" where
  "call_free a st =
     (if a \<in> set (live st) then Inr (st\<lparr>live := remove1 a (live st)\<rparr>)
      else if a = 0 then Inr st else Inl (EFault Bad_Free))"

fun free_all :: "u64 list \<Rightarrow> loader \<Rightarrow> estop + loader" where
  "free_all [] st = Inr st"
| "free_all (a # as) st = and_then (call_free a st) (free_all as)"

text \<open>An error path: the message, the blocks that are freed, the descriptor, and the exit code.\<close>

definition fail :: "string \<Rightarrow> u64 list \<Rightarrow> loader \<Rightarrow> estop + 'a" where
  "fail msg blocks st =
     and_then (free_all blocks (st\<lparr>lerr := lerr st @ [msg]\<rparr>)) (\<lambda>st1. Inl (EReturn 1 (st1\<lparr>fd_open := False\<rparr>)))"

text \<open>\<^verbatim>\<open>lseek\<close> to a negative offset is refused and leaves the position; the result is not looked at.\<close>

definition lseek_set :: "u64 \<Rightarrow> loader \<Rightarrow> loader" where
  "lseek_set off st = (if 0 \<le> sint off then st\<lparr>fpos := unat off\<rparr> else st)"

text \<open>\<^verbatim>\<open>read\<close>: \<open>None\<close> when refused, else the bytes that are there.\<close>

definition sys_read :: "elf_env \<Rightarrow> u8 list \<Rightarrow> nat \<Rightarrow> loader \<Rightarrow> u8 list option \<times> loader" where
  "sys_read E f count st =
     (if read_ok E (fpos st) count then
        let bs = take count (drop (fpos st) f) in (Some bs, st\<lparr>fpos := fpos st + length bs\<rparr>)
      else (None, st))"

definition read_exact ::
  "elf_env \<Rightarrow> u8 list \<Rightarrow> nat \<Rightarrow> u64 list \<Rightarrow> loader \<Rightarrow> estop + u8 list \<times> loader" where
  "read_exact E f count blocks st =
     (case sys_read E f count st of
        (Some bs, st1) \<Rightarrow> if length bs = count then Inr (bs, st1) else fail ''read'' blocks st1
      | (None, st1) \<Rightarrow> fail ''read'' blocks st1)"

definition u64_dec :: "u64 \<Rightarrow> string" where
  "u64_dec w = dec_nat (unat w)"

definition u64_hex16 :: "u64 \<Rightarrow> string" where
  "u64_hex16 w = pad_with CHR ''0'' 16 (hex_nat (unat w))"

definition ptr_text :: "u64 \<Rightarrow> string" where
  "ptr_text p = (if p = 0 then ''(nil)'' else ''0x'' @ hex_nat (unat p))"

section \<open>Helpers\<close>

definition PT_LOAD :: u32 where
  "PT_LOAD = 1"

definition PT_INTERP :: u32 where
  "PT_INTERP = 3"

definition ptype_to_str :: "u32 \<Rightarrow> string" where
  "ptype_to_str type =
     (if type = 0 then ''NULL''
      else if type = PT_LOAD then ''LOAD''
      else if type = 2 then ''DYNAMIC''
      else if type = PT_INTERP then ''INTERP''
      else if type = 4 then ''NOTE''
      else if type = 5 then ''SHLIB''
      else if type = 6 then ''PHDR''
      else if type = 7 then ''TLS''
      else if type = 0x6474E550 then ''GNU_EH_FRAME''
      else if type = 0x6474E551 then ''GNU_STACK''
      else if type = 0x6474E552 then ''GNU_RELRO''
      else if type = 0x6474E553 then ''GNU_PROPERTY''
      else ''UNKNOWN'')"

definition flag_chars :: "u32 \<Rightarrow> string" where
  "flag_chars flags =
     [if flags AND 4 \<noteq> 0 then CHR ''R'' else CHR ''-'',
      if flags AND 2 \<noteq> 0 then CHR ''W'' else CHR ''-'',
      if flags AND 1 \<noteq> 0 then CHR ''X'' else CHR ''-'']"

definition print_flags :: "u32 \<Rightarrow> loader \<Rightarrow> loader" where
  "print_flags flags = put (''Flags: '' @ flag_chars flags)"

text \<open>The end of a segment is computed modulo \<open>2 ^ 64\<close>; \<open>0\<close> is \<^verbatim>\<open>NULL\<close>.\<close>

fun vaddr_to_host :: "LoadedSegment list \<Rightarrow> u64 \<Rightarrow> u64" where
  "vaddr_to_host [] vaddr = 0"
| "vaddr_to_host (s # ss) vaddr =
     (let start = virt_addr s; end_addr = start + seg_size s
      in if start \<le> vaddr \<and> vaddr < end_addr then host_addr s + (vaddr - start)
         else vaddr_to_host ss vaddr)"

section \<open>The identification and the header\<close>

definition elf_magic :: "u8 list \<Rightarrow> bool" where
  "elf_magic bs \<longleftrightarrow> bs ! 0 = 0x7F \<and> bs ! 1 = 0x45 \<and> bs ! 2 = 0x4C \<and> bs ! 3 = 0x46"

definition class_text :: "u8 \<Rightarrow> string" where
  "class_text c = (if c = 1 then ''CLASS: 32 bit'' @ [NL] else if c = 2 then ''CLASS: 64 bit'' @ [NL]
     else ''CLASS: Invalid!'')"

definition data_text :: "u8 \<Rightarrow> string" where
  "data_text d = (if d = 1 then ''ENDIANNESS: Little Endian'' @ [NL]
     else if d = 2 then ''ENDIANNESS: Big Endian'' @ [NL] else ''ENDIANNESS: Invalid Endian!'')"

definition elf_ident :: "elf_env \<Rightarrow> u8 list \<Rightarrow> loader \<Rightarrow> estop + loader" where
  "elf_ident E f st =
     and_then (read_exact E f 16 [] st) (\<lambda>(e_ident, st1).
       if \<not> elf_magic e_ident then fail ''Not an ELF File!'' [] st1
       else Inr (put (''Valid ELF File acquired!'' @ [NL] @ class_text (e_ident ! 4) @ data_text (e_ident ! 5)) st1))"

definition type_text :: "u16 \<Rightarrow> string" where
  "type_text t =
     (if t = 2 then ''Type: Executable file'' @ [NL]
      else if t = 3 then ''Type: Shared object (so/dylib)'' @ [NL]
      else if t = 1 then ''Type: Relocatable object file'' @ [NL]
      else ''Type: Unknown ('' @ dec_nat (unat t) @ '')'' @ [NL])"

definition elf_header :: "elf_env \<Rightarrow> u8 list \<Rightarrow> loader \<Rightarrow> estop + Elf64_Ehdr \<times> loader" where
  "elf_header E f st =
     and_then (read_exact E f 64 [] (lseek_set 0 st)) (\<lambda>(bs, st1).
       let h = read_ehdr bs; st2 = put (type_text (e_type h)) st1
       in if e_machine h \<noteq> 62 then fail (''Unsupported architecture: '' @ dec_nat (unat (e_machine h))) [] st2
          else let st3 = put (''Machine: x86_64'' @ [NL]) st2
          in if e_version h \<noteq> 1 then fail ''Invalid ELF version'' [] st3
             else if e_phnum h = 0 then fail ''No program headers found!'' [] st3
             else if e_phentsize h \<noteq> 56 then fail ''Unexpected program header entry size'' [] st3
             else Inr (h, put ([NL] @ ''Program entry point: 0x'' @ hex_nat (unat (e_entry h)) @ [NL] @
               ''Program header offset: '' @ u64_dec (e_phoff h) @ [NL] @
               ''Section header offset: '' @ u64_dec (e_shoff h) @ [NL, NL]) st3))"

section \<open>The program headers\<close>

definition TAB :: char where
  "TAB = CHR 0x09"

definition phdr_line :: "nat \<Rightarrow> Elf64_Phdr \<Rightarrow> loader \<Rightarrow> loader" where
  "phdr_line i p st =
     put [NL] (print_flags (p_flags p) (put
       (''['' @ dec_nat i @ ''] '' @ ptype_to_str (p_type p) @ TAB # ''Offset: 0x'' @ u64_dec (p_offset p) @
        TAB # ''VirtAddr: '' @ u64_dec (p_vaddr p) @ TAB # ''FileSize: '' @ u64_dec (p_filesz p) @
        TAB # ''MemSize: '' @ u64_dec (p_memsz p) @ [TAB]) st))"

fun print_phdrs :: "elf_env \<Rightarrow> u8 list \<Rightarrow> nat \<Rightarrow> nat \<Rightarrow> loader \<Rightarrow> estop + loader" where
  "print_phdrs E f i 0 st = Inr st"
| "print_phdrs E f i (Suc n) st =
     and_then (read_exact E f 56 [] st) (\<lambda>(bs, st1).
       print_phdrs E f (Suc i) n (phdr_line i (read_phdr bs) st1))"

fun split_phdrs :: "nat \<Rightarrow> u8 list \<Rightarrow> Elf64_Phdr list" where
  "split_phdrs 0 bs = []"
| "split_phdrs (Suc n) bs = read_phdr (take 56 bs) # split_phdrs n (drop 56 bs)"

text \<open>The table in memory: its address and its entries.\<close>

definition read_phdrs ::
  "elf_env \<Rightarrow> u8 list \<Rightarrow> Elf64_Ehdr \<Rightarrow> loader \<Rightarrow> estop + (u64 \<times> Elf64_Phdr list) \<times> loader" where
  "read_phdrs E f h st =
     (let n = unat (e_phnum h); (phdrs, st1) = call_malloc E (of_nat (56 * n)) st
      in if phdrs = 0 then fail ''malloc'' [] st1
         else and_then (read_exact E f (56 * n) [phdrs] (lseek_set (e_phoff h) st1))
           (\<lambda>(bs, st2). Inr ((phdrs, split_phdrs n bs), st2)))"

section \<open>Loading\<close>

definition segment_text :: "Elf64_Phdr \<Rightarrow> string" where
  "segment_text p =
     ''LOAD SEGMENT:'' @ [NL] @ ''  VirtAddr : 0x'' @ u64_hex16 (p_vaddr p) @ [NL] @
     ''  FileOffset: 0x'' @ u64_hex16 (p_offset p) @ [NL] @
     ''  FileSize : '' @ u64_dec (p_filesz p) @ [NL] @ ''  MemSize  : '' @ u64_dec (p_memsz p) @ [NL] @
     ''  Flags    : '' @ flag_chars (p_flags p) @ [NL] @
     (if p_filesz p < p_memsz p
      then ''  (extra '' @ u64_dec (p_memsz p - p_filesz p) @ '' bytes should be zero-initialized)'' @ [NL]
      else [])"

definition zero_fill :: "Elf64_Phdr \<Rightarrow> u8 option list \<Rightarrow> u8 option list" where
  "zero_fill p c =
     (if p_filesz p < p_memsz p
      then take (unat (p_filesz p)) c @ replicate (unat (p_memsz p - p_filesz p)) (Some 0) else c)"

definition load_segment :: "elf_env \<Rightarrow> u8 list \<Rightarrow> u64 \<Rightarrow> Elf64_Phdr \<Rightarrow> loader \<Rightarrow> estop + loader" where
  "load_segment E f phdrs p st =
     (let (segment, st1) = call_malloc E (p_memsz p) (put (segment_text p) st)
      in if segment = 0 then fail ''malloc'' [phdrs] st1
         else case sys_read E f (unat (p_filesz p)) (lseek_set (p_offset p) st1) of
           (None, st2) \<Rightarrow> fail ''read segment'' [segment, phdrs] st2
         | (Some bs, st2) \<Rightarrow>
             if unat (p_memsz p) < length bs then Inl (EFault Out_Of_Bounds)
             else
               let c = zero_fill p (map Some bs @ replicate (unat (p_memsz p) - length bs) None);
                   st3 = put (''  -> Allocated '' @ u64_dec (p_memsz p) @ '' bytes at host address '' @
                     ptr_text segment @ [NL, NL]) st2
               in Inr (st3\<lparr>heap := (heap st3)(segment \<mapsto> c),
                    load_segments := load_segments st3 @ [\<lparr>host_addr = segment, virt_addr = p_vaddr p,
                      seg_size = p_memsz p, seg_flags = p_flags p\<rparr>]\<rparr>))"

text \<open>
  The interpreter path: \<^verbatim>\<open>p_filesz + 1\<close> wraps, and a refused read returns \<open>-1\<close>, which is compared
  with the signed reading of the size.
\<close>

definition load_interp :: "elf_env \<Rightarrow> u8 list \<Rightarrow> u64 \<Rightarrow> Elf64_Phdr \<Rightarrow> loader \<Rightarrow> estop + loader" where
  "load_interp E f phdrs p st =
     (let (interp, st1) = call_malloc E (p_filesz p + 1) st
      in if interp = 0 then fail ''Failed to allocate memory for INTERP'' [phdrs] st1
         else
           let (r, st2) = sys_read E f (unat (p_filesz p)) (lseek_set (p_offset p) st1);
               bs = (case r of None \<Rightarrow> [] | Some bs \<Rightarrow> bs);
               n = (case r of None \<Rightarrow> -1 | Some bs \<Rightarrow> int (length bs))
           in if unat (p_filesz p + 1) < length bs then Inl (EFault Out_Of_Bounds)
              else if n \<noteq> sint (p_filesz p) then fail ''read INTERP'' [interp, phdrs] st2
              else if unat (p_filesz p + 1) \<le> unat (p_filesz p) then Inl (EFault Out_Of_Bounds)
              else and_then
                (call_free interp (put ([NL, NL] @ ''    [INTERP] Dynamic loader path: '' @
                  cstr (map (\<lambda>b. char_of (unat b)) bs) @ [NL, NL]) st2))
                (\<lambda>st3. Inr (st3\<lparr>fpos := fpos st1\<rparr>)))"

fun load_all :: "elf_env \<Rightarrow> u8 list \<Rightarrow> u64 \<Rightarrow> Elf64_Phdr list \<Rightarrow> loader \<Rightarrow> estop + loader" where
  "load_all E f phdrs [] st = Inr st"
| "load_all E f phdrs (p # ps) st =
     and_then (if p_type p = PT_LOAD then load_segment E f phdrs p st else Inr st) (\<lambda>st1.
     and_then (if p_type p = PT_INTERP then load_interp E f phdrs p st1 else Inr st1) (\<lambda>st2.
       load_all E f phdrs ps st2))"

section \<open>The report and the program\<close>

definition test_text :: "string \<Rightarrow> LoadedSegment list \<Rightarrow> u64 \<Rightarrow> string" where
  "test_text label segs v =
     label @ '' vaddr=0x'' @ u64_dec v @ '' -> host='' @ ptr_text (vaddr_to_host segs v) @ [NL]"

definition elf_report :: "Elf64_Ehdr \<Rightarrow> loader \<Rightarrow> loader" where
  "elf_report h st =
     (let segs = load_segments st; entry_host = vaddr_to_host segs (e_entry h); seg = hd segs
      in put ((if entry_host \<noteq> 0
               then ''Entry point virtual: 0x'' @ u64_dec (e_entry h) @ '' maps to host: '' @ ptr_text entry_host @ [NL]
               else ''Entry point 0x'' @ u64_dec (e_entry h) @ '' is not in any loaded segment!'' @ [NL]) @
              [NL] @
              test_text ''Test1 (start)  '' segs (virt_addr seg) @
              test_text ''Test2 (+16)    '' segs (virt_addr seg + 0x10) @
              test_text ''Test3 (last)   '' segs (virt_addr seg + seg_size seg - 1) @
              test_text ''Test4 (outside)'' segs (virt_addr seg + seg_size seg)) st)"

definition elf_release :: "u64 \<Rightarrow> loader \<Rightarrow> estop + loader" where
  "elf_release phdrs st =
     and_then (free_all (map host_addr (load_segments st)) st) (\<lambda>st1.
     and_then (call_free phdrs st1) (\<lambda>st2.
       Inr (put ([NL] @ ''Loaded '' @ dec_nat (length (load_segments st2)) @ '' segments. Adios now!'' @ [NL] @
         ''Loader finished successfully'' @ [NL]) (st2\<lparr>fd_open := False\<rparr>))))"

definition elf_load :: "elf_env \<Rightarrow> u8 list \<Rightarrow> loader \<Rightarrow> estop + loader" where
  "elf_load E f st =
     and_then (elf_ident E f st) (\<lambda>st1.
     and_then (elf_header E f st1) (\<lambda>(h, st2).
     and_then (print_phdrs E f 0 (unat (e_phnum h)) (lseek_set (e_phoff h) st2)) (\<lambda>st3.
     and_then (read_phdrs E f h st3) (\<lambda>((phdrs, ps), st4).
       if \<not> list_ex (\<lambda>p. p_type p = PT_LOAD) ps then fail ''No loadable segments in ELF!'' [phdrs] st4
       else and_then (load_all E f phdrs ps (put ([NL] @ ''---LOAD SEGMENTS---'' @ [NL]) st4)) (\<lambda>st5.
         elf_release phdrs (elf_report h st5))))))"

definition elf_main :: "elf_env \<Rightarrow> string list \<Rightarrow> (int \<times> loader) outcome" where
  "elf_main E argv =
     (case argv of
        [] \<Rightarrow> Inl Null_Deref
      | [prog] \<Rightarrow> Inr (1, loader_init\<lparr>lerr := [''Usage: '' @ prog @ '' <elf-file>'']\<rparr>)
      | _ # filename # _ \<Rightarrow>
          (case binary E filename of
             None \<Rightarrow> Inr (1, loader_init\<lparr>lerr := [''Error opening binary'']\<rparr>)
           | Some f \<Rightarrow>
               (case elf_load E f opened of
                  Inl (EFault e) \<Rightarrow> Inl e
                | Inl (EReturn c st) \<Rightarrow> Inr (c, st)
                | Inr st \<Rightarrow> Inr (0, st))))"

end
