(* ===== verification/ElfMemory.thy ===== *)
theory ElfMemory
  imports ElfLoader "HOL-Library.Multiset"
begin

text \<open>
  What the loader of \<^verbatim>\<open>ELF-loader/elfload.c\<close> allocates and releases: a postcondition for each phase, on
  every file and with every refusal.
\<close>

section \<open>A postcondition with an early end\<close>

text \<open>
  A phase that goes on satisfies \<open>Q\<close>; one that ends the program has closed the file and holds exactly
  the blocks of the segments loaded so far; a fault is not one of \<^verbatim>\<open>free\<close>.
\<close>

definition clean_end :: "loader \<Rightarrow> bool" where
  "clean_end st \<longleftrightarrow> \<not> fd_open st \<and> mset (live st) = mset (map host_addr (load_segments st))"

definition tidy :: "estop + 'a \<Rightarrow> ('a \<Rightarrow> bool) \<Rightarrow> bool" where
  "tidy r Q \<longleftrightarrow> (case r of
       Inl (EFault e) \<Rightarrow> e = Out_Of_Bounds
     | Inl (EReturn c st) \<Rightarrow> c = 1 \<and> clean_end st
     | Inr x \<Rightarrow> Q x)"

lemma tidy_simps [simp]:
  "tidy (Inr x) Q = Q x" "tidy (Inl (EFault e)) Q = (e = Out_Of_Bounds)"
  "tidy (Inl (EReturn c st)) Q = (c = 1 \<and> clean_end st)"
  by (simp_all add: tidy_def)

lemma tidy_then: "tidy r Q \<Longrightarrow> (\<And>x. Q x \<Longrightarrow> tidy (g x) R) \<Longrightarrow> tidy (and_then r g) R"
  by (cases r) (auto simp: tidy_def split: estop.splits)

lemma tidy_mono: "tidy r Q \<Longrightarrow> (\<And>x. Q x \<Longrightarrow> R x) \<Longrightarrow> tidy r R"
  by (auto simp: tidy_def split: sum.splits estop.splits)

text \<open>The blocks held, besides those of the segments.\<close>

definition holds :: "u64 list \<Rightarrow> loader \<Rightarrow> bool" where
  "holds as st \<longleftrightarrow> fd_open st \<and> mset (live st) = mset as + mset (map host_addr (load_segments st))"

lemma put_sel [simp]:
  "fpos (put s st) = fpos st" "heap (put s st) = heap st" "mallocs (put s st) = mallocs st"
  "load_segments (put s st) = load_segments st" "lerr (put s st) = lerr st"
  "live (put s st) = live st"
  by (simp_all add: put_def)

lemma holds_cong:
  "live st' = live st \<Longrightarrow> fd_open st' = fd_open st \<Longrightarrow> load_segments st' = load_segments st \<Longrightarrow>
    holds as st' = holds as st"
  by (simp add: holds_def)

lemma holds_updates [simp]:
  "holds as (put s st) = holds as st" "holds as (lseek_set off st) = holds as st"
  "holds as (st\<lparr>fpos := n\<rparr>) = holds as st" "holds as (st\<lparr>lerr := es\<rparr>) = holds as st"
  "holds as (phdr_line i p st) = holds as st" "holds as (elf_report h st) = holds as st"
  by (simp_all add: holds_def put_def lseek_set_def phdr_line_def print_flags_def elf_report_def Let_def)

lemma opened_holds: "holds [] opened"
  by (simp add: holds_def opened_def loader_init_def)

section \<open>The system calls\<close>

lemma free_ok:
  assumes "holds (a # as) st"
  shows "call_free a st = Inr (st\<lparr>live := remove1 a (live st)\<rparr>)" and "holds as (st\<lparr>live := remove1 a (live st)\<rparr>)"
proof -
  have "a \<in># mset (live st)" using assms by (simp add: holds_def)
  then show "call_free a st = Inr (st\<lparr>live := remove1 a (live st)\<rparr>)" by (simp add: call_free_def)
  show "holds as (st\<lparr>live := remove1 a (live st)\<rparr>)" using assms by (simp add: holds_def)
qed

lemma free_all_live:
  "mset (live st) = mset as + M \<Longrightarrow> \<exists>l. free_all as st = Inr (st\<lparr>live := l\<rparr>) \<and> mset l = M"
proof (induction as arbitrary: st)
  case Nil
  then show ?case by (auto intro: exI [of _ "live st"])
next
  case (Cons a as)
  have "a \<in># mset (live st)" using Cons.prems by simp
  then have "call_free a st = Inr (st\<lparr>live := remove1 a (live st)\<rparr>)" by (simp add: call_free_def)
  moreover have "mset (live (st\<lparr>live := remove1 a (live st)\<rparr>)) = mset as + M" using Cons.prems by simp
  ultimately show ?case using Cons.IH [of "st\<lparr>live := remove1 a (live st)\<rparr>"] by auto
qed

lemma fail_ok:
  assumes "holds as st"
  shows "\<exists>st'. fail msg as st = Inl (EReturn 1 st') \<and> clean_end st' \<and> load_segments st' = load_segments st"
proof -
  obtain l where "free_all as (st\<lparr>lerr := lerr st @ [msg]\<rparr>) = Inr (st\<lparr>lerr := lerr st @ [msg], live := l\<rparr>)"
      "mset l = mset (map host_addr (load_segments st))"
    using free_all_live [of "st\<lparr>lerr := lerr st @ [msg]\<rparr>" as] assms by (auto simp: holds_def)
  then show ?thesis by (simp add: fail_def clean_end_def)
qed

lemma fail_tidy [simp]:
  fixes Q :: "'a \<Rightarrow> bool"
  assumes "holds as st"
  shows "tidy (fail msg as st) Q"
proof -
  obtain st' where "(fail msg as st :: estop + 'a) = Inl (EReturn 1 st')" "clean_end st'"
    using fail_ok [OF assms] by blast
  then show ?thesis by simp
qed

lemma read_exact_tidy:
  assumes "holds as st"
  shows "tidy (read_exact E f n as st) (\<lambda>(bs, st'). holds as st')"
  using assms by (auto simp: read_exact_def sys_read_def Let_def)

lemma sys_read_holds: "sys_read E f n st = (r, st') \<Longrightarrow> holds as st' = holds as st"
  by (auto simp: sys_read_def Let_def split: if_splits)

lemma malloc_holds:
  assumes "call_malloc E sz st = (a, st')" and "holds as st"
  shows "holds (if a = 0 then as else a # as) st'"
  using assms by (auto simp: call_malloc_def holds_def Let_def)

section \<open>The phases\<close>

lemma ident_tidy: "holds [] st \<Longrightarrow> tidy (elf_ident E f st) (holds [])"
  unfolding elf_ident_def by (rule tidy_then [OF read_exact_tidy]) (auto split: prod.splits)

lemma header_tidy: "holds [] st \<Longrightarrow> tidy (elf_header E f st) (\<lambda>(h, st'). holds [] st')"
  unfolding elf_header_def by (rule tidy_then [OF read_exact_tidy]) (auto simp: Let_def)

lemma print_phdrs_tidy: "holds [] st \<Longrightarrow> tidy (print_phdrs E f i n st) (holds [])"
proof (induction n arbitrary: i st)
  case (Suc n)
  show ?case unfolding print_phdrs.simps
    by (rule tidy_then [OF read_exact_tidy [OF Suc.prems]]) (auto intro: Suc.IH)
qed simp

lemma read_phdrs_tidy:
  assumes "holds [] st"
  shows "tidy (read_phdrs E f h st) (\<lambda>((t, ps), st'). holds [t] st')"
proof -
  obtain t s1 where t: "call_malloc E (of_nat (56 * unat (e_phnum h))) st = (t, s1)" by fastforce
  have s1: "holds (if t = 0 then [] else [t]) s1" by (rule malloc_holds [OF t assms])
  show ?thesis
  proof (cases "t = 0")
    case True
    then show ?thesis using s1 t by (simp add: read_phdrs_def)
  next
    case False
    then have "holds [t] (lseek_set (e_phoff h) s1)" using s1 by simp
    then show ?thesis using False t
      by (auto simp: read_phdrs_def Let_def intro!: tidy_then [OF read_exact_tidy])
  qed
qed

lemma holds_segment:
  "holds (a # as) st \<Longrightarrow> host_addr s = a \<Longrightarrow>
    holds as (st\<lparr>heap := hp, load_segments := load_segments st @ [s]\<rparr>)"
  by (simp add: holds_def)

lemma load_segment_tidy:
  assumes "holds [t] st"
  shows "tidy (load_segment E f t p st) (holds [t])"
proof -
  obtain a s1 where a: "call_malloc E (p_memsz p) (put (segment_text p) st) = (a, s1)" by fastforce
  obtain r s2 where r: "sys_read E f (unat (p_filesz p)) (lseek_set (p_offset p) s1) = (r, s2)" by fastforce
  have s1: "holds (if a = 0 then [t] else [a, t]) s1" using malloc_holds [OF a] assms by simp
  have s2: "holds (if a = 0 then [t] else [a, t]) s2" using sys_read_holds [OF r] s1 by simp
  show ?thesis
  proof (cases "a = 0")
    case True
    then show ?thesis using s1 by (simp add: load_segment_def a)
  next
    case False
    then have s3: "holds [a, t] (put s s2)" for s using s2 by simp
    show ?thesis using False s2 holds_segment [OF s3]
      by (auto simp: load_segment_def a r Let_def split: option.splits)
  qed
qed

lemma load_interp_tidy:
  assumes "holds [t] st"
  shows "tidy (load_interp E f t p st) (holds [t])"
proof -
  obtain a s1 where a: "call_malloc E (p_filesz p + 1) st = (a, s1)" by fastforce
  obtain r s2 where r: "sys_read E f (unat (p_filesz p)) (lseek_set (p_offset p) s1) = (r, s2)" by fastforce
  have s1: "holds (if a = 0 then [t] else [a, t]) s1" using malloc_holds [OF a assms] by simp
  have s2: "holds (if a = 0 then [t] else [a, t]) s2" using sys_read_holds [OF r] s1 by simp
  show ?thesis
  proof (cases "a = 0")
    case True
    then show ?thesis using s1 by (simp add: load_interp_def a)
  next
    case False
    then have h: "holds [a, t] (put s s2)" for s using s2 by simp
    show ?thesis using False s2 free_ok [OF h] by (auto simp: load_interp_def a r Let_def)
  qed
qed

lemma load_all_tidy: "holds [t] st \<Longrightarrow> tidy (load_all E f t ps st) (holds [t])"
proof (induction ps arbitrary: st)
  case (Cons p ps)
  show ?case unfolding load_all.simps
    by (rule tidy_then [of _ "holds [t]"], use Cons.prems load_segment_tidy in simp,
        rule tidy_then [of _ "holds [t]"], use load_interp_tidy in simp, rule Cons.IH)
qed simp

lemma release_ok:
  assumes "holds [t] st"
  shows "\<exists>st'. elf_release t st = Inr st' \<and> \<not> fd_open st' \<and> live st' = [] \<and> heap st' = heap st \<and>
    load_segments st' = load_segments st \<and> lerr st' = lerr st"
proof -
  let ?segs = "map host_addr (load_segments st)"
  have "mset (live st) = mset ?segs + {#t#}" using assms by (simp add: holds_def)
  from free_all_live [OF this] obtain l where l: "free_all ?segs st = Inr (st\<lparr>live := l\<rparr>)" "mset l = {#t#}" by blast
  have "l = [t]" using l(2) by simp
  then show ?thesis using l(1) by (simp add: elf_release_def call_free_def put_def)
qed

definition released :: "loader \<Rightarrow> bool" where
  "released st \<longleftrightarrow> \<not> fd_open st \<and> live st = []"

lemma load_tidy:
  assumes "holds [] st"
  shows "tidy (elf_load E f st) released"
proof -
  have rest: "tidy (if \<not> list_ex (\<lambda>p. p_type p = PT_LOAD) ps then fail ''No loadable segments in ELF!'' [t] s
       else and_then (load_all E f t ps (put x s)) (\<lambda>s'. elf_release t (elf_report h s'))) released"
    if "holds [t] s" for t ps s x h
  proof -
    have "tidy (elf_release t (elf_report h s')) released" if "holds [t] s'" for s'
      using release_ok [of t "elf_report h s'"] that by (auto simp: released_def)
    then have "tidy (and_then (load_all E f t ps (put x s)) (\<lambda>s'. elf_release t (elf_report h s'))) released"
      using that by (intro tidy_then [OF load_all_tidy]) simp_all
    then show ?thesis using that by simp
  qed
  have table: "tidy (and_then (read_phdrs E f h s) (\<lambda>((t, ps), s).
      if \<not> list_ex (\<lambda>p. p_type p = PT_LOAD) ps then fail ''No loadable segments in ELF!'' [t] s
      else and_then (load_all E f t ps (put x s)) (\<lambda>s'. elf_release t (elf_report h s')))) released"
    if "holds [] s" for h s x
    by (rule tidy_then [OF read_phdrs_tidy [OF that]]) (use rest in auto)
  show ?thesis
    unfolding elf_load_def
    by (rule tidy_then [OF ident_tidy [OF assms]], rule tidy_then [OF header_tidy], assumption, clarsimp,
        rule tidy_then [OF print_phdrs_tidy], simp, rule table)
qed

end
