(* ===== verification/ElfProps.thy ===== *)
theory ElfProps
  imports ElfMemory
begin

text \<open>
  The properties of \<^verbatim>\<open>ELF-loader/elfload.c\<close>: what it accepts, the memory image it builds, the address
  translation, and the write past a segment it does not prevent.
\<close>

section \<open>Address translation\<close>

definition seg_contains :: "u64 \<Rightarrow> LoadedSegment \<Rightarrow> bool" where
  "seg_contains v s \<longleftrightarrow> unat (virt_addr s) \<le> unat v \<and> unat v < unat (virt_addr s) + unat (seg_size s)"

definition seg_ends_inside :: "LoadedSegment \<Rightarrow> bool" where
  "seg_ends_inside s \<longleftrightarrow> unat (virt_addr s) + unat (seg_size s) < 2 ^ 64"

lemma unat_add_u64: "unat (a + b :: u64) = (unat a + unat b) mod 2 ^ 64"
  by (simp add: unat_word_ariths)

lemma seg_test:
  "virt_addr s \<le> v \<and> v < virt_addr s + seg_size s \<longleftrightarrow> seg_ends_inside s \<and> seg_contains v s"
proof (cases "seg_ends_inside s")
  case True
  then have "unat (virt_addr s + seg_size s) = unat (virt_addr s) + unat (seg_size s)"
    unfolding unat_add_u64 seg_ends_inside_def by (rule mod_less)
  then show ?thesis using True by (simp add: seg_contains_def word_le_nat_alt word_less_nat_alt)
next
  case False
  have "unat (virt_addr s + seg_size s) = unat (virt_addr s) + unat (seg_size s) - 2 ^ 64"
    using False unat_u64_less [of "virt_addr s"] unat_u64_less [of "seg_size s"]
    unfolding unat_add_u64 seg_ends_inside_def by (simp add: mod_if)
  then have "unat (virt_addr s + seg_size s) \<le> unat (virt_addr s)"
    using unat_u64_less [of "seg_size s"] by simp
  then show ?thesis using False by (auto simp: word_le_nat_alt word_less_nat_alt)
qed

text \<open>
  Address translation: \<^verbatim>\<open>vaddr_to_host\<close> returns the host address of the first segment that
  contains the virtual address, at the same offset from its start, and \<^verbatim>\<open>NULL\<close> when no segment does;
  only a segment that reaches the end of the 64-bit address space or wraps round it is never found,
  because its end is computed modulo \<open>2 ^ 64\<close>.
\<close>

theorem vaddr_to_host_finds:
  "vaddr_to_host segs v =
    (case find (\<lambda>s. seg_ends_inside s \<and> seg_contains v s) segs of
       None \<Rightarrow> 0
     | Some s \<Rightarrow> host_addr s + (v - virt_addr s))"
proof (induction segs)
  case Nil
  then show ?case by simp
next
  case (Cons s ss)
  then show ?case using seg_test [of s v] by (simp add: Let_def)
qed

section \<open>Reading the file\<close>

definition reads_ok :: "elf_env \<Rightarrow> bool" where
  "reads_ok E \<longleftrightarrow> (\<forall>p n. read_ok E p n)"

lemma lseek_sel [simp]:
  "heap (lseek_set off st) = heap st" "mallocs (lseek_set off st) = mallocs st" "live (lseek_set off st) = live st"
  "load_segments (lseek_set off st) = load_segments st" "lerr (lseek_set off st) = lerr st"
  by (simp_all add: lseek_set_def)

lemma sint_small:
  assumes "unat (w :: u64) < 2 ^ 63"
  shows "sint w = int (unat w)"
proof -
  have "uint w < 2 ^ 63" using assms by (metis nat_less_numeral_power_cancel_iff unat_eq_nat_uint)
  moreover have "- (2 ^ 63) \<le> uint w" by (rule order_trans [OF _ unsigned_greater_eq]) simp
  ultimately have "signed_take_bit 63 (uint w) = uint w" by (intro signed_take_bit_int_eq_self)
  then show ?thesis by (simp add: sint_uint)
qed

lemma lseek_fpos: "unat off < 2 ^ 63 \<Longrightarrow> fpos (lseek_set off st) = unat off"
  by (simp add: lseek_set_def sint_small)

lemma read_exact_cases:
  assumes "reads_ok E"
  shows "read_exact E f n as st =
    (let bs = take n (drop (fpos st) f); st1 = st\<lparr>fpos := fpos st + length bs\<rparr>
     in if length bs = n then Inr (bs, st1) else fail ''read'' as st1)"
  using assms by (simp add: read_exact_def sys_read_def reads_ok_def Let_def)

lemma read_exact_ok:
  assumes "reads_ok E" and "fpos st + n \<le> length f"
  shows "read_exact E f n as st = Inr (take n (drop (fpos st) f), st\<lparr>fpos := fpos st + n\<rparr>)"
  using assms by (simp add: read_exact_cases Let_def)

lemma fail_neq [simp]: "fail msg as st \<noteq> Inr x" "Inr x \<noteq> fail msg as st"
  by (simp_all add: fail_def and_then_def split: sum.splits)

lemma fail_and_then [simp]: "and_then (fail msg as st) g = fail msg as st"
  by (simp add: fail_def and_then_def split: sum.splits)

section \<open>Validation\<close>

definition header_of :: "u8 list \<Rightarrow> Elf64_Ehdr" where
  "header_of f = read_ehdr (take 64 f)"

definition elf_accepts :: "u8 list \<Rightarrow> bool" where
  "elf_accepts f \<longleftrightarrow> 64 \<le> length f \<and> elf_magic f \<and> e_machine (header_of f) = 62 \<and>
     e_version (header_of f) = 1 \<and> e_phnum (header_of f) \<noteq> 0 \<and> e_phentsize (header_of f) = 56"

definition elf_validate :: "elf_env \<Rightarrow> u8 list \<Rightarrow> estop + Elf64_Ehdr \<times> loader" where
  "elf_validate E f = and_then (elf_ident E f opened) (elf_header E f)"

lemma elf_magic_take: "4 \<le> n \<Longrightarrow> elf_magic (take n f) = elf_magic f"
  by (simp add: elf_magic_def)

text \<open>The state in which the program headers are read.\<close>

definition validated :: "u8 list \<Rightarrow> loader \<Rightarrow> bool" where
  "validated f st \<longleftrightarrow> heap st = heap opened \<and> load_segments st = [] \<and> mallocs st = 0 \<and> lerr st = []"

lemma elf_ident_cases:
  assumes "reads_ok E"
  shows "(\<exists>st. elf_ident E f opened = Inr st) \<longleftrightarrow> 16 \<le> length f \<and> elf_magic f"
    and "elf_ident E f opened = Inr st \<Longrightarrow> validated f st"
  using assms elf_magic_take [of 16 f]
  by (auto simp: elf_ident_def read_exact_cases Let_def opened_def loader_init_def validated_def put_def
      split: if_splits)

lemma lseek_0 [simp]: "fpos (lseek_set 0 st) = 0"
  by (simp add: lseek_set_def)

lemma elf_header_cases:
  assumes "reads_ok E"
  shows "(\<exists>r. elf_header E f st = Inr r) \<longleftrightarrow> 64 \<le> length f \<and> e_machine (header_of f) = 62 \<and>
      e_version (header_of f) = 1 \<and> e_phnum (header_of f) \<noteq> 0 \<and> e_phentsize (header_of f) = 56"
    and "elf_header E f st = Inr (h, st') \<Longrightarrow> validated f st \<Longrightarrow> h = header_of f \<and> validated f st'"
  using assms
  by (auto simp: elf_header_def read_exact_cases Let_def header_of_def validated_def split: if_splits)

lemma elf_validate_accepts:
  assumes "reads_ok E"
  shows "(\<exists>r. elf_validate E f = Inr r) \<longleftrightarrow> elf_accepts f"
  using elf_ident_cases(1) [OF assms, of f] elf_header_cases(1) [OF assms, of f]
  by (force simp: elf_validate_def elf_accepts_def and_then_Inr)

lemma elf_validate_state:
  assumes "reads_ok E" and "elf_validate E f = Inr (h, st)"
  shows "h = header_of f" and "validated f st"
  using assms elf_ident_cases(2) [OF assms(1)] elf_header_cases(2) [OF assms(1)]
  by (auto simp: elf_validate_def and_then_Inr)

lemma header_of_ident: "header_of (f[4 := a, 5 := b]) = header_of f"
proof -
  have "field ((take 64 f)[4 := a, 5 := b]) off n = field (take 64 f) off n" if "16 \<le> off" for off n
    unfolding field_def by (rule le_load_cong) (use that in simp)
  then show ?thesis by (simp add: header_of_def read_ehdr_def take_update_swap)
qed

lemma elf_magic_ident: "elf_magic (f[4 := a, 5 := b]) = elf_magic f"
  by (simp add: elf_magic_def)

text \<open>
  C40: Validation: the loader gets past the checks of the identification and the header exactly when
  the file has 64 bytes, the magic number, machine x86-64, version 1, at least one program header and
  program headers of 56 bytes; the class and byte-order bytes do not matter, so a file marked as
  32-bit or big-endian is taken as well.
\<close>

theorem elf_validation:
  assumes "reads_ok E"
  shows "((\<exists>r. elf_validate E f = Inr r) \<longleftrightarrow> elf_accepts f) \<and>
    elf_accepts (f[4 := a, 5 := b]) = elf_accepts f"
  using elf_validate_accepts [OF assms, of f]
  by (simp add: elf_accepts_def header_of_ident elf_magic_ident)

theorem elf_validation_witness:
  "\<not> elf_accepts [] \<and>
   \<not> (\<exists>r. elf_validate \<lparr>binary = (\<lambda>_. None), read_ok = (\<lambda>_ _. True), malloc_at = (\<lambda>_ _. 0)\<rparr> [] = Inr r)"
  using elf_validation [of "\<lparr>binary = (\<lambda>_. None), read_ok = (\<lambda>_ _. True), malloc_at = (\<lambda>_ _. 0)\<rparr>" "[]"]
  by (simp add: reads_ok_def elf_accepts_def)

section \<open>The program headers\<close>

definition phdrs_of :: "u8 list \<Rightarrow> Elf64_Phdr list" where
  "phdrs_of f = (let h = header_of f; n = unat (e_phnum h)
     in split_phdrs n (take (56 * n) (drop (unat (e_phoff h)) f)))"

definition table_fits :: "u8 list \<Rightarrow> bool" where
  "table_fits f \<longleftrightarrow> unat (e_phoff (header_of f)) < 2 ^ 63 \<and>
     unat (e_phoff (header_of f)) + 56 * unat (e_phnum (header_of f)) \<le> length f"

definition same_image :: "loader \<Rightarrow> loader \<Rightarrow> bool" where
  "same_image st st' \<longleftrightarrow> heap st' = heap st \<and> load_segments st' = load_segments st \<and> lerr st' = lerr st"

lemma phdr_line_sel [simp]:
  "fpos (phdr_line i p st) = fpos st" "heap (phdr_line i p st) = heap st"
  "mallocs (phdr_line i p st) = mallocs st" "load_segments (phdr_line i p st) = load_segments st"
  "lerr (phdr_line i p st) = lerr st"
  by (simp_all add: phdr_line_def print_flags_def)

lemma print_phdrs_ok:
  assumes "reads_ok E" and "fpos st + 56 * n \<le> length f"
  shows "\<exists>st'. print_phdrs E f i n st = Inr st' \<and> same_image st st' \<and> mallocs st' = mallocs st"
  using assms(2)
proof (induction n arbitrary: i st)
  case 0
  then show ?case by (simp add: same_image_def)
next
  case (Suc n)
  have "fpos st + 56 \<le> length f" using Suc.prems by simp
  then obtain bs where "read_exact E f 56 [] st = Inr (bs, st\<lparr>fpos := fpos st + 56\<rparr>)"
    using read_exact_ok [OF assms(1)] by blast
  then show ?case
    using Suc.IH [of "phdr_line i (read_phdr bs) (st\<lparr>fpos := fpos st + 56\<rparr>)" "Suc i"] Suc.prems
    by (simp add: same_image_def)
qed

lemma read_phdrs_ok:
  assumes "reads_ok E" and "\<And>n sz. malloc_at E n sz \<noteq> 0" and "table_fits f" and "h = header_of f"
  shows "\<exists>t st'. read_phdrs E f h st = Inr ((t, phdrs_of f), st') \<and> same_image st st' \<and>
    mallocs st' = Suc (mallocs st)"
proof -
  let ?n = "unat (e_phnum h)"
  let ?a = "malloc_at E (mallocs st) (of_nat (56 * ?n))"
  let ?s = "lseek_set (e_phoff h) (st\<lparr>mallocs := Suc (mallocs st), live := ?a # live st\<rparr>)"
  have p: "fpos ?s = unat (e_phoff h)" using assms(3,4) by (simp add: lseek_fpos table_fits_def)
  have "fpos ?s + 56 * ?n \<le> length f" using assms(3,4) unfolding p by (simp add: table_fits_def)
  from read_exact_ok [OF assms(1) this] show ?thesis
    using assms(2,4) p
    by (simp add: read_phdrs_def call_malloc_def phdrs_of_def Let_def same_image_def)
qed

section \<open>The image\<close>

text \<open>What a loadable header asks for: the bytes of the file, indeterminate where the file ends, then zeros.\<close>

definition segment_image :: "u8 list \<Rightarrow> Elf64_Phdr \<Rightarrow> u8 option list" where
  "segment_image f p =
     (let bs = take (unat (p_filesz p)) (drop (unat (p_offset p)) f)
      in map Some bs @ replicate (unat (p_filesz p) - length bs) None @
         replicate (unat (p_memsz p) - unat (p_filesz p)) (Some 0))"

definition segment_at :: "Elf64_Phdr \<Rightarrow> u64 \<Rightarrow> LoadedSegment" where
  "segment_at p a = \<lparr>host_addr = a, virt_addr = p_vaddr p, seg_size = p_memsz p, seg_flags = p_flags p\<rparr>"

definition phdr_fits :: "u8 list \<Rightarrow> Elf64_Phdr \<Rightarrow> bool" where
  "phdr_fits f p \<longleftrightarrow>
     (p_type p = PT_LOAD \<longrightarrow> p_filesz p \<le> p_memsz p \<and> unat (p_offset p) < 2 ^ 63) \<and>
     (p_type p = PT_INTERP \<longrightarrow> unat (p_filesz p) < 2 ^ 63 \<and> unat (p_offset p) < 2 ^ 63 \<and>
        unat (p_offset p) + unat (p_filesz p) \<le> length f)"

text \<open>The addresses \<^verbatim>\<open>malloc\<close> gives the segments, from its \<open>n\<close>-th call on.\<close>

fun seg_addrs :: "elf_env \<Rightarrow> nat \<Rightarrow> Elf64_Phdr list \<Rightarrow> u64 list" where
  "seg_addrs E n [] = []"
| "seg_addrs E n (p # ps) =
     (if p_type p = PT_LOAD then malloc_at E n (p_memsz p) # seg_addrs E (Suc n) ps
      else if p_type p = PT_INTERP then seg_addrs E (Suc n) ps
      else seg_addrs E n ps)"

lemma load_segment_ok:
  assumes "reads_ok E" and "phdr_fits f p" and "p_type p = PT_LOAD"
    and a: "a = malloc_at E (mallocs st) (p_memsz p)" "a \<noteq> 0"
  shows "\<exists>st'. load_segment E f t p st = Inr st' \<and> heap st' = (heap st)(a \<mapsto> segment_image f p) \<and>
    load_segments st' = load_segments st @ [segment_at p a] \<and> mallocs st' = Suc (mallocs st) \<and>
    lerr st' = lerr st"
proof -
  have le: "unat (p_filesz p) \<le> unat (p_memsz p)" and off: "unat (p_offset p) < 2 ^ 63"
    using assms(2,3) by (simp_all add: phdr_fits_def word_le_nat_alt)
  let ?st = "put (segment_text p) st"
  let ?s = "lseek_set (p_offset p)
    (?st\<lparr>mallocs := Suc (mallocs st), live := malloc_at E (mallocs st) (p_memsz p) # live ?st\<rparr>)"
  let ?bs = "take (unat (p_filesz p)) (drop (unat (p_offset p)) f)"
  have r: "sys_read E f (unat (p_filesz p)) ?s = (Some ?bs, ?s\<lparr>fpos := fpos ?s + length ?bs\<rparr>)"
    using assms(1) lseek_fpos [OF off] by (simp add: sys_read_def reads_ok_def Let_def)
  have n: "length ?bs \<le> unat (p_memsz p)" using le by simp
  have z: "zero_fill p (map Some ?bs @ replicate (unat (p_memsz p) - length ?bs) None) = segment_image f p"
    using le
    by (auto simp: zero_fill_def segment_image_def Let_def word_less_nat_alt unat_sub word_le_nat_alt)
  show ?thesis
    using r n z le a(2)
    by (simp add: load_segment_def call_malloc_def Let_def a(1) segment_at_def)
qed

lemma load_interp_ok:
  assumes "reads_ok E" and "\<And>n sz. malloc_at E n sz \<noteq> 0" and "phdr_fits f p" and "p_type p = PT_INTERP"
  shows "\<exists>st'. load_interp E f t p st = Inr st' \<and> same_image st st' \<and> mallocs st' = Suc (mallocs st)"
proof -
  have sz: "unat (p_filesz p) < 2 ^ 63" and off: "unat (p_offset p) < 2 ^ 63"
    and len: "unat (p_offset p) + unat (p_filesz p) \<le> length f"
    using assms(3,4) by (simp_all add: phdr_fits_def)
  let ?s = "lseek_set (p_offset p)
    (st\<lparr>mallocs := Suc (mallocs st), live := malloc_at E (mallocs st) (p_filesz p + 1) # live st\<rparr>)"
  let ?bs = "take (unat (p_filesz p)) (drop (unat (p_offset p)) f)"
  have r: "sys_read E f (unat (p_filesz p)) ?s = (Some ?bs, ?s\<lparr>fpos := fpos ?s + length ?bs\<rparr>)"
    using assms(1) lseek_fpos [OF off] by (simp add: sys_read_def reads_ok_def Let_def)
  have l: "length ?bs = unat (p_filesz p)" using len by simp
  have u: "unat (p_filesz p + 1) = Suc (unat (p_filesz p))"
    using sz by (simp add: unat_word_ariths)
  have s: "sint (p_filesz p) = int (unat (p_filesz p))" by (rule sint_small [OF sz])
  show ?thesis
    using assms(2) r l u s
    by (simp add: load_interp_def call_malloc_def call_free_def Let_def same_image_def del: length_take)
qed

definition image_loaded :: "u8 list \<Rightarrow> Elf64_Phdr list \<Rightarrow> u64 list \<Rightarrow> loader \<Rightarrow> bool" where
  "image_loaded f ps as st \<longleftrightarrow> list_all2 (\<lambda>p a. heap st a = Some (segment_image f p)) ps as"

abbreviation loads :: "Elf64_Phdr list \<Rightarrow> Elf64_Phdr list" where
  "loads ps \<equiv> filter (\<lambda>p. p_type p = PT_LOAD) ps"

lemma PT_distinct [simp]: "PT_LOAD \<noteq> PT_INTERP" "PT_INTERP \<noteq> PT_LOAD"
  by (simp_all add: PT_LOAD_def PT_INTERP_def)

lemma length_seg_addrs: "length (seg_addrs E n ps) = length (loads ps)"
  by (induction ps arbitrary: n) auto

lemma load_all_ok:
  assumes "reads_ok E" and "\<And>n sz. malloc_at E n sz \<noteq> 0"
    and "list_all (phdr_fits f) ps" and "distinct (seg_addrs E (mallocs st) ps)"
  shows "\<exists>st'. load_all E f t ps st = Inr st' \<and>
    load_segments st' = load_segments st @ map2 segment_at (loads ps) (seg_addrs E (mallocs st) ps) \<and>
    image_loaded f (loads ps) (seg_addrs E (mallocs st) ps) st' \<and>
    (\<forall>a. a \<notin> set (seg_addrs E (mallocs st) ps) \<longrightarrow> heap st' a = heap st a) \<and> lerr st' = lerr st"
  using assms(3,4)
proof (induction ps arbitrary: st)
  case Nil
  then show ?case by (simp add: image_loaded_def)
next
  case (Cons p ps)
  have fits: "phdr_fits f p" "list_all (phdr_fits f) ps" using Cons.prems(1) by simp_all
  consider (load) "p_type p = PT_LOAD" | (interp) "p_type p = PT_INTERP"
    | (other) "p_type p \<noteq> PT_LOAD" "p_type p \<noteq> PT_INTERP" by blast
  then show ?case
  proof cases
    case load
    let ?a = "malloc_at E (mallocs st) (p_memsz p)"
    obtain s1 where s1: "load_segment E f t p st = Inr s1" "heap s1 = (heap st)(?a \<mapsto> segment_image f p)"
        "load_segments s1 = load_segments st @ [segment_at p ?a]" "mallocs s1 = Suc (mallocs st)"
        "lerr s1 = lerr st"
      using load_segment_ok [OF assms(1) fits(1) load refl assms(2)] by blast
    have d: "?a \<notin> set (seg_addrs E (mallocs s1) ps)" "distinct (seg_addrs E (mallocs s1) ps)"
      using Cons.prems(2) load s1(4) by simp_all
    obtain s2 where s2: "load_all E f t ps s1 = Inr s2"
        "load_segments s2 = load_segments s1 @ map2 segment_at (loads ps) (seg_addrs E (mallocs s1) ps)"
        "image_loaded f (loads ps) (seg_addrs E (mallocs s1) ps) s2"
        "\<forall>a. a \<notin> set (seg_addrs E (mallocs s1) ps) \<longrightarrow> heap s2 a = heap s1 a" "lerr s2 = lerr s1"
      using Cons.IH [OF fits(2) d(2)] by blast
    have "heap s2 ?a = Some (segment_image f p)" using s2(4) d(1) s1(2) by simp
    then show ?thesis using load s1 s2 by (auto simp: image_loaded_def)
  next
    case interp
    obtain s1 where s1: "load_interp E f t p st = Inr s1" "same_image st s1" "mallocs s1 = Suc (mallocs st)"
      using load_interp_ok [OF assms(1,2) fits(1) interp] by blast
    then show ?thesis
      using interp Cons.IH [OF fits(2), of s1] Cons.prems(2) by (simp add: same_image_def)
  next
    case other
    then show ?thesis using Cons.IH [OF fits(2), of st] Cons.prems(2) by simp
  qed
qed

definition elf_ok :: "elf_env \<Rightarrow> u8 list \<Rightarrow> bool" where
  "elf_ok E f \<longleftrightarrow> elf_accepts f \<and> table_fits f \<and> list_all (phdr_fits f) (phdrs_of f) \<and>
     loads (phdrs_of f) \<noteq> [] \<and> distinct (seg_addrs E 1 (phdrs_of f))"

lemma elf_report_sel [simp]:
  "heap (elf_report h st) = heap st" "load_segments (elf_report h st) = load_segments st"
  "lerr (elf_report h st) = lerr st"
  by (simp_all add: elf_report_def Let_def)

lemma elf_load_image:
  assumes "reads_ok E" and "\<And>n sz. malloc_at E n sz \<noteq> 0" and "elf_ok E f"
  shows "\<exists>st. elf_load E f opened = Inr st \<and> lerr st = [] \<and>
    load_segments st = map2 segment_at (loads (phdrs_of f)) (seg_addrs E 1 (phdrs_of f)) \<and>
    image_loaded f (loads (phdrs_of f)) (seg_addrs E 1 (phdrs_of f)) st"
proof -
  let ?h = "header_of f"
  have ok: "elf_accepts f" "table_fits f" using assms(3) by (simp_all add: elf_ok_def)
  obtain h s1 where e: "elf_validate E f = Inr (h, s1)"
    using elf_validate_accepts [OF assms(1), of f] ok(1) by force
  note h = elf_validate_state [OF assms(1) e]
  have v: "validated f s1" by (rule h(2))
  obtain s0 where s1: "elf_ident E f opened = Inr s0" "elf_header E f s0 = Inr (?h, s1)"
    using e h(1) unfolding elf_validate_def and_then_Inr by blast
  have pos: "fpos (lseek_set (e_phoff ?h) s1) + 56 * unat (e_phnum ?h) \<le> length f"
    using ok(2) by (simp add: table_fits_def lseek_fpos)
  then obtain s2 where s2: "print_phdrs E f 0 (unat (e_phnum ?h)) (lseek_set (e_phoff ?h) s1) = Inr s2"
      "same_image s1 s2" "mallocs s2 = mallocs s1"
    using print_phdrs_ok [OF assms(1) pos, of 0] by (auto simp: same_image_def)
  obtain t s3 where s3: "read_phdrs E f ?h s2 = Inr ((t, phdrs_of f), s3)" "same_image s2 s3"
      "mallocs s3 = Suc (mallocs s2)"
    using read_phdrs_ok [OF assms(1,2) ok(2) refl] by blast
  have hold: "holds [] s0" "holds [] s1" "holds [] s2" "holds [t] s3"
  proof -
    show 0: "holds [] s0" using ident_tidy [OF opened_holds, of E f] s1(1) by simp
    show 1: "holds [] s1" using header_tidy [OF 0, of E f] s1(2) by simp
    show 2: "holds [] s2"
      using print_phdrs_tidy [of "lseek_set (e_phoff ?h) s1" E f 0 "unat (e_phnum ?h)"] 1 s2(1) by simp
    show "holds [t] s3" using read_phdrs_tidy [OF 2, of E f ?h] s3(1) by simp
  qed
  let ?s4 = "put ([NL] @ ''---LOAD SEGMENTS---'' @ [NL]) s3"
  have m: "mallocs ?s4 = 1" "lerr ?s4 = []" "load_segments ?s4 = []"
    using v s2 s3 by (simp_all add: validated_def same_image_def)
  obtain s5 where s5: "load_all E f t (phdrs_of f) ?s4 = Inr s5" "lerr s5 = []"
      "load_segments s5 = map2 segment_at (loads (phdrs_of f)) (seg_addrs E 1 (phdrs_of f))"
      "image_loaded f (loads (phdrs_of f)) (seg_addrs E 1 (phdrs_of f)) s5"
    using load_all_ok [OF assms(1,2), of f "phdrs_of f" ?s4 t] assms(3) m by (auto simp: elf_ok_def)
  have "list_ex (\<lambda>p. p_type p = PT_LOAD) (phdrs_of f)"
    using assms(3) by (auto simp: elf_ok_def list_ex_iff filter_empty_conv)
  moreover have "holds [t] (elf_report ?h s5)"
    using load_all_tidy [of t ?s4 E f "phdrs_of f"] s5(1) hold(4) by simp
  from release_ok [OF this] obtain st where "elf_release t (elf_report ?h s5) = Inr st" "heap st = heap s5"
      "load_segments st = load_segments s5" "lerr st = lerr s5"
    by auto
  ultimately show ?thesis
    using s5 by (simp add: elf_load_def s1 s2(1) s3(1) image_loaded_def)
qed

section \<open>An example file\<close>

text \<open>One loadable header: three bytes of the file at offset 120, five bytes of memory at \<open>0x1000\<close>.\<close>

definition elf_example :: "u8 list" where
  "elf_example =
     [0x7F, 0x45, 0x4C, 0x46, 2, 1, 1, 0] @ [0, 0, 0, 0, 0, 0, 0, 0] @
     [2, 0, 62, 0, 1, 0, 0, 0] @ [0, 0x10, 0, 0, 0, 0, 0, 0] @ [64, 0, 0, 0, 0, 0, 0, 0] @
     [0, 0, 0, 0, 0, 0, 0, 0] @ [0, 0, 0, 0, 64, 0, 56, 0] @ [1, 0, 0, 0, 0, 0, 0, 0] @
     [1, 0, 0, 0, 5, 0, 0, 0] @ [120, 0, 0, 0, 0, 0, 0, 0] @ [0, 0x10, 0, 0, 0, 0, 0, 0] @
     [0, 0, 0, 0, 0, 0, 0, 0] @ [3, 0, 0, 0, 0, 0, 0, 0] @ [5, 0, 0, 0, 0, 0, 0, 0] @
     [0, 0, 0, 0, 0, 0, 0, 0] @ [7, 8, 9]"

definition elf_example_env :: elf_env where
  "elf_example_env =
     \<lparr>binary = (\<lambda>_. Some elf_example), read_ok = (\<lambda>_ _. True), malloc_at = (\<lambda>n _. if n = 1 then 0x5000 else 0x1000)\<rparr>"

lemma elf_example_header:
  "header_of elf_example = \<lparr>e_type = 2, e_machine = 62, e_version = 1, e_entry = 0x1000,
     e_phoff = 64, e_shoff = 0, e_phentsize = 56, e_phnum = 1\<rparr>"
  by (simp add: header_of_def read_ehdr_def field_def elf_example_def le_load_numeral)

lemma elf_example_phdrs:
  "phdrs_of elf_example =
     [\<lparr>p_type = 1, p_flags = 5, p_offset = 120, p_vaddr = 0x1000, p_filesz = 3, p_memsz = 5\<rparr>]"
  unfolding phdrs_of_def elf_example_header
  by (simp add: Let_def read_phdr_def field_def) (simp add: elf_example_def le_load_numeral)

lemma elf_example_magic: "length elf_example = 123" "elf_magic elf_example"
  by (simp_all add: elf_example_def elf_magic_def)

lemma elf_example_image:
  "segment_image elf_example
     \<lparr>p_type = 1, p_flags = 5, p_offset = 120, p_vaddr = 0x1000, p_filesz = 3, p_memsz = 5\<rparr> =
   [Some 7, Some 8, Some 9, Some 0, Some 0]"
  unfolding segment_image_def
  by (simp add: Let_def) (simp add: elf_example_def numeral_2_eq_2)

lemma elf_example_ok: "elf_ok elf_example_env elf_example"
  by (simp add: elf_ok_def elf_accepts_def elf_example_header elf_example_magic table_fits_def
      elf_example_phdrs phdr_fits_def PT_LOAD_def PT_INTERP_def elf_example_env_def)

lemma elf_example_env_ok:
  "reads_ok elf_example_env" "malloc_at elf_example_env n sz \<noteq> 0"
  "binary elf_example_env path = Some elf_example"
  by (simp_all add: elf_example_env_def reads_ok_def)

text \<open>
  C14: Loading: for every accepted file whose header table lies in the file and whose loadable headers
  ask for no more bytes of the file than of memory, when reads and allocations succeed and live
  blocks have different addresses, the loader returns 0 with an empty \<^verbatim>\<open>stderr\<close>, its table has one
  entry per \<^verbatim>\<open>PT_LOAD\<close> header, in order, and what it has written to the block of each entry is the bytes
  of the file at the header's offset followed by zeros up to the memory size.
\<close>

theorem elf_loads_image:
  assumes "reads_ok E" and "\<And>n sz. malloc_at E n sz \<noteq> 0" and "binary E path = Some f" and "elf_ok E f"
  shows "\<exists>st. elf_main E [prog, path] = Inr (0, st) \<and> lerr st = [] \<and>
    load_segments st = map2 segment_at (loads (phdrs_of f)) (seg_addrs E 1 (phdrs_of f)) \<and>
    image_loaded f (loads (phdrs_of f)) (seg_addrs E 1 (phdrs_of f)) st"
  using elf_load_image [OF assms(1,2,4)] assms(3) by (auto simp: elf_main_def)

theorem elf_loads_image_witness:
  "\<exists>st. elf_main elf_example_env [''loader'', ''a.out''] = Inr (0, st) \<and> lerr st = [] \<and>
    load_segments st = [\<lparr>host_addr = 0x5000, virt_addr = 0x1000, seg_size = 5, seg_flags = 5\<rparr>] \<and>
    heap st 0x5000 = Some [Some 7, Some 8, Some 9, Some 0, Some 0]"
proof -
  have a: "seg_addrs elf_example_env 1 (phdrs_of elf_example) = [0x5000]"
    by (simp add: elf_example_phdrs PT_LOAD_def elf_example_env_def)
  show ?thesis
    using elf_loads_image [OF elf_example_env_ok elf_example_ok, of "''loader''" "''a.out''"]
    unfolding a
    by (simp add: elf_example_phdrs PT_LOAD_def segment_at_def image_loaded_def elf_example_image)
qed

section \<open>What is released\<close>

text \<open>
  C16: Resources: on every file, whatever reads and allocations are refused, the loader frees only blocks
  it holds, each once; it closes the file on every path; when it returns 0 it has released every block,
  and when it returns 1 exactly the blocks of the segments loaded so far are still allocated. Its only
  fault is an access outside a block.
\<close>

theorem elf_releases:
  assumes "binary E path = Some f"
  shows "case elf_main E (prog # path # args) of
      Inl e \<Rightarrow> e = Out_Of_Bounds
    | Inr (c, st) \<Rightarrow> \<not> fd_open st \<and>
        (c = 0 \<and> live st = [] \<or> c = 1 \<and> mset (live st) = mset (map host_addr (load_segments st)))"
  using load_tidy [OF opened_holds, of E f] assms
  by (auto simp: elf_main_def tidy_def clean_end_def released_def split: sum.splits estop.splits)

theorem elf_releases_witness:
  "\<exists>st. elf_main elf_example_env [''loader'', ''a.out''] = Inr (0, st) \<and> live st = [] \<and> \<not> fd_open st"
proof -
  obtain st where "elf_load elf_example_env elf_example opened = Inr st"
    using elf_load_image [OF elf_example_env_ok(1,2) elf_example_ok] by blast
  then have "elf_main elf_example_env [''loader'', ''a.out''] = Inr (0, st)"
    by (simp add: elf_main_def elf_example_env_ok)
  then show ?thesis
    using elf_releases [OF elf_example_env_ok(3), of "''loader''" "''a.out''" "[]"] by simp
qed

text \<open>A failure after the first segment leaks it.\<close>

lemma loader_leaks:
  assumes "reads_ok E" and "phdr_fits f p" and "p_type p = PT_LOAD" and "p_type q = PT_LOAD"
    and m: "a = malloc_at E (mallocs st) (p_memsz p)" "a \<noteq> 0" "malloc_at E (Suc (mallocs st)) (p_memsz q) = 0"
    and st: "holds [t] st" "load_segments st = []"
  shows "\<exists>st'. load_all E f t (p # q # ps) st = Inl (EReturn 1 st') \<and> live st' = [a]"
proof -
  obtain s1 where s1: "load_segment E f t p st = Inr s1" "load_segments s1 = [segment_at p a]" "mallocs s1 = Suc (mallocs st)"
    using load_segment_ok [OF assms(1-3) m(1,2)] st(2) by auto
  have h: "holds [t] s1" using load_segment_tidy [OF st(1), of E f p] s1(1) by simp
  let ?s = "(put (segment_text q) s1)\<lparr>mallocs := Suc (mallocs s1)\<rparr>"
  have "holds [t] ?s" using h by (simp add: holds_def put_def)
  from fail_ok [OF this] obtain st' where "fail ''malloc'' [t] ?s = (Inl (EReturn 1 st') :: estop + loader)"
      "clean_end st'" "load_segments st' = [segment_at p a]"
    using s1(2) by auto
  moreover have "load_segment E f t q s1 = fail ''malloc'' [t] ?s"
    using m(3) s1(3) by (simp add: load_segment_def call_malloc_def put_def)
  ultimately show ?thesis
    using assms(3,4) s1(1) by (auto simp: clean_end_def segment_at_def)
qed

text \<open>
  A loadable header that asks for more bytes of the file than of memory makes the loader write past
  the segment: nothing compares \<^verbatim>\<open>p_filesz\<close> with \<^verbatim>\<open>p_memsz\<close>, so as soon as the file has more bytes
  than the block, \<^verbatim>\<open>read\<close> overruns it.
\<close>

theorem elf_segment_overrun:
  assumes "reads_ok E" and "\<And>n sz. malloc_at E n sz \<noteq> 0" and "p_type p = PT_LOAD"
    and "p_memsz p < p_filesz p" and "unat (p_offset p) < 2 ^ 63"
    and "unat (p_offset p) + unat (p_memsz p) < length f"
  shows "load_all E f t (p # ps) st = Inl (EFault Out_Of_Bounds)"
proof -
  let ?st = "put (segment_text p) st"
  let ?s = "lseek_set (p_offset p)
    (?st\<lparr>mallocs := Suc (mallocs st), live := malloc_at E (mallocs st) (p_memsz p) # live ?st\<rparr>)"
  let ?bs = "take (unat (p_filesz p)) (drop (unat (p_offset p)) f)"
  have r: "sys_read E f (unat (p_filesz p)) ?s = (Some ?bs, ?s\<lparr>fpos := fpos ?s + length ?bs\<rparr>)"
    using assms(1) lseek_fpos [OF assms(5)] by (simp add: sys_read_def reads_ok_def Let_def)
  have n: "unat (p_memsz p) < length ?bs" using assms(4,6) by (simp add: word_less_nat_alt)
  show ?thesis
    using assms(2,3) r n by (simp add: load_segment_def call_malloc_def Let_def del: length_take)
qed

theorem elf_segment_overrun_witness:
  "load_all elf_example_env elf_example 0x1000
     [\<lparr>p_type = PT_LOAD, p_flags = 5, p_offset = 120, p_vaddr = 0, p_filesz = 3, p_memsz = 2\<rparr>] loader_init =
   Inl (EFault Out_Of_Bounds)"
  by (rule elf_segment_overrun) (simp_all add: elf_example_env_ok elf_example_magic)

end
