(* ===== verification/ElfAddress.thy ===== *)
theory ElfAddress
  imports ElfProps
begin

text \<open>
  \<^verbatim>\<open>ELF-loader/elfload.c\<close> as a whole: reading the loaded image through \<^verbatim>\<open>vaddr_to_host\<close> gives, for every
  virtual address, the byte the file asks for there.
\<close>

section \<open>What the file asks for\<close>

definition phdr_covers :: "u64 \<Rightarrow> Elf64_Phdr \<Rightarrow> bool" where
  "phdr_covers v p \<longleftrightarrow> unat (p_vaddr p) + unat (p_memsz p) < 2 ^ 64 \<and> unat (p_vaddr p) \<le> unat v \<and>
     unat v < unat (p_vaddr p) + unat (p_memsz p)"

text \<open>
  The byte at a virtual address: that of the first loadable header over it, from the file below the
  file size (indeterminate where the file ends), zero above.
\<close>

definition elf_byte :: "u8 list \<Rightarrow> u64 \<Rightarrow> u8 option option" where
  "elf_byte f v =
     (case find (phdr_covers v) (loads (phdrs_of f)) of
        None \<Rightarrow> None
      | Some p \<Rightarrow>
          let k = unat v - unat (p_vaddr p); i = unat (p_offset p) + k
          in Some (if k < unat (p_filesz p) then (if i < length f then Some (f ! i) else None) else Some 0))"

text \<open>What the loader has written at a host address, given as a block and an offset in it.\<close>

definition host_holds :: "loader \<Rightarrow> u64 \<Rightarrow> u8 option \<Rightarrow> bool" where
  "host_holds st h b \<longleftrightarrow>
     (\<exists>a c k. heap st a = Some c \<and> k < length c \<and> h = a + of_nat k \<and> c ! k = b)"

lemma host_holdsI: "heap st a = Some c \<Longrightarrow> k < length c \<Longrightarrow> host_holds st (a + of_nat k) (c ! k)"
  by (auto simp: host_holds_def)

lemma covers_segment: "phdr_covers v p \<longleftrightarrow> seg_ends_inside (segment_at p a) \<and> seg_contains v (segment_at p a)"
  by (simp add: phdr_covers_def seg_ends_inside_def seg_contains_def segment_at_def)

lemma nth_segment_image:
  assumes "p_filesz p \<le> p_memsz p" and "k < unat (p_memsz p)"
  shows "k < length (segment_image f p) \<and> segment_image f p ! k =
    (if k < unat (p_filesz p) then (if unat (p_offset p) + k < length f then Some (f ! (unat (p_offset p) + k)) else None)
     else Some 0)"
  using assms by (auto simp: segment_image_def Let_def nth_append word_le_nat_alt min_def split: if_splits)

lemma translate_segments:
  assumes "list_all2 (\<lambda>p a. heap st a = Some (segment_image f p)) ps as"
  shows "case find (phdr_covers v) ps of
      None \<Rightarrow> vaddr_to_host (map2 segment_at ps as) v = 0
    | Some p \<Rightarrow> p \<in> set ps \<and> phdr_covers v p \<and> (\<exists>a. heap st a = Some (segment_image f p) \<and>
        vaddr_to_host (map2 segment_at ps as) v = a + (v - p_vaddr p))"
  using assms
proof (induction rule: list_all2_induct)
  case Nil
  then show ?case by simp
next
  case (Cons p ps a as)
  show ?case
  proof (cases "phdr_covers v p")
    case True
    then show ?thesis
      using Cons(1) seg_test [of "segment_at p a" v] covers_segment [of v p a]
      by (auto simp: Let_def segment_at_def)
  next
    case False
    then have "vaddr_to_host (map2 segment_at (p # ps) (a # as)) v = vaddr_to_host (map2 segment_at ps as) v"
      using seg_test [of "segment_at p a" v] covers_segment [of v p a] by (auto simp: Let_def)
    then show ?thesis using False Cons.IH by (auto split: option.splits)
  qed
qed

text \<open>
  C15: The loader and its address translation together: for every accepted file within the bounds of
  the loader, when nothing is refused, the loader returns 0, and then every virtual address is either
  covered by no loadable header and translated to \<^verbatim>\<open>NULL\<close>, or translated to a host address at which
  the loader's memory held, until it was released, the byte the file asks for at that address: the file's byte below the file
  size of the first header that covers it, zero above.
\<close>

theorem elf_translates:
  assumes "reads_ok E" and "\<And>n sz. malloc_at E n sz \<noteq> 0" and "binary E path = Some f" and "elf_ok E f"
  shows "\<exists>st. elf_main E [prog, path] = Inr (0, st) \<and>
    (\<forall>v. case elf_byte f v of
        None \<Rightarrow> vaddr_to_host (load_segments st) v = 0
      | Some b \<Rightarrow> host_holds st (vaddr_to_host (load_segments st) v) b)"
proof -
  let ?ps = "loads (phdrs_of f)" and ?as = "seg_addrs E 1 (phdrs_of f)"
  obtain st where st: "elf_load E f opened = Inr st" "load_segments st = map2 segment_at ?ps ?as"
      "image_loaded f ?ps ?as st"
    using elf_load_image [OF assms(1,2,4)] by blast
  have main: "elf_main E [prog, path] = Inr (0, st)" using st(1) assms(3) by (simp add: elf_main_def)
  have "case elf_byte f v of None \<Rightarrow> vaddr_to_host (load_segments st) v = 0
      | Some b \<Rightarrow> host_holds st (vaddr_to_host (load_segments st) v) b" for v
  proof (cases "find (phdr_covers v) ?ps")
    case None
    then show ?thesis
      using translate_segments [OF st(3) [unfolded image_loaded_def], of v] st(2) by (simp add: elf_byte_def)
  next
    case (Some p)
    let ?k = "unat v - unat (p_vaddr p)"
    obtain a where p: "p \<in> set ?ps" "phdr_covers v p" and a: "heap st a = Some (segment_image f p)"
        "vaddr_to_host (load_segments st) v = a + (v - p_vaddr p)"
      using translate_segments [OF st(3) [unfolded image_loaded_def], of v] st(2) Some by auto
    have "phdr_fits f p" using p(1) assms(4) by (simp add: elf_ok_def list_all_iff)
    then have le: "p_filesz p \<le> p_memsz p" using p(1) by (simp add: phdr_fits_def)
    have k: "?k < unat (p_memsz p)" "v - p_vaddr p = of_nat ?k"
      using p(2) by (auto simp: phdr_covers_def unat_sub word_le_nat_alt intro!: word_unat_eq_iff [THEN iffD2])
    note image = nth_segment_image [OF le k(1), of f]
    have "host_holds st (vaddr_to_host (load_segments st) v) (segment_image f p ! ?k)"
      using host_holdsI [OF a(1) image [THEN conjunct1]] by (simp only: a(2) k(2))
    moreover have "elf_byte f v = Some (segment_image f p ! ?k)" using Some image by (simp add: elf_byte_def Let_def)
    ultimately show ?thesis by simp
  qed
  then show ?thesis using main by blast
qed

theorem elf_translates_witness:
  "\<exists>st. elf_main elf_example_env [''loader'', ''a.out''] = Inr (0, st) \<and>
    host_holds st (vaddr_to_host (load_segments st) 0x1002) (Some 9) \<and>
    host_holds st (vaddr_to_host (load_segments st) 0x1004) (Some 0) \<and>
    vaddr_to_host (load_segments st) 0x1005 = 0"
proof -
  have b: "elf_byte elf_example 0x1002 = Some (Some 9)" "elf_byte elf_example 0x1004 = Some (Some 0)"
      "elf_byte elf_example 0x1005 = None"
    by (simp_all add: elf_byte_def elf_example_phdrs PT_LOAD_def phdr_covers_def elf_example_magic)
      (simp add: elf_example_def)
  obtain st where st: "elf_main elf_example_env [''loader'', ''a.out''] = Inr (0, st)"
      "\<forall>v. case elf_byte elf_example v of None \<Rightarrow> vaddr_to_host (load_segments st) v = 0
        | Some b \<Rightarrow> host_holds st (vaddr_to_host (load_segments st) v) b"
    using elf_translates [OF elf_example_env_ok elf_example_ok] by blast
  have "case elf_byte elf_example v of None \<Rightarrow> vaddr_to_host (load_segments st) v = 0
      | Some b \<Rightarrow> host_holds st (vaddr_to_host (load_segments st) v) b" for v
    using st(2) by blast
  from this [of 4098] this [of 4100] this [of 4101] show ?thesis using b st(1) by auto
qed

end
