(* ===== verification/TinyShell.thy ===== *)
theory TinyShell
  imports CString
begin

text \<open>
  \<^verbatim>\<open>toy-shell/tiny-shell.c\<close>: parsing, redirection, single pipes and the command loop. The token array
  is a list of possibly null pointers that keeps its old contents behind the terminator. What the
  operating system decides (process ids, which files open) is the environment \<open>E\<close>; what the shell
  makes it do is a list of events: a child started with its arguments, its standard streams and how it
  goes on, and the waits. \<^verbatim>\<open>perror\<close> is recorded by its prefix; after \<^verbatim>\<open>execvp\<close> the child is another
  program. A child whose command is empty hands \<^verbatim>\<open>execvp\<close> a null file name, which is undefined: it ends
  in the child, not in the shell.
\<close>

section \<open>The shell's state\<close>

datatype std_stream = Inherit | File string | Pipe_End | Closed

text \<open>A child calls \<^verbatim>\<open>execvp\<close> with the name of a program, or with none, or it reports an error and ends.\<close>

datatype child_fate = Executes | Null_File_Name | Reports string

record child =
  child_argv :: "string list"
  child_stdin :: std_stream
  child_stdout :: std_stream
  child_fate :: child_fate

datatype event = Spawn child | Wait_Any | Wait_Pid int

record shell_env =
  fork_pid :: "nat \<Rightarrow> int"
  opens :: "string \<Rightarrow> bool"
  pipe_works :: bool

record shell =
  tokens :: "string option list"
  forks :: nat
  sout :: string
  serr :: "string list"
  events :: "event list"

definition shell_init :: "string option list \<Rightarrow> shell" where
  "shell_init toks = \<lparr>tokens = toks, forks = 0, sout = [], serr = [], events = []\<rparr>"

definition MAX_BUFFER_SIZE :: nat where
  "MAX_BUFFER_SIZE = 256"

definition MAX_TOKENS :: nat where
  "MAX_TOKENS = 50"

definition echo :: "string \<Rightarrow> shell \<Rightarrow> shell" where
  "echo s st = st\<lparr>sout := sout st @ s\<rparr>"

definition complain :: "string list \<Rightarrow> shell \<Rightarrow> shell" where
  "complain ms st = st\<lparr>serr := serr st @ ms\<rparr>"

definition record_event :: "event \<Rightarrow> shell \<Rightarrow> shell" where
  "record_event e st = st\<lparr>events := events st @ [e]\<rparr>"

definition handle_sigint :: "shell \<Rightarrow> shell" where
  "handle_sigint = echo (NL # ''tiny-shell> '')"

definition print_prompt :: "shell \<Rightarrow> shell" where
  "print_prompt = echo ''tiny-shell> ''"

section \<open>Parsing\<close>

fun strtok_words :: "nat \<Rightarrow> string \<Rightarrow> string list" where
  "strtok_words 0 s = []"
| "strtok_words (Suc n) s =
     (case strtok CHR '' '' s of (Some word, r) \<Rightarrow> word # strtok_words n r | (None, _) \<Rightarrow> [])"

text \<open>The count, the background flag and the array: the words, the terminator, what was there before.\<close>

definition parse_input :: "string \<Rightarrow> string option list \<Rightarrow> nat \<times> bool \<times> string option list" where
  "parse_input input toks =
     (let ws = strtok_words (MAX_TOKENS - 1) (chomp (cstr input));
          n = length ws;
          toks1 = map Some ws @ [None] @ drop (n + 1) toks
      in if 0 < n \<and> last ws = ''&'' then (n - 1, True, toks1[n - 1 := None]) else (n, False, toks1))"

section \<open>Redirection\<close>

datatype redirection = No_Redirection | Redirected string | No_File

text \<open>
  \<^verbatim>\<open>for (j = t; tokens[j + 2] != NULL; j++) tokens[j] = tokens[j + 2]\<close> on the array from index \<open>t\<close> on.
\<close>

fun shift_down :: "string option list \<Rightarrow> string option list outcome" where
  "shift_down (x # y # z # r) =
     (case z of None \<Rightarrow> Inr (x # y # z # r) | Some w \<Rightarrow> map_sum id (Cons z) (shift_down (y # z # r)))"
| "shift_down _ = Inl Out_Of_Bounds"

fun redirect :: "string \<Rightarrow> string option list \<Rightarrow> (redirection \<times> string option list) outcome" where
  "redirect mark [] = Inl Out_Of_Bounds"
| "redirect mark (None # r) = Inr (No_Redirection, None # r)"
| "redirect mark (Some w # r) =
     (if w = mark then
        (case r of
           [] \<Rightarrow> Inl Out_Of_Bounds
         | None # _ \<Rightarrow> Inr (No_File, Some w # r)
         | Some f # _ \<Rightarrow> map_sum id (\<lambda>xs. (Redirected f, None # tl xs)) (shift_down (Some w # r)))
      else map_sum id (map_prod id (Cons (Some w))) (redirect mark r))"

definition handle_input_redirection ::
  "string option list \<Rightarrow> (string option \<times> string list \<times> string option list) outcome" where
  "handle_input_redirection toks =
     map_sum id (\<lambda>(r, ts). case r of
         No_Redirection \<Rightarrow> (None, [], ts)
       | Redirected f \<Rightarrow> (Some f, [], ts)
       | No_File \<Rightarrow> (None, [''Error: No input file specified after '' @ [CHR 0x27] @ ''<'' @ [CHR 0x27]], ts))
       (redirect ''<'' toks)"

definition handle_output_redirection ::
  "string option list \<Rightarrow> (string option \<times> string list \<times> string option list) outcome" where
  "handle_output_redirection toks =
     map_sum id (\<lambda>(r, ts). case r of
         No_Redirection \<Rightarrow> (None, [], ts)
       | Redirected f \<Rightarrow> (Some f, [], ts)
       | No_File \<Rightarrow> (None, [''Error: No output file specified after '' @ [CHR 0x27] @ ''>'' @ [CHR 0x27]], ts))
       (redirect ''>'' toks)"

text \<open>Both, input first: the files, the messages and the array.\<close>

definition redirections ::
  "string option list \<Rightarrow> (string option \<times> string option \<times> string list \<times> string option list) outcome" where
  "redirections toks =
     and_then (handle_input_redirection toks) (\<lambda>(inp, e1, t1).
     and_then (handle_output_redirection t1) (\<lambda>(outp, e2, t2).
       Inr (inp, outp, e1 @ e2, t2)))"

text \<open>The argument vector \<^verbatim>\<open>execvp\<close> sees; its first entry, the file name, is null when there is none.\<close>

definition argv_of :: "string option list \<Rightarrow> string list" where
  "argv_of toks = map the (takeWhile (\<lambda>t. t \<noteq> None) toks)"

definition exec_fate :: "string option list \<Rightarrow> child_fate" where
  "exec_fate toks = (if toks = [] \<or> hd toks = None then Null_File_Name else Executes)"

section \<open>Commands\<close>

definition fork :: "shell_env \<Rightarrow> shell \<Rightarrow> int \<times> shell" where
  "fork E st = (fork_pid E (forks st), st\<lparr>forks := forks st + 1\<rparr>)"

definition stream_of :: "string option \<Rightarrow> std_stream" where
  "stream_of f = (case f of None \<Rightarrow> Inherit | Some p \<Rightarrow> File p)"

definition refused :: "shell_env \<Rightarrow> string option \<Rightarrow> bool" where
  "refused E f = (case f of None \<Rightarrow> False | Some p \<Rightarrow> \<not> opens E p)"

definition command_child ::
  "shell_env \<Rightarrow> string option \<Rightarrow> string option \<Rightarrow> string option list \<Rightarrow> child" where
  "command_child E inp outp toks =
     \<lparr>child_argv = argv_of toks, child_stdin = stream_of inp, child_stdout = stream_of outp,
      child_fate =
        (if refused E inp then Reports ''Failed to open input file''
         else if refused E outp then Reports ''Failed to open output file'' else exec_fate toks)\<rparr>"

text \<open>The child works on its own copy of the array; the parent's is unchanged.\<close>

definition execute_command :: "shell_env \<Rightarrow> string option list \<Rightarrow> bool \<Rightarrow> shell \<Rightarrow> shell outcome" where
  "execute_command E toks is_background_process st =
     (let (pid, st1) = fork E st
      in if pid = -1 then Inr (complain [''Fork failed:''] st1)
         else and_then (redirections toks) (\<lambda>(inp, outp, errs, toks1).
           let st2 = record_event (Spawn (command_child E inp outp toks1)) (complain errs st1)
           in Inr (if \<not> is_background_process then record_event Wait_Any st2
                   else echo (''[Background PID] '' @ dec_int pid @ [NL]) st2)))"

definition pipe_stream :: "shell_env \<Rightarrow> string option \<Rightarrow> std_stream \<Rightarrow> std_stream" where
  "pipe_stream E f dflt =
     (case f of None \<Rightarrow> dflt | Some p \<Rightarrow> if opens E p then File p else Closed)"

definition spawn_if :: "int \<Rightarrow> child \<Rightarrow> shell \<Rightarrow> shell" where
  "spawn_if pid c st = (if pid = -1 then st else record_event (Spawn c) st)"

definition pipe_out :: "shell_env \<Rightarrow> string option list \<Rightarrow> shell \<Rightarrow> shell outcome" where
  "pipe_out E toks st =
     (if \<not> pipe_works E then Inr (complain [''pipe failed''] st)
      else
        let pipe_pos = length (takeWhile (\<lambda>t. t \<noteq> None \<and> t \<noteq> Some ''|'') toks)
        in if length toks \<le> pipe_pos then Inl Out_Of_Bounds
           else if toks ! pipe_pos = None then Inr (complain [''Error: No pipe symbol found''] st)
           else
             and_then (redirections (toks[pipe_pos := None])) (\<lambda>(in1, out1, errs1, toks1).
             and_then (redirections (drop (pipe_pos + 1) toks1)) (\<lambda>(in2, out2, errs2, cmd2).
               let c1 = \<lparr>child_argv = argv_of toks1, child_stdin = pipe_stream E in1 Inherit,
                         child_stdout = pipe_stream E out1 Pipe_End, child_fate = exec_fate toks1\<rparr>;
                   c2 = \<lparr>child_argv = argv_of cmd2, child_stdin = pipe_stream E in2 Pipe_End,
                         child_stdout = pipe_stream E out2 Inherit, child_fate = exec_fate cmd2\<rparr>;
                   (pid1, st1) = fork E (complain (errs1 @ errs2) (st\<lparr>tokens := take (pipe_pos + 1) toks1 @ cmd2\<rparr>));
                   (pid2, st2) = fork E (spawn_if pid1 c1 st1)
               in Inr (record_event (Wait_Pid pid2) (record_event (Wait_Pid pid1) (spawn_if pid2 c2 st2))))))"

section \<open>The loop\<close>

text \<open>One line of input; the flag says whether the loop ends.\<close>

definition shell_line :: "shell_env \<Rightarrow> string \<Rightarrow> shell \<Rightarrow> (bool \<times> shell) outcome" where
  "shell_line E input st =
     (if cstr input = ''exit'' @ [NL] then Inr (True, echo (''Bye!'' @ [NL]) st)
      else
        let (tokenCount, is_background_process, toks) = parse_input input (tokens st);
            st1 = st\<lparr>tokens := toks\<rparr>
        in if tokenCount = 0 then Inr (False, st1)
           else map_sum id (Pair False)
             (if Some ''|'' \<in> set (take tokenCount toks) then pipe_out E toks st1
              else execute_command E toks is_background_process st1))"

partial_function (option) shell_loop :: "shell_env \<Rightarrow> string \<Rightarrow> shell \<Rightarrow> shell outcome option" where
  "shell_loop E stdin st =
     (case fgets MAX_BUFFER_SIZE stdin of
        None \<Rightarrow> shell_loop E stdin (echo (''Error reading input!'' @ [NL]) (print_prompt st))
      | Some (input, rest) \<Rightarrow>
          (case shell_line E input (print_prompt st) of
             Inl f \<Rightarrow> Some (Inl f)
           | Inr (stop, st1) \<Rightarrow> if stop then Some (Inr st1) else shell_loop E rest st1))"

text \<open>\<^verbatim>\<open>main\<close>; the array starts with indeterminate contents.\<close>

definition shell_main :: "shell_env \<Rightarrow> string option list \<Rightarrow> string \<Rightarrow> shell outcome option" where
  "shell_main E toks stdin = shell_loop E stdin (shell_init toks)"

end
