(* ===== verification/ShellProps.thy ===== *)
theory ShellProps
  imports TinyShell
begin

text \<open>
  The properties of \<^verbatim>\<open>toy-shell/tiny-shell.c\<close>: parsing, the children it starts for plain commands,
  redirections and pipes, and the second redirection it loses.
\<close>

section \<open>Words\<close>

definition shell_word :: "string \<Rightarrow> bool" where
  "shell_word w \<longleftrightarrow> w \<noteq> [] \<and> CHR '' '' \<notin> set w \<and> NL \<notin> set w \<and> NUL \<notin> set w"

fun spaced :: "string list \<Rightarrow> string" where
  "spaced [] = []"
| "spaced [w] = w"
| "spaced (w # ws) = w @ CHR '' '' # spaced ws"

definition command_line :: "string list \<Rightarrow> string" where
  "command_line ws = spaced ws @ [NL]"

lemma spaced_chars: "list_all shell_word ws \<Longrightarrow> NL \<notin> set (spaced ws) \<and> NUL \<notin> set (spaced ws)"
  by (induction ws rule: spaced.induct) (auto simp: shell_word_def)

lemma strtok_spaced:
  "list_all shell_word ws \<Longrightarrow> length ws \<le> n \<Longrightarrow> strtok_words n (spaced ws) = ws"
proof (induction ws arbitrary: n rule: spaced.induct)
  case 1
  then show ?case by (cases n) auto
next
  case (2 w)
  then obtain m where m: "n = Suc m" by (cases n) auto
  have "strtok_words m [] = []" by (cases m) auto
  then show ?case using 2 m strtok_last [of w "CHR '' ''"] by (simp add: shell_word_def)
next
  case (3 w v ws)
  then obtain m where m: "n = Suc m" by (cases n) auto
  have "strtok CHR '' '' (w @ CHR '' '' # spaced (v # ws)) = (Some w, spaced (v # ws))"
    by (rule strtok_token) (use 3 in \<open>simp_all add: shell_word_def\<close>)
  then show ?case using 3 m by simp
qed

lemma parse_input_words:
  assumes "list_all shell_word ws" and "length ws < MAX_TOKENS"
  shows "parse_input (command_line ws) toks =
    (let toks1 = map Some ws @ [None] @ drop (length ws + 1) toks
     in if ws \<noteq> [] \<and> last ws = ''&'' then (length ws - 1, True, toks1[length ws - 1 := None])
        else (length ws, False, toks1))"
proof -
  have c: "NL \<notin> set (spaced ws)" "NUL \<notin> set (command_line ws)"
    using spaced_chars [OF assms(1)] by (auto simp: command_line_def)
  have "chomp (cstr (command_line ws)) = spaced ws"
    using chomp_NL [OF c(1), of "[]"] cstr_id [OF c(2)] by (simp add: command_line_def)
  moreover have "strtok_words (MAX_TOKENS - 1) (spaced ws) = ws"
    using assms by (intro strtok_spaced) simp_all
  ultimately show ?thesis by (simp add: parse_input_def Let_def)
qed

text \<open>What a program sees of an array: a null-terminated argument vector.\<close>

definition vector :: "string list \<Rightarrow> string option list \<Rightarrow> string option list" where
  "vector ws r = map Some ws @ None # r"

lemma argv_of_vector [simp]: "argv_of (vector ws r) = ws"
proof -
  have "takeWhile (\<lambda>t. t \<noteq> None) (map Some ws @ None # r) = map Some ws"
    by (induction ws) auto
  then show ?thesis by (simp add: argv_of_def vector_def comp_def)
qed

lemma exec_fate_vector [simp]: "exec_fate (vector ws r) = (if ws = [] then Null_File_Name else Executes)"
  by (cases ws) (simp_all add: exec_fate_def vector_def)

text \<open>
  Parsing: a line of up to 49 words separated by single spaces gives exactly these words as the
  argument vector, without a final \<^verbatim>\<open>&\<close>, which sets the background flag instead; the count is the
  number of words in the vector.
\<close>

theorem parse_input_argv:
  assumes "list_all shell_word ws" and "length ws < 50"
  shows "case parse_input (command_line ws) toks of (n, bg, toks') \<Rightarrow>
    bg = (ws \<noteq> [] \<and> last ws = ''&'') \<and> argv_of toks' = (if bg then butlast ws else ws) \<and>
    n = length (argv_of toks')"
proof (cases "ws \<noteq> [] \<and> last ws = ''&''")
  case True
  then obtain vs where v: "ws = vs @ [''&'']" by (metis append_butlast_last_id)
  have "(map Some ws @ [None] @ drop (length ws + 1) toks)[length ws - 1 := None] =
      vector vs (None # drop (length ws + 1) toks)"
    by (simp add: v vector_def list_update_append)
  then show ?thesis
    using parse_input_words [OF assms(1)] assms(2) v by (simp add: MAX_TOKENS_def Let_def)
next
  case False
  have "map Some ws @ [None] @ drop (length ws + 1) toks = vector ws (drop (length ws + 1) toks)"
    by (simp add: vector_def)
  then show ?thesis
    using parse_input_words [OF assms(1)] assms(2) False by (simp add: MAX_TOKENS_def Let_def)
qed

theorem parse_input_argv_witness:
  "case parse_input (''sleep 5 &'' @ [NL]) [] of (n, bg, toks') \<Rightarrow>
    bg \<and> argv_of toks' = [''sleep'', ''5''] \<and> n = 2"
  using parse_input_argv [of "[''sleep'', ''5'', ''&'']" "[]"]
  by (auto simp: shell_word_def command_line_def split: prod.splits)

section \<open>Redirections\<close>

lemma redirect_none:
  "mark \<notin> set ws \<Longrightarrow> redirect mark (vector ws r) = Inr (No_Redirection, vector ws r)"
  by (induction ws) (auto simp: vector_def)

lemma shift_down_vector:
  "\<exists>h r'. shift_down (Some x # Some y # map Some ws @ None # r) = Inr (h # r')"
proof (induction ws arbitrary: x y)
  case (Cons w ws)
  then obtain h r' where "shift_down (Some y # Some w # map Some ws @ None # r) = Inr (h # r')" by blast
  then show ?case by simp
qed simp

lemma redirect_found:
  assumes "mark \<notin> set ws"
  shows "\<exists>r'. redirect mark (vector (ws @ mark # f # post) r) = Inr (Redirected f, vector ws r')"
  using assms
proof (induction ws)
  case Nil
  obtain h r' where "shift_down (Some mark # Some f # map Some post @ None # r) = Inr (h # r')"
    using shift_down_vector by blast
  then show ?case by (auto simp: vector_def)
next
  case (Cons w ws)
  then obtain r' where "redirect mark (vector (ws @ mark # f # post) r) = Inr (Redirected f, vector ws r')"
    by auto
  then show ?case using Cons.prems by (auto simp: vector_def)
qed

text \<open>The moves of a redirection stay before any terminator further behind.\<close>

lemma shift_down_frame:
  "\<exists>h zs. shift_down (x # y # xs @ None # ys) = Inr (h # zs @ None # ys) \<and> length zs = Suc (length xs)"
proof (induction xs arbitrary: x y)
  case Nil
  then show ?case by (auto intro: exI [of _ "[y]"])
next
  case (Cons z xs)
  show ?case
  proof (cases z)
    case None
    then show ?thesis by (auto intro!: exI [of _ "y # None # xs"])
  next
    case (Some w)
    obtain h zs where "shift_down (y # z # xs @ None # ys) = Inr (h # zs @ None # ys)" "length zs = Suc (length xs)"
      using Cons.IH by blast
    then show ?thesis using Some by (auto intro!: exI [of _ "h # zs"])
  qed
qed

lemma redirect_frame:
  "\<exists>x zs. redirect mark (xs @ None # ys) = Inr (x, zs @ None # ys) \<and> length zs = length xs"
proof (induction xs)
  case (Cons t xs)
  show ?case
  proof (cases t)
    case None
    then show ?thesis by (auto intro!: exI [of _ "None # xs"])
  next
    case (Some w)
    show ?thesis
    proof (cases "w = mark")
      case False
      then show ?thesis using Cons Some by (auto intro!: exI [of _ "Some w # zs" for zs])
    next
      case True
      show ?thesis
      proof (cases xs)
        case Nil
        then show ?thesis using Some True by (auto intro!: exI [of _ "[Some w]"])
      next
        case tail: (Cons u xs')
        show ?thesis
        proof (cases u)
          case None
          then show ?thesis using Some True tail by (auto intro!: exI [of _ "Some w # None # xs'"])
        next
          case f: (Some f)
          obtain h zs where "shift_down (Some w # Some f # xs' @ None # ys) = Inr (h # zs @ None # ys)"
              "length zs = Suc (length xs')"
            using shift_down_frame by blast
          then show ?thesis using Some True tail f by (auto intro!: exI [of _ "None # zs"])
        qed
      qed
    qed
  qed
qed simp

lemma redirections_frame:
  "\<exists>i e o' zs. redirections (xs @ None # ys) = Inr (i, o', e, zs @ None # ys) \<and> length zs = length xs"
proof -
  obtain x zs where x: "redirect ''<'' (xs @ None # ys) = Inr (x, zs @ None # ys)" "length zs = length xs"
    using redirect_frame by blast
  obtain y vs where y: "redirect ''>'' (zs @ None # ys) = Inr (y, vs @ None # ys)" "length vs = length zs"
    using redirect_frame by blast
  show ?thesis
    using x y by (cases x; cases y)
      (simp_all add: redirections_def handle_input_redirection_def handle_output_redirection_def)
qed

text \<open>The words of the redirections, the output first: the order in which both of them are seen.\<close>

definition redir_words :: "string option \<Rightarrow> string option \<Rightarrow> string list" where
  "redir_words inp outp =
     (case outp of None \<Rightarrow> [] | Some g \<Rightarrow> [''>'', g]) @ (case inp of None \<Rightarrow> [] | Some f \<Rightarrow> [''<'', f])"

definition plain_args :: "string list \<Rightarrow> bool" where
  "plain_args ws \<longleftrightarrow> list_all shell_word ws \<and> set ws \<inter> {''<'', ''>'', ''|'', ''&''} = {}"

lemma redirections_vector:
  assumes "set ws \<inter> {''<'', ''>''} = {}" and "outp \<noteq> Some ''<''"
  shows "\<exists>r'. redirections (vector (ws @ redir_words inp outp) r) = Inr (inp, outp, [], vector ws r')"
proof -
  define pre where "pre = ws @ redir_words None outp"
  have p: "''<'' \<notin> set pre" using assms by (auto simp: pre_def redir_words_def split: option.splits)
  have "\<exists>r1. handle_input_redirection (vector (ws @ redir_words inp outp) r) = Inr (inp, [], vector pre r1)"
  proof (cases inp)
    case None
    then show ?thesis using redirect_none [OF p, of r] by (auto simp: handle_input_redirection_def pre_def)
  next
    case (Some f)
    obtain r1 where "redirect ''<'' (vector (pre @ ''<'' # f # []) r) = Inr (Redirected f, vector pre r1)"
      using redirect_found [OF p] by blast
    then show ?thesis by (auto simp: handle_input_redirection_def pre_def redir_words_def Some)
  qed
  then obtain r1 where i: "handle_input_redirection (vector (ws @ redir_words inp outp) r) = Inr (inp, [], vector pre r1)"
    by blast
  have "\<exists>r'. handle_output_redirection (vector pre r1) = Inr (outp, [], vector ws r')"
  proof (cases outp)
    case None
    then show ?thesis
      using redirect_none [of "''>''" ws r1] assms(1) by (auto simp: handle_output_redirection_def pre_def redir_words_def)
  next
    case (Some g)
    obtain r' where "redirect ''>'' (vector (ws @ ''>'' # g # []) r1) = Inr (Redirected g, vector ws r')"
      using redirect_found [of "''>''" ws g "[]" r1] assms(1) by auto
    then show ?thesis by (auto simp: handle_output_redirection_def pre_def redir_words_def Some)
  qed
  then show ?thesis by (auto simp: redirections_def i)
qed

text \<open>In the other order the input redirection ends the vector before the output redirection is looked for.\<close>

lemma redirections_input_first:
  assumes "set ws \<inter> {''<'', ''>''} = {}"
  shows "\<exists>r'. redirections (vector (ws @ [''<'', f, ''>'', g]) r) = Inr (Some f, None, [], vector ws r')"
proof -
  obtain r1 where "redirect ''<'' (vector (ws @ ''<'' # f # [''>'', g]) r) = Inr (Redirected f, vector ws r1)"
    using redirect_found [of "''<''" ws f "[''>'', g]" r] assms by auto
  moreover have "redirect ''>'' (vector ws r1) = Inr (No_Redirection, vector ws r1)"
    using redirect_none [of "''>''" ws r1] assms by auto
  ultimately show ?thesis
    by (auto simp: redirections_def handle_input_redirection_def handle_output_redirection_def)
qed

section \<open>Commands\<close>

lemma shell_line_words:
  assumes "list_all shell_word ws" and "length ws < 50" and "ws \<noteq> []" and "ws \<noteq> [''exit'']"
    and "last ws \<noteq> ''&''"
  shows "\<exists>r. shell_line E (command_line ws) st =
    map_sum id (Pair False)
      (if ''|'' \<in> set ws then pipe_out E (vector ws r) (st\<lparr>tokens := vector ws r\<rparr>)
       else execute_command E (vector ws r) False (st\<lparr>tokens := vector ws r\<rparr>))"
proof -
  have n: "NUL \<notin> set (command_line ws)" and s: "NL \<notin> set (spaced ws)"
    using spaced_chars [OF assms(1)] by (auto simp: command_line_def)
  have "command_line ws \<noteq> ''exit'' @ [NL]"
  proof
    assume "command_line ws = ''exit'' @ [NL]"
    then have "spaced ws = ''exit''" by (simp add: command_line_def)
    moreover have "strtok_words (length ws + 1) (spaced ws) = ws"
      using assms(1) by (intro strtok_spaced) simp_all
    moreover have "strtok CHR '' '' ''exit'' = (Some ''exit'', [])" by (simp add: strtok_def)
    moreover have "strtok_words m [] = []" for m by (cases m) auto
    ultimately show False using assms(4) by simp
  qed
  moreover have "parse_input (command_line ws) (tokens st) =
      (length ws, False, vector ws (drop (length ws + 1) (tokens st)))"
    using parse_input_words [OF assms(1)] assms(2,5) by (simp add: MAX_TOKENS_def Let_def vector_def)
  moreover have "Some ''|'' \<in> set (take (length ws) (vector ws r)) \<longleftrightarrow> ''|'' \<in> set ws" for r
    by (auto simp: vector_def)
  ultimately show ?thesis using assms(3) n by (auto simp: shell_line_def)
qed

lemma shell_line_background:
  assumes "list_all shell_word ws" and "length ws < 49" and "ws \<noteq> []" and "''|'' \<notin> set ws"
  shows "\<exists>r. shell_line E (command_line (ws @ [''&''])) st =
    map_sum id (Pair False) (execute_command E (vector ws r) True (st\<lparr>tokens := vector ws r\<rparr>))"
proof -
  let ?ws = "ws @ [''&'']"
  have w: "list_all shell_word ?ws" using assms(1) by (simp add: shell_word_def)
  have n: "NUL \<notin> set (command_line ?ws)" using spaced_chars [OF w] by (auto simp: command_line_def)
  have x: "command_line ?ws \<noteq> ''exit'' @ [NL]"
  proof
    assume "command_line ?ws = ''exit'' @ [NL]"
    then have "spaced ?ws = ''exit''" by (simp add: command_line_def)
    moreover have "strtok_words (length ?ws) (spaced ?ws) = ?ws"
      using w by (intro strtok_spaced) simp_all
    moreover have "strtok CHR '' '' ''exit'' = (Some ''exit'', [])" by (simp add: strtok_def)
    moreover have "strtok_words m [] = []" for m by (cases m) auto
    ultimately show False using assms(3) by (cases ws) auto
  qed
  let ?r = "None # drop (length ?ws + 1) (tokens st)"
  have "(map Some ?ws @ [None] @ drop (length ?ws + 1) (tokens st))[length ws := None] = vector ws ?r"
    by (simp add: vector_def list_update_append)
  then have "parse_input (command_line ?ws) (tokens st) = (length ws, True, vector ws ?r)"
    using parse_input_words [OF w] assms(2) by (simp add: MAX_TOKENS_def Let_def)
  moreover have "Some ''|'' \<notin> set (take (length ws) (vector ws ?r))" using assms(4) by (auto simp: vector_def)
  ultimately show ?thesis
    using assms(3) n x by (intro exI [of _ ?r]) (simp add: shell_line_def)
qed

lemma st_frames [simp]:
  "events (complain ms st) = events st" "sout (complain ms st) = sout st"
  "serr (complain ms st) = serr st @ ms" "events (echo s st) = events st"
  "events (record_event e st) = events st @ [e]" "sout (record_event e st) = sout st"
  "serr (record_event e st) = serr st" "forks (record_event e st) = forks st"
  "forks (complain ms st) = forks st"
  by (simp_all add: complain_def echo_def record_event_def)

text \<open>
  A command: arguments without special words, possibly none, followed by at most one output and one
  input redirection. It is simple when there is a program to run.
\<close>

definition command_form :: "string list \<Rightarrow> string option \<Rightarrow> string option \<Rightarrow> bool" where
  "command_form args inp outp \<longleftrightarrow> plain_args args \<and> outp \<noteq> Some ''<'' \<and>
     list_all shell_word (redir_words inp outp) \<and> set (redir_words inp outp) \<inter> {''|'', ''&''} = {}"

definition simple_command :: "string list \<Rightarrow> string option \<Rightarrow> string option \<Rightarrow> bool" where
  "simple_command args inp outp \<longleftrightarrow> command_form args inp outp \<and> args \<noteq> []"

lemma form_words:
  assumes "command_form args inp outp"
  shows "list_all shell_word (args @ redir_words inp outp)" "''|'' \<notin> set (args @ redir_words inp outp)"
    "''&'' \<notin> set (args @ redir_words inp outp)"
  using assms by (auto simp: command_form_def plain_args_def)

lemma shell_line_redirected:
  assumes "list_all shell_word ws" and "''|'' \<notin> set ws" and "''&'' \<notin> set ws" and "ws \<noteq> []" and "length ws < 50"
    and "ws \<noteq> [''exit'']" and "fork_pid E (forks st) \<noteq> -1"
    and "\<And>r. \<exists>r'. redirections (vector ws r) = Inr (inp, outp, [], vector args r')"
  shows "\<exists>st'. shell_line E (command_line ws) st = Inr (False, st') \<and>
    events st' = events st @ [Spawn \<lparr>child_argv = args, child_stdin = stream_of inp, child_stdout = stream_of outp,
      child_fate = (if refused E inp then Reports ''Failed to open input file''
        else if refused E outp then Reports ''Failed to open output file''
        else if args = [] then Null_File_Name else Executes)\<rparr>, Wait_Any] \<and>
    serr st' = serr st \<and> sout st' = sout st \<and> forks st' = Suc (forks st)"
proof -
  have l: "last ws \<noteq> ''&''" using assms(3,4) by (metis last_in_set)
  obtain r where r: "shell_line E (command_line ws) st =
      map_sum id (Pair False) (execute_command E (vector ws r) False (st\<lparr>tokens := vector ws r\<rparr>))"
    using shell_line_words [OF assms(1,5,4,6) l, of E st] assms(2) by auto
  obtain r' where "redirections (vector ws r) = Inr (inp, outp, [], vector args r')"
    using assms(8) by blast
  then show ?thesis
    using assms(7) by (simp add: r execute_command_def fork_def command_child_def Let_def)
qed

lemma shell_line_form:
  assumes "command_form args inp outp" and "args @ redir_words inp outp \<noteq> []" and "length (args @ redir_words inp outp) < 50"
    and "args @ redir_words inp outp \<noteq> [''exit'']" and "fork_pid E (forks st) \<noteq> -1"
  shows "\<exists>st'. shell_line E (command_line (args @ redir_words inp outp)) st = Inr (False, st') \<and>
    events st' = events st @ [Spawn \<lparr>child_argv = args, child_stdin = stream_of inp, child_stdout = stream_of outp,
      child_fate = (if refused E inp then Reports ''Failed to open input file''
        else if refused E outp then Reports ''Failed to open output file''
        else if args = [] then Null_File_Name else Executes)\<rparr>, Wait_Any] \<and>
    serr st' = serr st \<and> sout st' = sout st \<and> forks st' = Suc (forks st)"
  using assms(1)
  by (intro shell_line_redirected [OF form_words [OF assms(1)] assms(2-5)] redirections_vector)
    (auto simp: command_form_def plain_args_def)

text \<open>
  A foreground command: for arguments without special words, followed by at most one output and one
  input redirection, the shell starts one child with exactly these arguments, its standard streams
  attached to the named files, and waits; a file that does not open makes the child report it and end.
\<close>

theorem shell_runs_command:
  assumes "simple_command args inp outp" and "length (args @ redir_words inp outp) < 50"
    and "args @ redir_words inp outp \<noteq> [''exit'']" and "fork_pid E (forks st) \<noteq> -1"
  shows "\<exists>st'. shell_line E (command_line (args @ redir_words inp outp)) st = Inr (False, st') \<and>
    events st' = events st @ [Spawn \<lparr>child_argv = args, child_stdin = stream_of inp,
      child_stdout = stream_of outp,
      child_fate = (if refused E inp then Reports ''Failed to open input file''
        else if refused E outp then Reports ''Failed to open output file'' else Executes)\<rparr>, Wait_Any] \<and>
    serr st' = serr st \<and> sout st' = sout st \<and> forks st' = Suc (forks st)"
proof -
  have c: "command_form args inp outp" and a: "args \<noteq> []" using assms(1) by (simp_all add: simple_command_def)
  have "args @ redir_words inp outp \<noteq> []" using a by simp
  from shell_line_form [OF c this assms(2-4)] show ?thesis unfolding if_not_P [OF a] .
qed

definition shell_example_env :: shell_env where
  "shell_example_env = \<lparr>fork_pid = (\<lambda>n. 100 + int n), opens = (\<lambda>_. True), pipe_works = True\<rparr>"

theorem shell_runs_command_witness:
  "\<exists>st'. shell_line shell_example_env (''wc -l < in'' @ [NL]) (shell_init []) = Inr (False, st') \<and>
    events st' = [Spawn \<lparr>child_argv = [''wc'', ''-l''], child_stdin = File ''in'', child_stdout = Inherit,
      child_fate = Executes\<rparr>, Wait_Any] \<and> serr st' = [] \<and> sout st' = [] \<and> forks st' = Suc 0"
  using shell_runs_command [of "[''wc'', ''-l'']" "Some ''in''" None shell_example_env "shell_init []"]
  by (simp add: simple_command_def command_form_def plain_args_def shell_word_def redir_words_def command_line_def
      shell_example_env_def stream_of_def refused_def shell_init_def)

text \<open>
  Two redirections: on \<^verbatim>\<open>cmd args < f > g\<close>, the form the README shows, removing the input
  redirection ends the argument vector, so the output redirection behind it is never seen: the child
  reads from \<open>f\<close> but writes to the shell's own output.
\<close>

theorem shell_loses_output:
  assumes "plain_args args" and "args \<noteq> []" and "length args < 46"
    and "list_all shell_word [f, g]" and "set [f, g] \<inter> {''|'', ''&'', ''<''} = {}"
    and "fork_pid E (forks st) \<noteq> -1" and "opens E f"
  shows "\<exists>st'. shell_line E (command_line (args @ [''<'', f, ''>'', g])) st = Inr (False, st') \<and>
    events st' = events st @ [Spawn \<lparr>child_argv = args, child_stdin = File f, child_stdout = Inherit,
      child_fate = Executes\<rparr>, Wait_Any]"
proof -
  let ?ws = "args @ [''<'', f, ''>'', g]"
  have w: "list_all shell_word ?ws" "''|'' \<notin> set ?ws" "''&'' \<notin> set ?ws" "?ws \<noteq> []" "length ?ws < 50" "?ws \<noteq> [''exit'']"
    using assms(1,3-5) by (auto simp: plain_args_def shell_word_def Cons_eq_append_conv)
  have "\<exists>r'. redirections (vector ?ws r) = Inr (Some f, None, [], vector args r')" for r
    using assms(1) by (intro redirections_input_first) (auto simp: plain_args_def)
  from shell_line_redirected [OF w assms(6) this] show ?thesis
    using assms(2,7) by (auto simp: stream_of_def refused_def)
qed

theorem shell_loses_output_witness:
  "\<exists>st'. shell_line shell_example_env (''sort < a > b'' @ [NL]) (shell_init []) = Inr (False, st') \<and>
    events st' = [Spawn \<lparr>child_argv = [''sort''], child_stdin = File ''a'', child_stdout = Inherit,
      child_fate = Executes\<rparr>, Wait_Any]"
  using shell_loses_output [of "[''sort'']" "''a''" "''b''" shell_example_env "shell_init []"]
  by (simp add: plain_args_def shell_word_def command_line_def shell_example_env_def shell_init_def)

section \<open>Pipes\<close>

lemma form_redirections:
  assumes "command_form args inp outp"
  shows "\<exists>zs r'. redirections (vector (args @ redir_words inp outp) r) = Inr (inp, outp, [], zs @ None # r) \<and>
    length zs = length (args @ redir_words inp outp) \<and> zs @ None # r = vector args r'"
proof -
  obtain r' where 1: "redirections (vector (args @ redir_words inp outp) r) = Inr (inp, outp, [], vector args r')"
    using redirections_vector [of args outp inp r] assms by (auto simp: command_form_def plain_args_def)
  obtain i e o' zs where "redirections (map Some (args @ redir_words inp outp) @ None # r) = Inr (i, o', e, zs @ None # r)"
      "length zs = length (map Some (args @ redir_words inp outp))"
    using redirections_frame by blast
  then have "redirections (vector (args @ redir_words inp outp) r) = Inr (i, o', e, zs @ None # r)"
      "length zs = length (args @ redir_words inp outp)"
    by (simp_all add: vector_def)
  then show ?thesis using 1 by (intro exI [of _ zs] exI [of _ r']) simp
qed

lemma pipe_position:
  assumes "''|'' \<notin> set w1"
  shows "length (takeWhile (\<lambda>t. t \<noteq> None \<and> t \<noteq> Some ''|'') (vector (w1 @ ''|'' # w2) r)) = length w1"
    and "vector (w1 @ ''|'' # w2) r ! length w1 = Some ''|''" and "length w1 < length (vector (w1 @ ''|'' # w2) r)"
    and "(vector (w1 @ ''|'' # w2) r)[length w1 := None] = vector w1 (vector w2 r)"
proof -
  have "takeWhile (\<lambda>t. t \<noteq> None \<and> t \<noteq> Some ''|'') (map Some w1 @ ts) =
      map Some w1 @ takeWhile (\<lambda>t. t \<noteq> None \<and> t \<noteq> Some ''|'') ts" for ts
    using assms by (intro takeWhile_append2) auto
  then show "length (takeWhile (\<lambda>t. t \<noteq> None \<and> t \<noteq> Some ''|'') (vector (w1 @ ''|'' # w2) r)) = length w1"
    by (simp add: vector_def)
qed (simp_all add: vector_def nth_append list_update_append)

lemma shell_line_pipe:
  assumes "command_form a1 in1 out1" and "command_form a2 in2 out2"
    and "length (a1 @ redir_words in1 out1) + length (a2 @ redir_words in2 out2) < 49" and "pipe_works E"
    and "p1 = fork_pid E (forks st)" and "p2 = fork_pid E (Suc (forks st))" and "p1 \<noteq> -1" and "p2 \<noteq> -1"
  shows "\<exists>st'. shell_line E
      (command_line ((a1 @ redir_words in1 out1) @ ''|'' # (a2 @ redir_words in2 out2))) st = Inr (False, st') \<and>
    events st' = events st @
      [Spawn \<lparr>child_argv = a1, child_stdin = pipe_stream E in1 Inherit, child_stdout = pipe_stream E out1 Pipe_End,
         child_fate = (if a1 = [] then Null_File_Name else Executes)\<rparr>,
       Spawn \<lparr>child_argv = a2, child_stdin = pipe_stream E in2 Pipe_End, child_stdout = pipe_stream E out2 Inherit,
         child_fate = (if a2 = [] then Null_File_Name else Executes)\<rparr>,
       Wait_Pid p1, Wait_Pid p2] \<and> serr st' = serr st \<and> sout st' = sout st \<and> forks st' = Suc (Suc (forks st))"
proof -
  define w1 w2 where "w1 = a1 @ redir_words in1 out1" and "w2 = a2 @ redir_words in2 out2"
  let ?ws = "w1 @ ''|'' # w2"
  note sw = form_words [OF assms(1), folded w1_def] form_words [OF assms(2), folded w2_def]
  have w: "list_all shell_word ?ws" using sw by (simp add: shell_word_def)
  have "''&'' \<notin> set ?ws" using sw by simp
  then have l: "last ?ws \<noteq> ''&''" by (metis last_in_set append_is_Nil_conv list.distinct(1))
  have x: "?ws \<noteq> [''exit'']" by (auto simp: append_eq_Cons_conv)
  obtain r where r: "shell_line E (command_line ?ws) st =
      map_sum id (Pair False) (pipe_out E (vector ?ws r) (st\<lparr>tokens := vector ?ws r\<rparr>))"
    using shell_line_words [OF w _ _ x l, of E st] assms(3) by (auto simp: w1_def w2_def)
  note pos = pipe_position [OF sw(2), of w2 r]
  obtain z1 r1 where r1: "redirections (vector w1 (vector w2 r)) = Inr (in1, out1, [], z1 @ None # vector w2 r)"
      "length z1 = length w1" "z1 @ None # vector w2 r = vector a1 r1"
    using form_redirections [OF assms(1), folded w1_def] by blast
  have d: "drop (Suc (length w1)) (z1 @ None # vector w2 r) = vector w2 r" using r1(2) by simp
  have a1: "argv_of (z1 @ None # vector w2 r) = a1" unfolding r1(3) by (rule argv_of_vector)
  have f1: "exec_fate (z1 @ None # vector w2 r) = (if a1 = [] then Null_File_Name else Executes)"
    unfolding r1(3) by (rule exec_fate_vector)
  obtain z2 r2 where r2: "redirections (vector w2 r) = Inr (in2, out2, [], z2 @ None # r)"
      "z2 @ None # r = vector a2 r2"
    using form_redirections [OF assms(2), folded w2_def] by blast
  have a2: "argv_of (z2 @ None # r) = a2" unfolding r2(2) by (rule argv_of_vector)
  have f2: "exec_fate (z2 @ None # r) = (if a2 = [] then Null_File_Name else Executes)"
    unfolding r2(2) by (rule exec_fate_vector)
  have "\<exists>st'. pipe_out E (vector ?ws r) (st\<lparr>tokens := vector ?ws r\<rparr>) = Inr st' \<and>
    events st' = events st @
      [Spawn \<lparr>child_argv = a1, child_stdin = pipe_stream E in1 Inherit, child_stdout = pipe_stream E out1 Pipe_End,
         child_fate = (if a1 = [] then Null_File_Name else Executes)\<rparr>,
       Spawn \<lparr>child_argv = a2, child_stdin = pipe_stream E in2 Pipe_End, child_stdout = pipe_stream E out2 Inherit,
         child_fate = (if a2 = [] then Null_File_Name else Executes)\<rparr>,
       Wait_Pid p1, Wait_Pid p2] \<and> serr st' = serr st \<and> sout st' = sout st \<and> forks st' = Suc (Suc (forks st))"
    unfolding pipe_out_def Let_def pos(1)
    using assms(4-8) pos(2,3)
    by (simp add: pos(4) r1(1) d r2(1) a1 a2 f1 f2 fork_def spawn_if_def del: drop_append)
  then show ?thesis unfolding w1_def [symmetric] w2_def [symmetric] by (auto simp: r)
qed

text \<open>
  A pipeline of two simple commands: the shell starts two children with the arguments before and after
  the bar, the first writing to and the second reading from the pipe where no redirection takes its
  place, and waits for both, in order. A file that does not open leaves the child without that stream;
  nothing is reported.
\<close>

theorem shell_runs_pipe:
  assumes "simple_command a1 in1 out1" and "simple_command a2 in2 out2"
    and "length (a1 @ redir_words in1 out1) + length (a2 @ redir_words in2 out2) < 49" and "pipe_works E"
    and "p1 = fork_pid E (forks st)" and "p2 = fork_pid E (Suc (forks st))" and "p1 \<noteq> -1" and "p2 \<noteq> -1"
  shows "\<exists>st'. shell_line E
      (command_line ((a1 @ redir_words in1 out1) @ ''|'' # (a2 @ redir_words in2 out2))) st = Inr (False, st') \<and>
    events st' = events st @
      [Spawn \<lparr>child_argv = a1, child_stdin = pipe_stream E in1 Inherit, child_stdout = pipe_stream E out1 Pipe_End,
         child_fate = Executes\<rparr>,
       Spawn \<lparr>child_argv = a2, child_stdin = pipe_stream E in2 Pipe_End, child_stdout = pipe_stream E out2 Inherit,
         child_fate = Executes\<rparr>,
       Wait_Pid p1, Wait_Pid p2] \<and> serr st' = serr st \<and> sout st' = sout st \<and> forks st' = Suc (Suc (forks st))"
proof -
  have c: "command_form a1 in1 out1" "command_form a2 in2 out2" and a: "a1 \<noteq> []" "a2 \<noteq> []"
    using assms(1,2) by (simp_all add: simple_command_def)
  show ?thesis using shell_line_pipe [OF c assms(3-8)] unfolding if_not_P [OF a(1)] if_not_P [OF a(2)] .
qed

theorem shell_runs_pipe_witness:
  "\<exists>st'. shell_line shell_example_env (''sort < f | wc > n'' @ [NL]) (shell_init []) = Inr (False, st') \<and>
    events st' =
      [Spawn \<lparr>child_argv = [''sort''], child_stdin = File ''f'', child_stdout = Pipe_End, child_fate = Executes\<rparr>,
       Spawn \<lparr>child_argv = [''wc''], child_stdin = Pipe_End, child_stdout = File ''n'', child_fate = Executes\<rparr>,
       Wait_Pid 100, Wait_Pid 101] \<and> serr st' = []"
proof -
  have a: "simple_command [''sort''] (Some ''f'') None" "simple_command [''wc''] None (Some ''n'')"
    by (simp_all add: simple_command_def command_form_def plain_args_def shell_word_def redir_words_def)
  have f: "pipe_works shell_example_env" "100 = fork_pid shell_example_env (forks (shell_init []))"
      "101 = fork_pid shell_example_env (Suc (forks (shell_init [])))" "events (shell_init []) = []"
      "serr (shell_init []) = []" "opens shell_example_env p" for p
    by (simp_all add: shell_example_env_def shell_init_def)
  have l: "command_line (([''sort''] @ redir_words (Some ''f'') None) @ ''|'' # ([''wc''] @ redir_words None (Some ''n''))) =
      ''sort < f | wc > n'' @ [NL]"
    by (simp add: command_line_def redir_words_def)
  show ?thesis
    using shell_runs_pipe [OF a _ f(1,2,3)] unfolding l f(4,5) by (auto simp: redir_words_def pipe_stream_def f(6))
qed

end
