(* ===== verification/ShellSafety.thy ===== *)
theory ShellSafety
  imports ShellProps
begin

text \<open>
  \<^verbatim>\<open>toy-shell/tiny-shell.c\<close> on arbitrary input: the token array keeps its size and its terminator, no
  line makes the shell leave it, and the loop ends exactly at an exit line.
\<close>

section \<open>The token array\<close>

text \<open>A null-terminated vector in the array of the shell, followed by whatever was there.\<close>

definition typed_tokens :: "string option list \<Rightarrow> bool" where
  "typed_tokens toks \<longleftrightarrow> length toks = MAX_TOKENS"

lemma length_strtok_words: "length (strtok_words n s) \<le> n"
  by (induction n s rule: strtok_words.induct) (auto split: prod.splits option.splits)

lemma parse_input_vector:
  assumes "typed_tokens toks" and "parse_input input toks = (n, bg, toks')"
  shows "\<exists>ws r. toks' = vector ws r \<and> n = length ws \<and> typed_tokens toks'"
proof -
  define ws where "ws = strtok_words (MAX_TOKENS - 1) (chomp (cstr input))"
  define r where "r = drop (length ws + 1) toks"
  have len: "length ws \<le> 49" using length_strtok_words [of 49] by (simp add: ws_def MAX_TOKENS_def)
  have p: "(if 0 < length ws \<and> last ws = ''&''
      then (length ws - 1, True, (map Some ws @ [None] @ r)[length ws - 1 := None])
      else (length ws, False, map Some ws @ [None] @ r)) = (n, bg, toks')"
    using assms(2) by (simp only: parse_input_def Let_def ws_def r_def)
  show ?thesis
  proof (cases "0 < length ws \<and> last ws = ''&''")
    case True
    then obtain vs where v: "ws = vs @ [''&'']" by (metis append_butlast_last_id length_greater_0_conv)
    have "toks' = vector vs (None # r)" "n = length vs"
      using p by (simp_all add: v vector_def list_update_append)
    then show ?thesis using len assms(1) by (auto simp: typed_tokens_def v vector_def MAX_TOKENS_def r_def)
  next
    case False
    then have "toks' = vector ws r" "n = length ws" using p [unfolded if_not_P [OF False]] by (simp_all add: vector_def)
    then show ?thesis using len assms(1) by (auto simp: typed_tokens_def vector_def MAX_TOKENS_def r_def)
  qed
qed

section \<open>One line\<close>

lemma st_tokens [simp]:
  "tokens (complain ms st) = tokens st" "tokens (echo s st) = tokens st" "tokens (record_event e st) = tokens st"
  "tokens (spawn_if pid c st) = tokens st"
  by (simp_all add: complain_def echo_def record_event_def spawn_if_def)

lemma execute_command_safe:
  assumes "tokens st = vector ws r"
  shows "\<exists>st'. execute_command E (vector ws r) bg st = Inr st' \<and> tokens st' = tokens st"
proof -
  obtain i e o' zs where "redirections (vector ws r) = Inr (i, o', e, zs @ None # r)"
    using redirections_frame [of "map Some ws" r] by (auto simp: vector_def)
  then show ?thesis by (simp add: execute_command_def fork_def Let_def)
qed

lemma pipe_out_safe:
  assumes "Some ''|'' \<in> set (map Some ws)" and "tokens st = vector ws r"
  shows "\<exists>st'. pipe_out E (vector ws r) st = Inr st' \<and> length (tokens st') = length (tokens st)"
proof -
  have "''|'' \<in> set ws" using assms(1) by auto
  then obtain w1 w2 where w: "ws = w1 @ ''|'' # w2" "''|'' \<notin> set w1" by (metis split_list_first)
  have "takeWhile (\<lambda>t. t \<noteq> None \<and> t \<noteq> Some ''|'') (vector ws r) = map Some w1"
  proof -
    have "takeWhile (\<lambda>t. t \<noteq> None \<and> t \<noteq> Some ''|'') (map Some w1 @ Some ''|'' # u) = map Some w1" for u
      using w(2) by (intro takeWhile_tail [THEN trans] takeWhile_append2 [THEN trans]) auto
    then show ?thesis by (simp add: vector_def w(1))
  qed
  then have p: "length (takeWhile (\<lambda>t. t \<noteq> None \<and> t \<noteq> Some ''|'') (vector ws r)) = length w1" by simp
  have v: "vector ws r ! length w1 = Some ''|''" "length w1 < length (vector ws r)"
    by (simp_all add: vector_def w(1) nth_append)
  have u: "(vector ws r)[length w1 := None] = map Some w1 @ None # (map Some w2 @ None # r)"
    by (simp add: vector_def w(1) list_update_append)
  obtain i1 e1 o1 z1 where r1: "redirections ((vector ws r)[length w1 := None]) = Inr (i1, o1, e1, z1 @ None # (map Some w2 @ None # r))"
      "length z1 = length w1"
    using redirections_frame [of "map Some w1" "map Some w2 @ None # r"] unfolding u by auto
  have d: "drop (Suc (length w1)) (z1 @ None # (map Some w2 @ None # r)) = map Some w2 @ None # r"
    using r1(2) by simp
  obtain i2 e2 o2 z2 where r2: "redirections (map Some w2 @ None # r) = Inr (i2, o2, e2, z2 @ None # r)"
      "length z2 = length w2"
    using redirections_frame [of "map Some w2" r] by auto
  show ?thesis
  proof (cases "pipe_works E")
    case False
    then show ?thesis by (simp add: pipe_out_def)
  next
    case True
    then show ?thesis
      unfolding pipe_out_def Let_def p
      using v r1 r2 by (simp add: d fork_def assms(2) del: drop_append) (simp add: vector_def w(1))
  qed
qed

lemma shell_line_safe:
  assumes "typed_tokens (tokens st)"
  shows "\<exists>st'. shell_line E input st = Inr (cstr input = ''exit'' @ [NL], st') \<and> typed_tokens (tokens st')"
proof (cases "cstr input = ''exit'' @ [NL]")
  case True
  then show ?thesis using assms by (simp add: shell_line_def)
next
  case False
  obtain n bg toks where p: "parse_input input (tokens st) = (n, bg, toks)" by (metis prod_cases3)
  from parse_input_vector [OF assms this] obtain ws r where t: "toks = vector ws r" "n = length ws" "typed_tokens toks"
    by blast
  have take: "take (length ws) (vector ws r) = map Some ws" by (simp add: vector_def)
  let ?st = "st\<lparr>tokens := vector ws r\<rparr>"
  have t': "tokens ?st = vector ws r" by simp
  obtain s1 where s1: "execute_command E (vector ws r) bg ?st = Inr s1" "tokens s1 = tokens ?st"
    using execute_command_safe [OF t'] by blast
  have "\<exists>s2. pipe_out E (vector ws r) ?st = Inr s2 \<and> length (tokens s2) = length (tokens ?st)"
    if "Some ''|'' \<in> set (map Some ws)"
    by (rule pipe_out_safe [OF that t'])
  then show ?thesis
    using False p t s1 by (auto simp: shell_line_def Let_def take typed_tokens_def)
qed

section \<open>The loop\<close>

lemma typed_prompt [simp]: "tokens (print_prompt st) = tokens st"
  by (simp add: print_prompt_def)

lemma shell_loop_lines:
  assumes "fgets MAX_BUFFER_SIZE i = Some (buf, rest)" and "shell_line E buf (print_prompt st) = Inr (stop, st')"
  shows "shell_loop E i st = (if stop then Some (Inr st') else shell_loop E rest st')"
  using assms by (subst shell_loop.simps) simp

lemma shell_loop_stops:
  assumes "\<exists>l \<in> set (fgets_all MAX_BUFFER_SIZE i). cstr l = ''exit'' @ [NL]" and "typed_tokens (tokens st)"
  shows "\<exists>st'. shell_loop E i st = Some (Inr st')"
  using assms
proof (induction "fgets_all MAX_BUFFER_SIZE i" arbitrary: i st)
  case Nil
  then show ?case by simp
next
  case (Cons l ls)
  have "i \<noteq> []" using Cons.hyps(2) by (cases i) auto
  then obtain buf rest where f: "fgets MAX_BUFFER_SIZE i = Some (buf, rest)"
    by (cases "fgets MAX_BUFFER_SIZE i") (auto simp: fgets_def split: prod.splits)
  have "fgets_all MAX_BUFFER_SIZE i = buf # fgets_all MAX_BUFFER_SIZE rest"
    using f by (intro fgets_all_step) (simp_all add: MAX_BUFFER_SIZE_def)
  then have l: "l = buf" "ls = fgets_all MAX_BUFFER_SIZE rest" using Cons.hyps(2) by simp_all
  obtain s1 where s1: "shell_line E buf (print_prompt st) = Inr (cstr buf = ''exit'' @ [NL], s1)"
      "typed_tokens (tokens s1)"
    using shell_line_safe [of "print_prompt st" E buf] Cons.prems(2) typed_prompt by metis
  show ?case
  proof (cases "cstr buf = ''exit'' @ [NL]")
    case True
    then show ?thesis using shell_loop_lines [OF f s1(1)] by simp
  next
    case False
    then have "\<exists>l \<in> set (fgets_all MAX_BUFFER_SIZE rest). cstr l = ''exit'' @ [NL]"
      using Cons.prems(1) l Cons.hyps(2) by (metis set_ConsD)
    then show ?thesis using Cons.hyps(1) [OF l(2) _ s1(2)] shell_loop_lines [OF f s1(1)] False by simp
  qed
qed

lemma shell_loop_result:
  assumes "shell_loop E i st = Some r" and "typed_tokens (tokens st)"
  shows "(\<exists>st'. r = Inr st') \<and> (\<exists>l \<in> set (fgets_all MAX_BUFFER_SIZE i). cstr l = ''exit'' @ [NL])"
proof -
  let ?P = "\<lambda>E i st r. typed_tokens (tokens st) \<longrightarrow>
    (\<exists>st'. r = Inr st') \<and> (\<exists>l \<in> set (fgets_all MAX_BUFFER_SIZE i). cstr l = ''exit'' @ [NL])"
  have "?P E i st r"
  proof (rule shell_loop.raw_induct [where P = ?P, OF _ assms(1)])
    fix loop E i st r
    assume IH: "\<And>E i st r. loop E i st = Some r \<Longrightarrow> ?P E i st r"
      and eq: "(case fgets MAX_BUFFER_SIZE i of
          None \<Rightarrow> loop E i (echo (''Error reading input!'' @ [NL]) (print_prompt st))
        | Some (input, rest) \<Rightarrow> (case shell_line E input (print_prompt st) of
             Inl f \<Rightarrow> Some (Inl f)
           | Inr (stop, st1) \<Rightarrow> if stop then Some (Inr st1) else loop E rest st1)) = Some r"
    show "?P E i st r"
    proof
      assume ty: "typed_tokens (tokens st)"
      show "(\<exists>st'. r = Inr st') \<and> (\<exists>l \<in> set (fgets_all MAX_BUFFER_SIZE i). cstr l = ''exit'' @ [NL])"
      proof (cases "fgets MAX_BUFFER_SIZE i")
        case None
        then show ?thesis using eq IH ty by simp
      next
        case (Some y)
        obtain buf rest where y: "y = (buf, rest)" by fastforce
        have step: "fgets_all MAX_BUFFER_SIZE i = buf # fgets_all MAX_BUFFER_SIZE rest"
          using Some y by (intro fgets_all_step) (simp_all add: MAX_BUFFER_SIZE_def)
        obtain s1 where s1: "shell_line E buf (print_prompt st) = Inr (cstr buf = ''exit'' @ [NL], s1)"
            "typed_tokens (tokens s1)"
          using shell_line_safe [of "print_prompt st" E buf] ty typed_prompt by metis
        show ?thesis
        proof (cases "cstr buf = ''exit'' @ [NL]")
          case True
          then show ?thesis using eq s1(1) Some y step by auto
        next
          case False
          then have "loop E rest s1 = Some r" using eq s1(1) Some y by simp
          from IH [OF this] show ?thesis using s1(2) step by auto
        qed
      qed
    qed
  qed
  then show ?thesis using assms(2) by blast
qed

text \<open>
  A command or pipeline as it is typed, possibly without a program, and the commands in it with their
  redirections.
\<close>

datatype typed_line =
    One "string list" "string option" "string option"
  | Piped "string list" "string option" "string option" "string list" "string option" "string option"

fun line_words :: "typed_line \<Rightarrow> string list" where
  "line_words (One a i out) = a @ redir_words i out"
| "line_words (Piped a1 in1 out1 a2 in2 out2) = (a1 @ redir_words in1 out1) @ ''|'' # (a2 @ redir_words in2 out2)"

fun line_form :: "typed_line \<Rightarrow> bool" where
  "line_form (One a i out) \<longleftrightarrow> command_form a i out \<and> a @ redir_words i out \<noteq> [] \<and> a @ redir_words i out \<noteq> [''exit'']"
| "line_form (Piped a1 in1 out1 a2 in2 out2) \<longleftrightarrow> command_form a1 in1 out1 \<and> command_form a2 in2 out2"

text \<open>Which of its children get a null file name: in a pipeline a file that does not open changes nothing.\<close>

fun null_children :: "shell_env \<Rightarrow> typed_line \<Rightarrow> bool list" where
  "null_children E (One a i out) = [a = [] \<and> \<not> refused E i \<and> \<not> refused E out]"
| "null_children E (Piped a1 in1 out1 a2 in2 out2) = [a1 = [], a2 = []]"

fun spawned :: "event list \<Rightarrow> child list" where
  "spawned [] = []"
| "spawned (Spawn c # es) = c # spawned es"
| "spawned (e # es) = spawned es"

lemma null_children_of_line:
  assumes "line_form l" and "length (line_words l) < 50" and "pipe_works E" and "\<forall>n. fork_pid E n \<noteq> -1"
  shows "\<exists>es st'. shell_line E (command_line (line_words l)) st = Inr (False, st') \<and> events st' = events st @ es \<and>
    map (\<lambda>c. child_fate c = Null_File_Name) (spawned es) = null_children E l"
proof (cases l)
  case (One a i out)
  have f: "command_form a i out" "a @ redir_words i out \<noteq> []" "length (a @ redir_words i out) < 50"
    "a @ redir_words i out \<noteq> [''exit'']" "fork_pid E (forks st) \<noteq> -1"
    using assms(1,2,4) by (simp_all add: One)
  from shell_line_form [OF f] obtain st' where st': "shell_line E (command_line (line_words l)) st = Inr (False, st')"
      "events st' = events st @ [Spawn \<lparr>child_argv = a, child_stdin = stream_of i, child_stdout = stream_of out,
        child_fate = (if refused E i then Reports ''Failed to open input file''
          else if refused E out then Reports ''Failed to open output file''
          else if a = [] then Null_File_Name else Executes)\<rparr>, Wait_Any]"
    by (auto simp: One)
  show ?thesis by (rule exI, rule exI [of _ st'], intro conjI, rule st'(1), rule st'(2)) (simp add: One)
next
  case (Piped a1 in1 out1 a2 in2 out2)
  have f: "command_form a1 in1 out1" "command_form a2 in2 out2"
    "length (a1 @ redir_words in1 out1) + length (a2 @ redir_words in2 out2) < 49"
    "fork_pid E (forks st) \<noteq> -1" "fork_pid E (Suc (forks st)) \<noteq> -1"
    using assms(1,2,4) by (simp_all add: Piped)
  from shell_line_pipe [OF f(1-3) assms(3) refl refl f(4,5)] obtain st'
    where st': "shell_line E (command_line (line_words l)) st = Inr (False, st')"
      "events st' = events st @
      [Spawn \<lparr>child_argv = a1, child_stdin = pipe_stream E in1 Inherit, child_stdout = pipe_stream E out1 Pipe_End,
         child_fate = (if a1 = [] then Null_File_Name else Executes)\<rparr>,
       Spawn \<lparr>child_argv = a2, child_stdin = pipe_stream E in2 Pipe_End, child_stdout = pipe_stream E out2 Inherit,
         child_fate = (if a2 = [] then Null_File_Name else Executes)\<rparr>,
       Wait_Pid (fork_pid E (forks st)), Wait_Pid (fork_pid E (Suc (forks st)))]"
    by (auto simp: Piped)
  show ?thesis by (rule exI, rule exI [of _ st'], intro conjI, rule st'(1), rule st'(2)) (simp add: Piped)
qed

text \<open>
  C20: The shell on any input: with its array of 50 tokens, whatever bytes standard input holds and
  whatever the system answers, no line makes the shell process leave the array or dereference a null
  pointer, every line leaves an array of 50, and it returns exactly when one of the chunks \<^verbatim>\<open>fgets\<close>
  delivers is the line \<^verbatim>\<open>exit\<close>; otherwise it goes on for ever, at end of input too. Its children are
  not safe: for commands and two-stage pipelines whose redirections come last, output before input, when
  \<^verbatim>\<open>fork\<close> and \<^verbatim>\<open>pipe\<close> succeed, a child hands \<^verbatim>\<open>execvp\<close> a null file name, which is undefined, exactly
  when its command has no words of its own (and, outside a pipeline, its files open).
\<close>

theorem shell_safe:
  assumes "typed_tokens toks"
  shows "(\<forall>E st input. typed_tokens (tokens st) \<longrightarrow>
      (\<exists>stop st'. shell_line E input st = Inr (stop, st') \<and> typed_tokens (tokens st'))) \<and>
    (\<forall>f. shell_main E toks stdin \<noteq> Some (Inl f)) \<and>
    ((\<exists>st. shell_main E toks stdin = Some (Inr st)) \<longleftrightarrow>
      (\<exists>l \<in> set (fgets_all 256 stdin). cstr l = ''exit'' @ [NL])) \<and>
    (\<forall>E l st. line_form l \<and> length (line_words l) < 50 \<and> pipe_works E \<and> (\<forall>n. fork_pid E n \<noteq> -1) \<longrightarrow>
      (\<exists>es st'. shell_line E (command_line (line_words l)) st = Inr (False, st') \<and> events st' = events st @ es \<and>
        map (\<lambda>c. child_fate c = Null_File_Name) (spawned es) = null_children E l))"
proof -
  have t: "typed_tokens (tokens (shell_init toks))" using assms by (simp add: shell_init_def)
  have "(\<forall>E st input. typed_tokens (tokens st) \<longrightarrow>
      (\<exists>stop st'. shell_line E input st = Inr (stop, st') \<and> typed_tokens (tokens st'))) \<and>
    (\<forall>f. shell_main E toks stdin \<noteq> Some (Inl f)) \<and>
    ((\<exists>st. shell_main E toks stdin = Some (Inr st)) \<longleftrightarrow>
      (\<exists>l \<in> set (fgets_all 256 stdin). cstr l = ''exit'' @ [NL]))"
    using shell_line_safe shell_loop_result [OF _ t] shell_loop_stops [OF _ t]
    unfolding shell_main_def by (fastforce simp: MAX_BUFFER_SIZE_def)
  then show ?thesis using null_children_of_line by (elim conjE) (intro conjI allI impI; blast)
qed

theorem shell_safe_witness:
  "typed_tokens (replicate 50 None) \<and>
    \<not> (\<exists>r. shell_main shell_example_env (replicate 50 None) (''< | > &'' @ [NL]) = Some r) \<and>
    (\<exists>st. shell_main shell_example_env (replicate 50 None) (''< | > &'' @ [NL] @ ''exit'' @ [NL]) = Some (Inr st)) \<and>
    (\<exists>es st'. shell_line shell_example_env (''ls | < f'' @ [NL]) (shell_init []) = Inr (False, st') \<and>
      events st' = es \<and> map (\<lambda>c. child_fate c = Null_File_Name) (spawned es) = [False, True])"
proof -
  have t: "typed_tokens (replicate 50 None)" by (simp add: typed_tokens_def MAX_TOKENS_def)
  let ?l = "Piped [''ls''] None None [] (Some ''f'') None"
  have l: "line_form ?l \<and> length (line_words ?l) < 50 \<and> pipe_works shell_example_env \<and>
      (\<forall>n. fork_pid shell_example_env n \<noteq> -1)"
    by (simp add: command_form_def plain_args_def shell_word_def redir_words_def shell_example_env_def)
  have "\<exists>es st'. shell_line shell_example_env (command_line (line_words ?l)) (shell_init []) = Inr (False, st') \<and>
      events st' = events (shell_init []) @ es \<and>
      map (\<lambda>c. child_fate c = Null_File_Name) (spawned es) = null_children shell_example_env ?l"
    using shell_safe [OF t, THEN conjunct2, THEN conjunct2, THEN conjunct2] l by blast
  moreover have "command_line (line_words ?l) = ''ls | < f'' @ [NL]" by (simp add: command_line_def redir_words_def)
  moreover have "events (shell_init []) = []" by (simp add: shell_init_def)
  ultimately have null: "\<exists>es st'. shell_line shell_example_env (''ls | < f'' @ [NL]) (shell_init []) = Inr (False, st') \<and>
      events st' = es \<and> map (\<lambda>c. child_fate c = Null_File_Name) (spawned es) = [False, True]"
    by simp
  have f: "fgets_all 256 (''< | > &'' @ [NL]) = [''< | > &'' @ [NL]]"
    "fgets_all 256 (''< | > &'' @ [NL] @ ''exit'' @ [NL]) = [''< | > &'' @ [NL], ''exit'' @ [NL]]"
    using fgets_all_lines [of "[''< | > &'']" 256] fgets_all_lines [of "[''< | > &'', ''exit'']" 256] by simp_all
  have "shell_main shell_example_env (replicate 50 None) (''< | > &'' @ [NL]) \<noteq> Some r" for r
    using shell_safe [OF t, of shell_example_env "''< | > &'' @ [NL]"] unfolding f by (cases r) auto
  moreover have "\<exists>st. shell_main shell_example_env (replicate 50 None) (''< | > &'' @ [NL] @ ''exit'' @ [NL]) = Some (Inr st)"
    using shell_safe [OF t, of shell_example_env "''< | > &'' @ [NL] @ ''exit'' @ [NL]"] unfolding f by simp
  ultimately show ?thesis using t null by auto
qed

end
