(* ===== verification/ShellSession.thy ===== *)
theory ShellSession
  imports ShellSafety
begin

text \<open>
  Whole scripts for \<^verbatim>\<open>toy-shell/tiny-shell.c\<close>: what the shell makes the system do for a sequence of
  commands, and which children are still there when it prompts again.
\<close>

section \<open>Scripts\<close>

datatype job =
    Command "string list" "string option" "string option" bool
  | Pipeline "string list" "string option" "string option" "string list" "string option" "string option"

fun job_words :: "job \<Rightarrow> string list" where
  "job_words (Command args inp outp bg) = (args @ redir_words inp outp) @ (if bg then [''&''] else [])"
| "job_words (Pipeline a1 in1 out1 a2 in2 out2) = (a1 @ redir_words in1 out1) @ ''|'' # (a2 @ redir_words in2 out2)"

fun job_ok :: "job \<Rightarrow> bool" where
  "job_ok (Command args inp outp bg) \<longleftrightarrow> simple_command args inp outp \<and> args @ redir_words inp outp \<noteq> [''exit'']"
| "job_ok (Pipeline a1 in1 out1 a2 in2 out2) \<longleftrightarrow> simple_command a1 in1 out1 \<and> simple_command a2 in2 out2"

text \<open>The words fit the array of tokens, the line the buffer.\<close>

definition job_fits :: "job \<Rightarrow> bool" where
  "job_fits j \<longleftrightarrow> length (job_words j) < 50 \<and> length (spaced (job_words j)) < 255"

definition script_text :: "job list \<Rightarrow> string" where
  "script_text js = concat (map (\<lambda>j. command_line (job_words j)) js) @ ''exit'' @ [NL]"

definition command_of :: "shell_env \<Rightarrow> string list \<Rightarrow> string option \<Rightarrow> string option \<Rightarrow> child" where
  "command_of E args inp outp =
     \<lparr>child_argv = args, child_stdin = stream_of inp, child_stdout = stream_of outp,
      child_fate = (if refused E inp then Reports ''Failed to open input file''
        else if refused E outp then Reports ''Failed to open output file'' else Executes)\<rparr>"

text \<open>What a job makes the shell do and print; \<open>n\<close> counts the calls of \<^verbatim>\<open>fork\<close> before it.\<close>

fun job_events :: "shell_env \<Rightarrow> nat \<Rightarrow> job \<Rightarrow> event list" where
  "job_events E n (Command args inp outp bg) =
     Spawn (command_of E args inp outp) # (if bg then [] else [Wait_Any])"
| "job_events E n (Pipeline a1 in1 out1 a2 in2 out2) =
     [Spawn \<lparr>child_argv = a1, child_stdin = pipe_stream E in1 Inherit, child_stdout = pipe_stream E out1 Pipe_End,
        child_fate = Executes\<rparr>,
      Spawn \<lparr>child_argv = a2, child_stdin = pipe_stream E in2 Pipe_End, child_stdout = pipe_stream E out2 Inherit,
        child_fate = Executes\<rparr>,
      Wait_Pid (fork_pid E n), Wait_Pid (fork_pid E (Suc n))]"

fun job_forks :: "job \<Rightarrow> nat" where
  "job_forks (Command args inp outp bg) = 1"
| "job_forks (Pipeline a1 in1 out1 a2 in2 out2) = 2"

fun job_out :: "shell_env \<Rightarrow> nat \<Rightarrow> job \<Rightarrow> string" where
  "job_out E n (Command args inp outp bg) =
     (if bg then ''[Background PID] '' @ dec_int (fork_pid E n) @ [NL] else [])"
| "job_out E n (Pipeline a1 in1 out1 a2 in2 out2) = []"

fun script_events :: "shell_env \<Rightarrow> nat \<Rightarrow> job list \<Rightarrow> event list" where
  "script_events E n [] = []"
| "script_events E n (j # js) = job_events E n j @ script_events E (n + job_forks j) js"

fun script_out :: "shell_env \<Rightarrow> nat \<Rightarrow> job list \<Rightarrow> string" where
  "script_out E n [] = ''tiny-shell> Bye!'' @ [NL]"
| "script_out E n (j # js) = ''tiny-shell> '' @ job_out E n j @ script_out E (n + job_forks j) js"

definition forks_ok :: "shell_env \<Rightarrow> bool" where
  "forks_ok E \<longleftrightarrow> pipe_works E \<and> (\<forall>n. fork_pid E n \<noteq> -1)"

section \<open>The lines of a script\<close>

lemma prompt_frames [simp]:
  "events (print_prompt st) = events st" "forks (print_prompt st) = forks st" "serr (print_prompt st) = serr st"
  "sout (print_prompt st) = sout st @ ''tiny-shell> ''"
  by (simp_all add: print_prompt_def echo_def)

lemma job_line:
  assumes "forks_ok E" and "job_ok j" and "job_fits j"
  shows "\<exists>st'. shell_line E (command_line (job_words j)) st = Inr (False, st') \<and>
    events st' = events st @ job_events E (forks st) j \<and> serr st' = serr st \<and>
    sout st' = sout st @ job_out E (forks st) j \<and> forks st' = forks st + job_forks j"
proof (cases j)
  case (Command args inp outp bg)
  have c: "simple_command args inp outp" "args @ redir_words inp outp \<noteq> [''exit'']"
    and f: "fork_pid E (forks st) \<noteq> -1"
    using assms(1,2) by (simp_all add: Command forks_ok_def)
  show ?thesis
  proof (cases bg)
    case False
    have l: "length (args @ redir_words inp outp) < 50" using assms(3) by (simp add: Command job_fits_def False)
    show ?thesis
      using shell_runs_command [OF c(1) l c(2) f] by (auto simp: Command False command_of_def)
  next
    case True
    have l: "length (args @ redir_words inp outp) < 49" using assms(3) by (simp add: Command job_fits_def True)
    have n: "args @ redir_words inp outp \<noteq> []" and a: "args \<noteq> []" and cf: "command_form args inp outp"
      using c(1) by (simp_all add: simple_command_def)
    obtain r where r: "shell_line E (command_line ((args @ redir_words inp outp) @ [''&''])) st =
        map_sum id (Pair False) (execute_command E (vector (args @ redir_words inp outp) r) True
          (st\<lparr>tokens := vector (args @ redir_words inp outp) r\<rparr>))"
      using shell_line_background [OF form_words(1) [OF cf] l n form_words(2) [OF cf]] by blast
    obtain zs r' where z: "redirections (vector (args @ redir_words inp outp) r) = Inr (inp, outp, [], zs @ None # r)"
        "zs @ None # r = vector args r'"
      using form_redirections [OF cf] by blast
    have "argv_of (zs @ None # r) = args" unfolding z(2) by (rule argv_of_vector)
    moreover have "exec_fate (zs @ None # r) = Executes" unfolding z(2) by (simp add: a)
    ultimately show ?thesis
      using r z(1) f
      by (simp add: Command True execute_command_def fork_def command_child_def command_of_def)
        (simp add: echo_def complain_def record_event_def)
  qed
next
  case (Pipeline a1 in1 out1 a2 in2 out2)
  have c: "simple_command a1 in1 out1" "simple_command a2 in2 out2"
    and f: "pipe_works E" "fork_pid E (forks st) \<noteq> -1" "fork_pid E (Suc (forks st)) \<noteq> -1"
    using assms(1,2) by (simp_all add: Pipeline forks_ok_def)
  have l: "length (a1 @ redir_words in1 out1) + length (a2 @ redir_words in2 out2) < 49"
    using assms(3) by (simp add: Pipeline job_fits_def)
  show ?thesis
    using shell_runs_pipe [OF c l f(1) refl refl f(2,3)] by (auto simp: Pipeline)
qed

lemma job_chars:
  assumes "job_ok j"
  shows "NL \<notin> set (spaced (job_words j))"
proof -
  have "list_all shell_word (job_words j)"
    using assms form_words(1) by (cases j) (auto simp: shell_word_def simple_command_def)
  then show ?thesis using spaced_chars by blast
qed

lemma script_loop:
  assumes "forks_ok E" and "list_all (\<lambda>j. job_ok j \<and> job_fits j) js"
  shows "\<exists>st'. shell_loop E (script_text js) st = Some (Inr st') \<and>
    events st' = events st @ script_events E (forks st) js \<and>
    sout st' = sout st @ script_out E (forks st) js \<and> serr st' = serr st"
  using assms(2)
proof (induction js arbitrary: st)
  case Nil
  have f: "fgets MAX_BUFFER_SIZE (script_text []) = Some (''exit'' @ [NL], [])"
    using fgets_line [of "''exit''" MAX_BUFFER_SIZE "[]"] by (simp add: script_text_def MAX_BUFFER_SIZE_def)
  have "shell_line E (''exit'' @ [NL]) (print_prompt st) = Inr (True, echo (''Bye!'' @ [NL]) (print_prompt st))"
    by (simp add: shell_line_def)
  from shell_loop_lines [OF f this] show ?case by (simp add: echo_def)
next
  case (Cons j js)
  have j: "job_ok j" "job_fits j" and js: "list_all (\<lambda>j. job_ok j \<and> job_fits j) js" using Cons.prems by simp_all
  have f: "fgets MAX_BUFFER_SIZE (script_text (j # js)) = Some (command_line (job_words j), script_text js)"
    using fgets_line [OF job_chars [OF j(1)], of MAX_BUFFER_SIZE "script_text js"] j(2)
    by (simp add: script_text_def MAX_BUFFER_SIZE_def command_line_def job_fits_def)
  obtain s1 where s1: "shell_line E (command_line (job_words j)) (print_prompt st) = Inr (False, s1)"
      "events s1 = events st @ job_events E (forks st) j" "serr s1 = serr st"
      "sout s1 = sout st @ ''tiny-shell> '' @ job_out E (forks st) j" "forks s1 = forks st + job_forks j"
    using job_line [OF assms(1) j, of "print_prompt st"] by auto
  then show ?case using Cons.IH [OF js, of s1] shell_loop_lines [OF f s1(1)] by simp
qed

text \<open>
  C17: A whole script: for every sequence of simple commands, in the foreground or the background, and of
  two-stage pipelines, within the 50 tokens and 256 bytes of the shell, followed by \<^verbatim>\<open>exit\<close>, the shell
  returns; it has started exactly the children the script asks for, with their arguments and streams, in
  order, waiting after each foreground command and for both ends of each pipeline; and it has printed
  its prompts and the process ids of the background commands. A simple command has at most one
  redirection of each kind, written with the output before the input; in the other order, the one of the
  README's example (\<^verbatim>\<open>sort < unsorted.txt > sorted.txt\<close>), the output redirection is lost, which
  \<open>shell_loses_output\<close> shows: that form is excluded here.
\<close>

theorem shell_session:
  assumes "forks_ok E" and "list_all (\<lambda>j. job_ok j \<and> job_fits j) js"
  shows "\<exists>st. shell_main E toks (script_text js) = Some (Inr st) \<and> events st = script_events E 0 js \<and>
    sout st = script_out E 0 js \<and> serr st = []"
  using script_loop [OF assms, of "shell_init toks"] by (simp add: shell_main_def shell_init_def)

definition script_example :: "job list" where
  "script_example = [Command [''sleep'', ''9''] None None True, Command [''wc''] (Some ''f'') None False,
     Pipeline [''sort''] (Some ''f'') None [''wc''] None (Some ''n'')]"

lemma script_example_ok:
  "list_all (\<lambda>j. job_ok j \<and> job_fits j) script_example" "forks_ok shell_example_env"
  by (simp_all add: script_example_def simple_command_def command_form_def plain_args_def shell_word_def redir_words_def
      job_fits_def forks_ok_def shell_example_env_def)

lemma script_example_text:
  "script_text script_example =
    ''sleep 9 &'' @ [NL] @ ''wc < f'' @ [NL] @ ''sort < f | wc > n'' @ [NL] @ ''exit'' @ [NL]"
  by (simp add: script_text_def script_example_def redir_words_def command_line_def)

definition sorted_job :: job where
  "sorted_job = Command [''sort''] (Some ''f'') (Some ''n'') False"

lemma sorted_job_ok: "list_all (\<lambda>j. job_ok j \<and> job_fits j) (script_example @ [sorted_job])"
  using script_example_ok(1)
  by (simp add: sorted_job_def simple_command_def command_form_def plain_args_def shell_word_def redir_words_def job_fits_def)

lemma sorted_job_text:
  "script_text (script_example @ [sorted_job]) = ''sleep 9 &'' @ [NL] @ ''wc < f'' @ [NL] @
    ''sort < f | wc > n'' @ [NL] @ ''sort > n < f'' @ [NL] @ ''exit'' @ [NL]"
  by (simp add: script_text_def script_example_def sorted_job_def redir_words_def command_line_def)

theorem shell_session_witness:
  "\<exists>st. shell_main shell_example_env []
      (''sleep 9 &'' @ [NL] @ ''wc < f'' @ [NL] @ ''sort < f | wc > n'' @ [NL] @ ''sort > n < f'' @ [NL] @
       ''exit'' @ [NL]) = Some (Inr st) \<and>
    events st =
     [Spawn \<lparr>child_argv = [''sleep'', ''9''], child_stdin = Inherit, child_stdout = Inherit, child_fate = Executes\<rparr>,
      Spawn \<lparr>child_argv = [''wc''], child_stdin = File ''f'', child_stdout = Inherit, child_fate = Executes\<rparr>, Wait_Any,
      Spawn \<lparr>child_argv = [''sort''], child_stdin = File ''f'', child_stdout = Pipe_End, child_fate = Executes\<rparr>,
      Spawn \<lparr>child_argv = [''wc''], child_stdin = Pipe_End, child_stdout = File ''n'', child_fate = Executes\<rparr>,
      Wait_Pid 102, Wait_Pid 103,
      Spawn \<lparr>child_argv = [''sort''], child_stdin = File ''f'', child_stdout = File ''n'', child_fate = Executes\<rparr>,
      Wait_Any] \<and> serr st = []"
  using shell_session [OF script_example_ok(2) sorted_job_ok, of "[]"] unfolding sorted_job_text
  by (auto simp: script_example_def sorted_job_def shell_example_env_def command_of_def stream_of_def refused_def
      pipe_stream_def)

section \<open>Which children are left\<close>

text \<open>
  The children not yet waited for, with the number of calls of \<^verbatim>\<open>fork\<close>: \<^verbatim>\<open>wait\<close> returns with any of them,
  \<^verbatim>\<open>waitpid\<close> with the one it names.
\<close>

inductive reaps :: "shell_env \<Rightarrow> event \<Rightarrow> nat \<times> int set \<Rightarrow> nat \<times> int set \<Rightarrow> bool" for E :: shell_env where
  spawn: "reaps E (Spawn c) (n, R) (Suc n, insert (fork_pid E n) R)"
| any: "p \<in> R \<Longrightarrow> reaps E Wait_Any (n, R) (n, R - {p})"
| no_child: "reaps E Wait_Any (n, {}) (n, {})"
| pid: "reaps E (Wait_Pid p) (n, R) (n, R - {p})"

inductive_simps reaps_simps: "reaps E e (n, R) s"

fun run_events :: "shell_env \<Rightarrow> event list \<Rightarrow> nat \<times> int set \<Rightarrow> nat \<times> int set \<Rightarrow> bool" where
  "run_events E [] s s' \<longleftrightarrow> s' = s"
| "run_events E (e # es) s s' \<longleftrightarrow> (\<exists>s1. reaps E e s s1 \<and> run_events E es s1 s')"

lemma run_events_append: "run_events E (as @ bs) s s' \<longleftrightarrow> (\<exists>s1. run_events E as s s1 \<and> run_events E bs s1 s')"
  by (induction as arbitrary: s) auto

fun foreground :: "job \<Rightarrow> bool" where
  "foreground (Command args inp outp bg) \<longleftrightarrow> \<not> bg"
| "foreground (Pipeline a1 in1 out1 a2 in2 out2) \<longleftrightarrow> True"

lemma job_reaped:
  "foreground j \<Longrightarrow> run_events E (job_events E n j) (n, {}) s \<longleftrightarrow> s = (n + job_forks j, {})"
  by (cases j) (auto simp: reaps_simps)

lemma script_reaped:
  "list_all foreground js \<Longrightarrow>
    run_events E (script_events E n js) (n, {}) s \<longleftrightarrow> s = (n + sum_list (map job_forks js), {})"
  by (induction js arbitrary: n) (auto simp: run_events_append job_reaped add.assoc)

lemma script_events_append:
  "script_events E n (js @ ks) = script_events E n js @ script_events E (n + sum_list (map job_forks js)) ks"
  by (induction js arbitrary: n) (auto simp: add.assoc)

lemma script_runs:
  "forks_ok E \<Longrightarrow> list_all (\<lambda>j. job_ok j \<and> job_fits j) js \<Longrightarrow>
    \<exists>st. shell_main E toks (script_text js) = Some (Inr st) \<and> events st = script_events E 0 js"
  using script_loop [of E js "shell_init toks"] by (auto simp: shell_main_def shell_init_def)

text \<open>
  C18: Waiting: for a script without background commands, every time the shell prompts again all the
  children it has started have been waited for, in every order in which they may end.
\<close>

theorem shell_waits:
  assumes "forks_ok E" and "list_all (\<lambda>j. job_ok j \<and> job_fits j) js" and "list_all foreground js"
  shows "\<exists>st. shell_main E toks (script_text js) = Some (Inr st) \<and>
    (\<forall>k. \<exists>es. events st = script_events E 0 (take k js) @ es \<and>
      {R. \<exists>n. run_events E (script_events E 0 (take k js)) (0, {}) (n, R)} = {{}})"
proof -
  obtain st where st: "shell_main E toks (script_text js) = Some (Inr st)" "events st = script_events E 0 js"
    using script_runs [OF assms(1,2)] by blast
  have "\<exists>es. events st = script_events E 0 (take k js) @ es \<and>
      {R. \<exists>n. run_events E (script_events E 0 (take k js)) (0, {}) (n, R)} = {{}}" for k
  proof -
    have "list_all foreground (take k js)" using assms(3) by (auto simp: list_all_iff dest: in_set_takeD)
    moreover have "\<exists>es. script_events E 0 js = script_events E 0 (take k js) @ es"
      using script_events_append [of E 0 "take k js" "drop k js"] by auto
    ultimately show ?thesis using st(2) by (simp add: script_reaped)
  qed
  then show ?thesis using st(1) by blast
qed

theorem shell_waits_witness:
  "\<exists>st. shell_main shell_example_env [] (''wc < f'' @ [NL] @ ''sort < f | wc > n'' @ [NL] @ ''exit'' @ [NL]) = Some (Inr st) \<and>
    {R. \<exists>n. run_events shell_example_env (script_events shell_example_env 0 (tl script_example)) (0, {}) (n, R)} = {{}}"
proof -
  have "list_all (\<lambda>j. job_ok j \<and> job_fits j) (tl script_example)" "list_all foreground (tl script_example)"
    using script_example_ok(1) by (simp_all add: script_example_def)
  from shell_waits [OF script_example_ok(2) this, of "[]"] show ?thesis
  proof (elim exE conjE)
    fix st
    assume st: "shell_main shell_example_env [] (script_text (tl script_example)) = Some (Inr st)"
      "\<forall>k. \<exists>es. events st = script_events shell_example_env 0 (take k (tl script_example)) @ es \<and>
        {R. \<exists>n. run_events shell_example_env (script_events shell_example_env 0 (take k (tl script_example))) (0, {}) (n, R)} = {{}}"
    have "script_text (tl script_example) = ''wc < f'' @ [NL] @ ''sort < f | wc > n'' @ [NL] @ ''exit'' @ [NL]"
      by (simp add: script_text_def script_example_def redir_words_def command_line_def)
    moreover have "take 2 (tl script_example) = tl script_example" by (simp add: script_example_def)
    ultimately show ?thesis using st(1) spec [OF st(2), of 2] by (simp only:) (elim exE conjE, intro exI [of _ st] conjI, simp_all only:)
  qed
qed

text \<open>
  C19: With a background command before, the shell may prompt again while the foreground command still
  runs: \<^verbatim>\<open>wait\<close> also returns when the background command ends. After a background command and a
  foreground command either of the two may be the one that is left.
\<close>

theorem shell_wait_race:
  assumes "forks_ok E" and "fork_pid E 0 \<noteq> fork_pid E 1"
    and "js = [Command a1 in1 out1 True, Command a2 in2 out2 False]" and "list_all (\<lambda>j. job_ok j \<and> job_fits j) js"
  shows "\<exists>st. shell_main E toks (script_text js) = Some (Inr st) \<and>
    {R. run_events E (events st) (0, {}) (2, R)} = {{fork_pid E 0}, {fork_pid E 1}}"
proof -
  obtain st where st: "shell_main E toks (script_text js) = Some (Inr st)" "events st = script_events E 0 js"
    using script_runs [OF assms(1,4)] by blast
  have "run_events E (script_events E 0 js) (0, {}) (2, R) \<longleftrightarrow> R = {fork_pid E 0} \<or> R = {fork_pid E 1}" for R
    using assms(2) by (auto simp: assms(3) reaps_simps)
  then show ?thesis using st by auto
qed

theorem shell_wait_race_witness:
  "\<exists>st. shell_main shell_example_env [] (''sleep 9 &'' @ [NL] @ ''wc < f'' @ [NL] @ ''exit'' @ [NL]) = Some (Inr st) \<and>
    run_events shell_example_env (events st) (0, {}) (2, {101})"
proof -
  let ?js = "[Command [''sleep'', ''9''] None None True, Command [''wc''] (Some ''f'') None False]"
  have "list_all (\<lambda>j. job_ok j \<and> job_fits j) ?js" using script_example_ok(1) by (simp add: script_example_def)
  moreover have "fork_pid shell_example_env 0 \<noteq> fork_pid shell_example_env 1" by (simp add: shell_example_env_def)
  ultimately obtain st where st: "shell_main shell_example_env [] (script_text ?js) = Some (Inr st)"
      "{R. run_events shell_example_env (events st) (0, {}) (2, R)} = {{fork_pid shell_example_env 0}, {fork_pid shell_example_env 1}}"
    using shell_wait_race [OF script_example_ok(2) _ refl] by blast
  have "script_text ?js = ''sleep 9 &'' @ [NL] @ ''wc < f'' @ [NL] @ ''exit'' @ [NL]"
    by (simp add: script_text_def redir_words_def command_line_def)
  moreover have "fork_pid shell_example_env 1 = 101" by (simp add: shell_example_env_def)
  ultimately show ?thesis using st by auto
qed

end
