(* ===== verification/FileCopy.thy ===== *)
theory FileCopy
  imports CFloat
begin

text \<open>
  \<^verbatim>\<open>steal/steal.c\<close>, and what \<^verbatim>\<open>steal/threaded_steal.c\<close> shares with it. Files are a map from paths to
  bytes; what the operating system refuses is an environment. A descriptor is represented by the path
  it was opened on; \<^verbatim>\<open>perror\<close> is recorded by its prefix. The source is read as it is after the
  destination has been opened and truncated.
\<close>

section \<open>The progress bar\<close>

definition BUF_SIZE :: nat where
  "BUF_SIZE = 4096"

definition PROGRESS_WIDTH :: nat where
  "PROGRESS_WIDTH = 30"

text \<open>A quotient that does not fit an \<^verbatim>\<open>int\<close> has no conversion to it.\<close>

definition print_progress :: "nat \<Rightarrow> nat \<Rightarrow> string outcome" where
  "print_progress stolen total_size =
     (let percent = fdiv (f_of_nat stolen) (f_of_nat total_size)
      in case ftrunc (fmul_nat percent PROGRESS_WIDTH) of
           None \<Rightarrow> Inl Signed_Overflow
         | Some progress \<Rightarrow>
             if 2147483647 < progress then Inl Signed_Overflow
             else Inr (CHR 0x0D # ''Copying ['' @
               map (\<lambda>i. if i < progress then CHR ''#'' else CHR ''-'') [0..<PROGRESS_WIDTH] @ ''] '' @
               pad_left 3 CHR '' '' (fmt_fixed 0 (fmul_nat percent 100)) @ ''%''))"

section \<open>Copying one file\<close>

record copy_env =
  read_err :: "nat \<Rightarrow> bool"
  write_res :: "nat \<Rightarrow> nat \<Rightarrow> int"

record copying =
  written :: "u8 list"
  cout :: string
  cerr :: "string list"

text \<open>
  The loop over what is left of the source; a \<^verbatim>\<open>read\<close> at some offset may fail, a \<^verbatim>\<open>write\<close> may take
  fewer bytes or return \<open>-1\<close>.
\<close>

function copy_loop :: "copy_env \<Rightarrow> nat \<Rightarrow> u8 list \<Rightarrow> nat \<Rightarrow> copying \<Rightarrow> (int \<times> copying) outcome" where
  "copy_loop E total_size rest stolen st =
     (if read_err E stolen then Inr (0, st\<lparr>cerr := cerr st @ [''Error reading source file'']\<rparr>)
      else if rest = [] then Inr (0, st)
      else
        let buffer = take BUF_SIZE rest;
            b_written = write_res E stolen (length buffer);
            st1 = st\<lparr>written := written st @ take (nat b_written) buffer\<rparr>
        in if b_written \<noteq> int (length buffer)
           then Inr (1, st1\<lparr>cerr := cerr st1 @ [''Error copying from source'']\<rparr>)
           else and_then (print_progress (stolen + length buffer) total_size) (\<lambda>s.
             copy_loop E total_size (drop BUF_SIZE rest) (stolen + length buffer) (st1\<lparr>cout := cout st1 @ s\<rparr>)))"
  by pat_completeness auto
termination
  by (relation "measure (\<lambda>(E, t, rest, s, st). length rest)") (auto simp: BUF_SIZE_def)

declare copy_loop.simps [simp del]

definition copy_files :: "copy_env \<Rightarrow> u8 list \<Rightarrow> nat \<Rightarrow> (int \<times> copying) outcome" where
  "copy_files E src total_size = copy_loop E total_size src 0 \<lparr>written = [], cout = [], cerr = []\<rparr>"

section \<open>Paths\<close>

definition basename :: "string \<Rightarrow> string" where
  "basename path =
     (if path = [] then ''.''
      else let r = dropWhile (\<lambda>c. c = CHR ''/'') (rev path)
           in if r = [] then ''/'' else rev (takeWhile (\<lambda>c. c \<noteq> CHR ''/'') r))"

text \<open>
  The \<^verbatim>\<open>basename\<close> of \<^verbatim>\<open>libgen.h\<close> ends its argument before the slashes at its end (a path of slashes only
  is left alone): the path it leaves.
\<close>

definition basename_leaves :: "string \<Rightarrow> string" where
  "basename_leaves path =
     (let r = dropWhile (\<lambda>c. c = CHR ''/'') (rev path) in if r = [] then path else rev r)"

lemma basename_leaves_id: "last path \<noteq> CHR ''/'' \<Longrightarrow> basename_leaves path = path"
  by (cases path rule: rev_cases) (simp_all add: basename_leaves_def)

definition PATH_MAX :: nat where
  "PATH_MAX = 4096"

definition destination_file :: "string \<Rightarrow> string \<Rightarrow> string outcome" where
  "destination_file folder filename =
     (if folder = [] then Inl Out_Of_Bounds
      else if last folder \<noteq> CHR ''/'' then Inr (take (PATH_MAX - 1) (folder @ ''/'' @ filename))
      else Inr (take (PATH_MAX - 1) (folder @ filename)))"

section \<open>steal\<close>

record steal_env =
  is_dir :: "string \<Rightarrow> bool"
  can_read :: "string \<Rightarrow> bool"
  can_write :: "string \<Rightarrow> bool"
  io :: "nat \<Rightarrow> copy_env"

record world =
  wfiles :: "string \<Rightarrow> u8 list option"
  wout :: string
  werr :: "string list"

definition wput :: "string \<Rightarrow> world \<Rightarrow> world" where
  "wput s w = w\<lparr>wout := wout w @ s\<rparr>"

definition wfail :: "string \<Rightarrow> world \<Rightarrow> world" where
  "wfail s w = w\<lparr>werr := werr w @ [s]\<rparr>"

text \<open>A destination that was not opened has descriptor \<open>-1\<close>, on which every write fails.\<close>

definition copy_to :: "steal_env \<Rightarrow> nat \<Rightarrow> string \<Rightarrow> string \<Rightarrow> nat \<Rightarrow> world \<Rightarrow> (int \<times> world) outcome" where
  "copy_to E i from to total_size w =
     (let opened = can_write E to;
          fs = (if opened then (wfiles w)(to \<mapsto> []) else wfiles w);
          src = (case fs from of None \<Rightarrow> [] | Some c \<Rightarrow> c);
          C = (if opened then io E i else (io E i)\<lparr>write_res := (\<lambda>_ _. -1)\<rparr>)
      in and_then (copy_files C src total_size) (\<lambda>(e, c).
           Inr (e, w\<lparr>wfiles := (if opened then fs(to \<mapsto> written c) else fs),
                     wout := wout w @ cout c, werr := werr w @ cerr c\<rparr>)))"

text \<open>One source: \<open>Inl\<close> of the state is \<^verbatim>\<open>return 1\<close>.\<close>

definition steal_one ::
  "steal_env \<Rightarrow> string \<Rightarrow> nat \<Rightarrow> nat \<Rightarrow> string \<Rightarrow> world \<Rightarrow> (world + world) outcome" where
  "steal_one E folder i n path w =
     (case wfiles w path of
        None \<Rightarrow> Inr (Inl (wfail ''Cannot get source file details'' w))
      | Some content \<Rightarrow>
          if \<not> can_read E path then Inr (Inl (wfail ''Error opening source file'' w))
          else
            and_then (destination_file folder (basename path)) (\<lambda>to.
            and_then (copy_to E i path to (length content) w) (\<lambda>(e, w1).
              let w2 = (if e \<noteq> 0 then wfail ''Something went wrong!'' w1 else w1)
              in Inr (Inr (wput ('' Copied ('' @ dec_nat i @ ''/'' @ dec_nat n @ '')'' @ [NL]) w2)))))"

text \<open>The loop over the sources; the count is the global \<^verbatim>\<open>success\<close>.\<close>

fun steal_loop ::
  "steal_env \<Rightarrow> string \<Rightarrow> nat \<Rightarrow> nat \<Rightarrow> string list \<Rightarrow> nat \<Rightarrow> world \<Rightarrow> (int \<times> nat \<times> world) outcome" where
  "steal_loop E folder i n [] success w = Inr (0, success, w)"
| "steal_loop E folder i n (path # paths) success w =
     and_then (steal_one E folder i n path w) (\<lambda>r.
       case r of Inl w1 \<Rightarrow> Inr (1, success, w1)
       | Inr w1 \<Rightarrow> steal_loop E folder (i + 1) n paths (success + 1) w1)"

definition steal_main :: "steal_env \<Rightarrow> string list \<Rightarrow> world \<Rightarrow> (int \<times> world) outcome" where
  "steal_main E argv w =
     (if argv = [] then Inl Null_Deref
      else if length argv < 3 then
        Inr (1, wfail (''Usage: '' @ hd argv @ '' <source1> <source2> ... <destination_dir>'') w)
      else
        let destination_folder = last argv; paths = butlast (tl argv)
        in if \<not> is_dir E destination_folder then Inr (1, wfail ''Destination must be a valid directory'' w)
           else and_then (steal_loop E destination_folder 1 (length paths) paths 0 w) (\<lambda>(c, success, w1).
             if c \<noteq> 0 then Inr (c, w1)
             else Inr (0, wput (NL # ''Copied '' @ dec_nat success @ '' files to '' @ destination_folder @ [NL]) w1)))"

end
