(* ===== verification/CopyProps.thy ===== *)
theory CopyProps
  imports FileCopy
begin

text \<open>
  The properties of \<^verbatim>\<open>steal/steal.c\<close>: the progress bar never leaves the range of \<^verbatim>\<open>int\<close>, the copies are
  exact, and what is counted as a copy.
\<close>

section \<open>The progress bar\<close>

lemma progress_cells:
  assumes "0 < stolen" and "stolen \<le> total_size" and "total_size < 2 ^ 63"
  shows "\<exists>p. ftrunc (fmul_nat (fdiv (f_of_nat stolen) (f_of_nat total_size)) PROGRESS_WIDTH) = Some p \<and> p \<le> 512"
proof -
  have t: "total_size < 2 ^ 64" "PROGRESS_WIDTH \<le> 2 ^ 7" using assms(3) by (simp_all add: PROGRESS_WIDTH_def)
  obtain m h where m: "fmul_nat (fdiv (f_of_nat stolen) (f_of_nat total_size)) PROGRESS_WIDTH = Fin m h"
      "h \<le> 0" "m \<le> 2 ^ 9 * 2 ^ nat (- h)"
    using fraction_bounded [OF assms(1,2) t] by blast
  show ?thesis using ftrunc_bounded [OF m(2,3)] m(1) by simp
qed

text \<open>The bar for a quotient that is truncated to \<open>p\<close>.\<close>

lemma print_progress_bar_cells:
  assumes "ftrunc (fmul_nat (fdiv (f_of_nat stolen) (f_of_nat total_size)) PROGRESS_WIDTH) = Some p" and "p \<le> 512"
  shows "print_progress stolen total_size = Inr (CHR 0x0D # ''Copying ['' @
    replicate (min p 30) CHR ''#'' @ replicate (30 - min p 30) CHR ''-'' @ ''] '' @
    pad_left 3 CHR '' '' (fmt_fixed 0 (fmul_nat (fdiv (f_of_nat stolen) (f_of_nat total_size)) 100)) @ ''%'')"
proof -
  have bar: "map (\<lambda>i. if i < p then CHR ''#'' else CHR ''-'') [0..<30] =
      replicate (min p 30) CHR ''#'' @ replicate (30 - min p 30) CHR ''-''"
    by (rule nth_equalityI) (auto simp: nth_append)
  have "\<not> 2147483647 < p" using assms(2) by simp
  then show ?thesis using assms(1) bar unfolding print_progress_def Let_def PROGRESS_WIDTH_def by simp
qed

lemma print_progress_cells:
  assumes "ftrunc (fmul_nat (fdiv (f_of_nat stolen) (f_of_nat total_size)) PROGRESS_WIDTH) = Some p" and "p \<le> 512"
  shows "\<exists>s. print_progress stolen total_size = Inr s"
  using print_progress_bar_cells [OF assms] by blast

lemma progress_accurate:
  assumes "0 < stolen" and "stolen \<le> total_size" and "total_size < 2 ^ 63"
  shows "\<exists>k. ftrunc (fmul_nat (fdiv (f_of_nat stolen) (f_of_nat total_size)) PROGRESS_WIDTH) = Some k \<and> k \<le> 30 \<and>
    real k \<le> 30 * real stolen / real total_size + 1 / 10000 \<and>
    30 * real stolen / real total_size < real k + 1 + 1 / 10000 \<and> (stolen = total_size \<longrightarrow> k = 30)"
proof -
  obtain m e where w: "fmul_nat (fdiv (f_of_nat stolen) (f_of_nat total_size)) 30 = Fin m e"
      "\<bar>fval (Fin m e) - 30 * real stolen / real total_size\<bar> \<le> 1 / 10000"
    using fraction_accurate [OF assms, of 30] by auto
  let ?v = "fval (Fin m e)" and ?x = "30 * real stolen / real total_size"
  have x: "?x \<le> 30" "0 \<le> ?x" using assms(1,2) by (simp_all add: divide_le_eq)
  have v: "?v \<le> ?x + 1 / 10000" "?x - 1 / 10000 \<le> ?v" using w(2) unfolding abs_le_iff by linarith+
  have "0 \<le> ?v" by simp
  then have k: "real (nat \<lfloor>?v\<rfloor>) \<le> ?v" "?v < real (nat \<lfloor>?v\<rfloor>) + 1" by linarith+
  then have "real (nat \<lfloor>?v\<rfloor>) < real 31" using v x by linarith
  then have "nat \<lfloor>?v\<rfloor> \<le> 30" unfolding of_nat_less_iff by linarith
  moreover have "nat \<lfloor>?v\<rfloor> = 30" if eq: "stolen = total_size"
  proof -
    obtain h where "fmul_nat (fdiv (f_of_nat stolen) (f_of_nat stolen)) 30 = Fin (30 * 2 ^ h) (- int h)"
      using fraction_whole [of stolen 30] assms(1,3) eq by auto
    then have "m = 30 * 2 ^ h" "e = - int h" using w(1) eq by simp_all
    then have "?v = 30" by (simp add: powi_nat)
    then show ?thesis by simp
  qed
  moreover have "real (nat \<lfloor>?v\<rfloor>) \<le> ?x + 1 / 10000" "?x < real (nat \<lfloor>?v\<rfloor>) + 1 + 1 / 10000" using v k by linarith+
  moreover have "ftrunc (fmul_nat (fdiv (f_of_nat stolen) (f_of_nat total_size)) PROGRESS_WIDTH) = Some (nat \<lfloor>?v\<rfloor>)"
    unfolding PROGRESS_WIDTH_def w(1) by (rule ftrunc_floor)
  ultimately show ?thesis by blast
qed

lemma percentage_accurate:
  assumes "0 < stolen" and "stolen \<le> total_size" and "total_size < 2 ^ 63"
  shows "\<exists>d. fmt_fixed 0 (fmul_nat (fdiv (f_of_nat stolen) (f_of_nat total_size)) 100) = dec_nat d \<and>
    \<bar>real d - 100 * real stolen / real total_size\<bar> \<le> 1 / 2 + 1 / 10000 \<and> (stolen = total_size \<longrightarrow> d = 100)"
proof -
  obtain m e where w: "fmul_nat (fdiv (f_of_nat stolen) (f_of_nat total_size)) 100 = Fin m e"
      "\<bar>fval (Fin m e) - 100 * real stolen / real total_size\<bar> \<le> 1 / 10000"
    using fraction_accurate [OF assms, of 100] by auto
  obtain d where d: "fmt_fixed 0 (Fin m e) = dec_nat d" "\<bar>real d - fval (Fin m e)\<bar> \<le> 1 / 2"
    using fmt_integer by blast
  have "d = 100" if eq: "stolen = total_size"
  proof -
    obtain h where "fmul_nat (fdiv (f_of_nat stolen) (f_of_nat stolen)) 100 = Fin (100 * 2 ^ h) (- int h)"
      using fraction_whole [of stolen 100] assms(1,3) eq by auto
    then have "m = 100 * 2 ^ h" "e = - int h" using w(1) eq by simp_all
    then have "fval (Fin m e) = 100" by (simp add: powi_nat)
    then have "\<bar>real d - real 100\<bar> \<le> 1 / 2" using d(2) by simp
    then show ?thesis by linarith
  qed
  moreover have "\<bar>real d - 100 * real stolen / real total_size\<bar> \<le> 1 / 2 + 1 / 10000"
    using w(2) d(2) unfolding abs_le_iff by linarith
  ultimately show ?thesis using w(1) d(1) by auto
qed

text \<open>
  C29: The progress bar: for any progress from one byte to the whole of a file whose size is positive and
  fits \<^verbatim>\<open>off_t\<close>, the conversions to \<^verbatim>\<open>int\<close> are defined, and the bar has 30 cells. The number of full ones,
  which come first, is the rounded-down share of 30 and the number behind them the rounded share of 100,
  both up to the rounding of the \<^verbatim>\<open>float\<close> arithmetic (less than 1/10000); when everything is copied all
  cells are full and the number is 100.
\<close>

theorem print_progress_bar:
  assumes "0 < stolen" and "stolen \<le> total_size" and "total_size < 2 ^ 63"
  shows "\<exists>k d. print_progress stolen total_size =
      Inr (CHR 0x0D # ''Copying ['' @ replicate k CHR ''#'' @ replicate (30 - k) CHR ''-'' @ ''] '' @
        pad_left 3 CHR '' '' (dec_nat d) @ ''%'') \<and> k \<le> 30 \<and>
    real k \<le> 30 * real stolen / real total_size + 1 / 10000 \<and>
    30 * real stolen / real total_size < real k + 1 + 1 / 10000 \<and>
    \<bar>real d - 100 * real stolen / real total_size\<bar> \<le> 1 / 2 + 1 / 10000 \<and>
    (stolen = total_size \<longrightarrow> k = 30 \<and> d = 100)"
proof -
  obtain k where k: "ftrunc (fmul_nat (fdiv (f_of_nat stolen) (f_of_nat total_size)) PROGRESS_WIDTH) = Some k" "k \<le> 30"
      "real k \<le> 30 * real stolen / real total_size + 1 / 10000"
      "30 * real stolen / real total_size < real k + 1 + 1 / 10000" "stolen = total_size \<longrightarrow> k = 30"
    using progress_accurate [OF assms] by blast
  obtain d where d: "fmt_fixed 0 (fmul_nat (fdiv (f_of_nat stolen) (f_of_nat total_size)) 100) = dec_nat d"
      "\<bar>real d - 100 * real stolen / real total_size\<bar> \<le> 1 / 2 + 1 / 10000" "stolen = total_size \<longrightarrow> d = 100"
    using percentage_accurate [OF assms] by blast
  have "k \<le> 512" "min k 30 = k" using k(2) by simp_all
  then show ?thesis
    using print_progress_bar_cells [OF k(1)] k d by (intro exI [of _ k] exI [of _ d]) simp
qed

theorem print_progress_bar_witness:
  "\<exists>s. print_progress 4096 4096 = Inr (CHR 0x0D # ''Copying ['' @ replicate 30 CHR ''#'' @ ''] 100%'') \<and>
    print_progress 1 2 = Inr s"
proof -
  have "dec_nat 100 = ''100''" by (simp add: dec_nat.simps digit_simps)
  then have "print_progress 4096 4096 = Inr (CHR 0x0D # ''Copying ['' @ replicate 30 CHR ''#'' @ ''] 100%'')"
    using print_progress_bar [of 4096 4096] by (auto simp: pad_left_def)
  moreover have "\<exists>s. print_progress 1 2 = Inr s" using print_progress_bar [of 1 2] by auto
  ultimately show ?thesis by blast
qed

section \<open>Copying\<close>

definition io_ok :: "copy_env \<Rightarrow> bool" where
  "io_ok C \<longleftrightarrow> (\<forall>o1. \<not> read_err C o1) \<and> (\<forall>o1 n. write_res C o1 n = int n)"

lemma copy_loop_exact:
  assumes "io_ok C" and "stolen + length rest \<le> total_size" and "total_size < 2 ^ 63"
  shows "\<exists>s. copy_loop C total_size rest stolen st = Inr (0, st\<lparr>written := written st @ rest, cout := s\<rparr>)"
  using assms(2)
proof (induction rest arbitrary: stolen st rule: measure_induct_rule [of length])
  case (less rest)
  show ?case
  proof (cases "rest = []")
    case True
    then show ?thesis
      using assms(1) by (subst copy_loop.simps) (auto simp: io_ok_def intro!: exI [of _ "cout st"])
  next
    case False
    let ?buf = "take BUF_SIZE rest" and ?rest = "drop BUF_SIZE rest"
    let ?n = "stolen + length ?buf"
    have n: "0 < ?n" "?n \<le> total_size" "?n + length ?rest \<le> total_size" "length ?rest < length rest"
      using False less.prems by (auto simp: BUF_SIZE_def)
    obtain p where "ftrunc (fmul_nat (fdiv (f_of_nat ?n) (f_of_nat total_size)) PROGRESS_WIDTH) = Some p"
        "p \<le> 512"
      using progress_cells [OF n(1,2) assms(3)] by blast
    from print_progress_cells [OF this] obtain s where s: "print_progress ?n total_size = Inr s" by blast
    let ?st1 = "st\<lparr>written := written st @ ?buf, cout := cout st @ s\<rparr>"
    have "copy_loop C total_size rest stolen st = copy_loop C total_size ?rest ?n ?st1"
      using False assms(1) s
      by (subst copy_loop.simps) (simp add: io_ok_def Let_def del: length_take)
    moreover obtain s' where "copy_loop C total_size ?rest ?n ?st1 =
        Inr (0, ?st1\<lparr>written := written ?st1 @ ?rest, cout := s'\<rparr>)"
      using less.IH [OF n(4,3), of ?st1] by blast
    ultimately show ?thesis by auto
  qed
qed

lemma copy_files_exact:
  assumes "io_ok C" and "length src < 2 ^ 63"
  shows "\<exists>s. copy_files C src (length src) = Inr (0, \<lparr>written = src, cout = s, cerr = []\<rparr>)"
  using copy_loop_exact [OF assms(1), of 0 src "length src" "\<lparr>written = [], cout = [], cerr = []\<rparr>"] assms(2)
  by (simp add: copy_files_def)

definition env_ok :: "steal_env \<Rightarrow> bool" where
  "env_ok E \<longleftrightarrow> (\<forall>p. can_read E p \<and> can_write E p) \<and> (\<forall>i. io_ok (io E i))"

definition sources_ok :: "string \<Rightarrow> string list \<Rightarrow> (string \<Rightarrow> string) \<Rightarrow> world \<Rightarrow> bool" where
  "sources_ok folder paths dest w \<longleftrightarrow>
     (\<forall>p \<in> set paths. destination_file folder (basename p) = Inr (dest p) \<and>
        (\<exists>c. wfiles w p = Some c \<and> length c < 2 ^ 63)) \<and>
     distinct (map dest paths) \<and> set paths \<inter> set (map dest paths) = {}"

lemma steal_one_exact:
  assumes "env_ok E" and "destination_file folder (basename p) = Inr d" and "wfiles w p = Some c"
    and "length c < 2 ^ 63" and "p \<noteq> d"
  shows "\<exists>w'. steal_one E folder i n p w = Inr (Inr w') \<and> wfiles w' = (wfiles w)(d \<mapsto> c) \<and> werr w' = werr w"
proof -
  have "io_ok (io E i)" using assms(1) by (simp add: env_ok_def)
  from copy_files_exact [OF this assms(4)] obtain s where
    "copy_files (io E i) c (length c) = Inr (0, \<lparr>written = c, cout = s, cerr = []\<rparr>)" by blast
  then show ?thesis
    using assms by (simp add: steal_one_def copy_to_def env_ok_def Let_def wput_def)
qed

lemma steal_loop_exact:
  assumes "env_ok E" and "sources_ok folder paths dest w"
  shows "\<exists>w'. steal_loop E folder i n paths k w = Inr (0, k + length paths, w') \<and> werr w' = werr w \<and>
    (\<forall>p \<in> set paths. wfiles w' (dest p) = wfiles w p) \<and>
    (\<forall>q. q \<notin> dest ` set paths \<longrightarrow> wfiles w' q = wfiles w q)"
  using assms(2)
proof (induction paths arbitrary: i k w)
  case Nil
  then show ?case by simp
next
  case (Cons p paths)
  then obtain c where c: "destination_file folder (basename p) = Inr (dest p)" "wfiles w p = Some c"
      "length c < 2 ^ 63" "p \<noteq> dest p"
    by (auto simp: sources_ok_def)
  obtain w1 where w1: "steal_one E folder i n p w = Inr (Inr w1)" "wfiles w1 = (wfiles w)(dest p \<mapsto> c)"
      "werr w1 = werr w"
    using steal_one_exact [OF assms(1) c] by blast
  have ok: "sources_ok folder paths dest w1"
    using Cons.prems w1(2) by (auto simp: sources_ok_def)
  obtain w2 where w2: "steal_loop E folder (i + 1) n paths (k + 1) w1 = Inr (0, k + 1 + length paths, w2)"
      "werr w2 = werr w1" "\<forall>p \<in> set paths. wfiles w2 (dest p) = wfiles w1 p"
      "\<forall>q. q \<notin> dest ` set paths \<longrightarrow> wfiles w2 q = wfiles w1 q"
    using Cons.IH [OF ok] by blast
  have d: "dest p \<notin> dest ` set paths" "\<forall>q \<in> set paths. q \<noteq> dest p"
    using Cons.prems by (auto simp: sources_ok_def)
  then show ?case using w1 w2 c(2) by auto
qed

lemma steal_main_paths:
  assumes "is_dir E folder" and "paths \<noteq> []"
  shows "steal_main E (prog # paths @ [folder]) w =
    and_then (steal_loop E folder 1 (length paths) paths 0 w) (\<lambda>(c, success, w1).
      if c \<noteq> 0 then Inr (c, w1)
      else Inr (0, wput (NL # ''Copied '' @ dec_nat success @ '' files to '' @ folder @ [NL]) w1))"
proof -
  have "\<not> length (prog # paths @ [folder]) < 3" using assms(2) by (cases paths) auto
  then show ?thesis using assms(1) by (simp add: steal_main_def Let_def butlast_append)
qed

lemma steal_exact:
  assumes "env_ok E" and "is_dir E folder" and "paths \<noteq> []" and "sources_ok folder paths dest w"
  shows "\<exists>w'. steal_main E (prog # paths @ [folder]) w = Inr (0, w') \<and> werr w' = werr w \<and>
    (\<forall>p \<in> set paths. wfiles w' (dest p) = wfiles w p) \<and>
    (\<forall>q. q \<notin> dest ` set paths \<longrightarrow> wfiles w' q = wfiles w q)"
  using steal_loop_exact [OF assms(1,4), of 1 "length paths" 0]
  by (auto simp: steal_main_paths [OF assms(2,3)] wput_def)

text \<open>
  C27: Copying: when the sources are readable files of sizes within \<^verbatim>\<open>off_t\<close>, their destinations are all
  different and none of them is a source, and the system refuses nothing, \<^verbatim>\<open>steal\<close> returns 0, every
  destination holds exactly the bytes of its source, no other file changes, and nothing is reported.
\<close>

theorem steal_copies:
  assumes "env_ok E" and "is_dir E folder" and "paths \<noteq> []" and "sources_ok folder paths dest w"
  shows "\<exists>w'. steal_main E (prog # paths @ [folder]) w = Inr (0, w') \<and> werr w' = werr w \<and>
    (\<forall>p \<in> set paths. wfiles w' (dest p) = wfiles w p) \<and>
    (\<forall>q. q \<notin> dest ` set paths \<longrightarrow> wfiles w' q = wfiles w q)"
  by (rule steal_exact [OF assms])

definition steal_example_env :: steal_env where
  "steal_example_env = \<lparr>is_dir = (\<lambda>p. p = ''d''), can_read = (\<lambda>_. True), can_write = (\<lambda>_. True),
     io = (\<lambda>_. \<lparr>read_err = (\<lambda>_. False), write_res = (\<lambda>_ n. int n)\<rparr>)\<rparr>"

definition steal_example_world :: world where
  "steal_example_world = \<lparr>wfiles = [''a'' \<mapsto> [1, 2, 3], ''x/b'' \<mapsto> [4]], wout = [], werr = []\<rparr>"

theorem steal_copies_witness:
  "\<exists>w'. steal_main steal_example_env [''steal'', ''a'', ''x/b'', ''d''] steal_example_world = Inr (0, w') \<and>
    wfiles w' ''d/a'' = Some [1, 2, 3] \<and> wfiles w' ''d/b'' = Some [4]"
proof -
  let ?dest = "\<lambda>p. if p = ''a'' then ''d/a'' else ''d/b''"
  have "env_ok steal_example_env" "is_dir steal_example_env ''d''"
    by (simp_all add: env_ok_def steal_example_env_def io_ok_def)
  moreover have "sources_ok ''d'' [''a'', ''x/b''] ?dest steal_example_world"
    by (simp add: sources_ok_def destination_file_def basename_def PATH_MAX_def steal_example_world_def)
  ultimately have "\<exists>w'. steal_main steal_example_env (''steal'' # [''a'', ''x/b''] @ [''d'']) steal_example_world =
      Inr (0, w') \<and> werr w' = werr steal_example_world \<and>
      (\<forall>p \<in> set [''a'', ''x/b'']. wfiles w' (?dest p) = wfiles steal_example_world p) \<and>
      (\<forall>q. q \<notin> ?dest ` set [''a'', ''x/b''] \<longrightarrow> wfiles w' q = wfiles steal_example_world q)"
    by (intro steal_copies) simp_all
  then show ?thesis by (auto simp: steal_example_world_def)
qed

section \<open>What is not a copy\<close>

lemma steal_loop_counts:
  "steal_loop E folder i n paths k w = Inr (0, s, w') \<Longrightarrow> s = k + length paths"
  by (induction paths arbitrary: i k w) (fastforce simp: and_then_def split: sum.splits)+

text \<open>
  The count: whenever \<^verbatim>\<open>steal\<close> returns 0, its last line claims that all sources were copied,
  whatever their copies returned, because \<^verbatim>\<open>success\<close> is increased after a failed copy as well.
\<close>

theorem steal_counts_all:
  assumes "steal_main E (prog # paths @ [folder]) w = Inr (0, w')" and "paths \<noteq> []"
  shows "\<exists>pre. wout w' = pre @ NL # ''Copied '' @ dec_nat (length paths) @ '' files to '' @ folder @ [NL]"
proof -
  have "is_dir E folder" using assms by (auto simp: steal_main_def Let_def split: if_splits)
  then obtain s w1 where "steal_loop E folder 1 (length paths) paths 0 w = Inr (0, s, w1)"
      "w' = wput (NL # ''Copied '' @ dec_nat s @ '' files to '' @ folder @ [NL]) w1"
    using assms by (auto simp: steal_main_paths and_then_Inr split: if_splits)
  then show ?thesis using steal_loop_counts by (fastforce simp: wput_def)
qed

definition steal_full_disk :: steal_env where
  "steal_full_disk = \<lparr>is_dir = (\<lambda>_. True), can_read = (\<lambda>_. True), can_write = (\<lambda>_. True),
     io = (\<lambda>_. \<lparr>read_err = (\<lambda>_. False), write_res = (\<lambda>_ _. -1)\<rparr>)\<rparr>"

text \<open>On a full disk nothing is written, and one file is counted.\<close>

theorem steal_counts_all_witness:
  "\<exists>w' pre. steal_main steal_full_disk [''steal'', ''a'', ''d''] steal_example_world = Inr (0, w') \<and>
    wfiles w' ''d/a'' = Some [] \<and> wout w' = pre @ NL # ''Copied 1 files to d'' @ [NL]"
proof -
  have c: "copy_files \<lparr>read_err = (\<lambda>_. False), write_res = (\<lambda>_ _. -1)\<rparr> [1, 2, 3] (Suc (Suc (Suc 0))) =
      Inr (1, \<lparr>written = [], cout = [], cerr = [''Error copying from source'']\<rparr>)"
    by (subst copy_files_def, subst copy_loop.simps) (simp add: BUF_SIZE_def Let_def)
  obtain w' where w': "steal_main steal_full_disk [''steal'', ''a'', ''d''] steal_example_world = Inr (0, w')"
      "wfiles w' ''d/a'' = Some []"
    using c steal_main_paths [of steal_full_disk "''d''" "[''a'']" "''steal''" steal_example_world]
    by (simp add: steal_full_disk_def steal_one_def steal_example_world_def destination_file_def
        basename_def PATH_MAX_def copy_to_def Let_def wput_def wfail_def)
  then show ?thesis
    using steal_counts_all [of steal_full_disk "''steal''" "[''a'']" "''d''"] by (simp add: dec_nat.simps digit_simps)
qed

text \<open>
  Copying a file into the directory it is in empties it: the destination is opened with
  \<^verbatim>\<open>O_TRUNC\<close> before the source is read, so the program returns 0, reports nothing and leaves no byte.
\<close>

theorem steal_destroys_itself:
  assumes "env_ok E" and "is_dir E folder" and "destination_file folder (basename p) = Inr p"
    and "wfiles w p = Some c"
  shows "\<exists>w'. steal_main E [prog, p, folder] w = Inr (0, w') \<and> wfiles w' p = Some [] \<and> werr w' = werr w"
proof -
  have "\<not> read_err (io E 1) 0" using assms(1) by (simp add: env_ok_def io_ok_def)
  then have "copy_files (io E 1) [] n = Inr (0, \<lparr>written = [], cout = [], cerr = []\<rparr>)" for n
    by (subst copy_files_def, subst copy_loop.simps) simp
  then show ?thesis
    using steal_main_paths [OF assms(2), of "[p]" prog w] assms(1,3,4)
    by (simp add: steal_one_def copy_to_def env_ok_def Let_def wput_def)
qed

theorem steal_destroys_itself_witness:
  "\<exists>w'. steal_main steal_example_env [''steal'', ''d/a'', ''d'']
      (steal_example_world\<lparr>wfiles := [''d/a'' \<mapsto> [1, 2, 3]]\<rparr>) = Inr (0, w') \<and>
    wfiles w' ''d/a'' = Some [] \<and> werr w' = []"
proof -
  let ?w = "steal_example_world\<lparr>wfiles := [''d/a'' \<mapsto> [1, 2, 3]]\<rparr>"
  have "env_ok steal_example_env" "is_dir steal_example_env ''d''"
    by (simp_all add: env_ok_def steal_example_env_def io_ok_def)
  from steal_destroys_itself [OF this, of "''d/a''" ?w "[1, 2, 3]" "''steal''"] show ?thesis
    by (simp add: destination_file_def basename_def PATH_MAX_def steal_example_world_def)
qed

end
