(* ===== verification/CopyFailures.thy ===== *)
theory CopyFailures
  imports CopyProps
begin

text \<open>
  \<^verbatim>\<open>steal/steal.c\<close> whatever the system refuses: files that do not exist or do not open, reads that fail and
  writes that fail or stop short, at any offset.
\<close>

section \<open>One file\<close>

text \<open>What was written is a beginning of the source, all of it when nothing was reported.\<close>

lemma copy_loop_any:
  assumes "stolen + length rest \<le> total_size" and "total_size < 2 ^ 63"
  shows "\<exists>e st' k es. copy_loop C total_size rest stolen st = Inr (e, st') \<and>
    written st' = written st @ take k rest \<and> cerr st' = cerr st @ es \<and>
    (es = [] \<longrightarrow> e = 0 \<and> written st' = written st @ rest)"
  using assms(1)
proof (induction rest arbitrary: stolen st rule: measure_induct_rule [of length])
  case (less rest)
  let ?buf = "take BUF_SIZE rest" and ?rest = "drop BUF_SIZE rest"
  let ?w = "write_res C stolen (length ?buf)" and ?n = "stolen + length ?buf"
  consider (ends) "read_err C stolen \<or> rest = []"
    | (short) "\<not> read_err C stolen" "rest \<noteq> []" "?w \<noteq> int (length ?buf)"
    | (full) "\<not> read_err C stolen" "rest \<noteq> []" "?w = int (length ?buf)"
    by blast
  then show ?case
  proof cases
    case ends
    then show ?thesis by (subst copy_loop.simps) (auto intro: exI [of _ "0::nat"])
  next
    case short
    then show ?thesis
      by (subst copy_loop.simps)
        (auto simp: Let_def take_take simp del: length_take intro!: exI [of _ "min (nat ?w) BUF_SIZE"])
  next
    case full
    have n: "0 < ?n" "?n \<le> total_size" "?n + length ?rest \<le> total_size" "length ?rest < length rest"
      using full(2) less.prems by (auto simp: BUF_SIZE_def)
    obtain p where "ftrunc (fmul_nat (fdiv (f_of_nat ?n) (f_of_nat total_size)) PROGRESS_WIDTH) = Some p"
        "p \<le> 512"
      using progress_cells [OF n(1,2) assms(2)] by blast
    from print_progress_cells [OF this] obtain s where s: "print_progress ?n total_size = Inr s" by blast
    let ?st1 = "st\<lparr>written := written st @ ?buf, cout := cout st @ s\<rparr>"
    have "copy_loop C total_size rest stolen st = copy_loop C total_size ?rest ?n ?st1"
      using full s by (subst copy_loop.simps) (simp add: Let_def del: length_take take_take)
    moreover obtain e st' k es where ih: "copy_loop C total_size ?rest ?n ?st1 = Inr (e, st')"
        "written st' = written ?st1 @ take k ?rest" "cerr st' = cerr ?st1 @ es"
        "es = [] \<longrightarrow> e = 0 \<and> written st' = written ?st1 @ ?rest"
      using less.IH [OF n(4,3), of ?st1] by blast
    moreover have "?buf @ take k ?rest = take (BUF_SIZE + k) rest" by (simp add: take_add)
    ultimately show ?thesis by (intro exI [of _ e] exI [of _ st'] exI [of _ "BUF_SIZE + k"] exI [of _ es]) simp
  qed
qed

lemma copy_files_any:
  assumes "length src < 2 ^ 63"
  shows "\<exists>e c k. copy_files C src (length src) = Inr (e, c) \<and> written c = take k src \<and>
    (cerr c = [] \<longrightarrow> e = 0 \<and> written c = src)"
  using copy_loop_any [of 0 src "length src" C "\<lparr>written = [], cout = [], cerr = []\<rparr>"] assms
  by (auto simp: copy_files_def)

text \<open>A file that may be copied, or one that does not exist.\<close>

definition source_ok :: "string \<Rightarrow> (string \<Rightarrow> string) \<Rightarrow> world \<Rightarrow> string \<Rightarrow> bool" where
  "source_ok folder dest w p \<longleftrightarrow> destination_file folder (basename p) = Inr (dest p) \<and>
     (case wfiles w p of None \<Rightarrow> True | Some c \<Rightarrow> length c < 2 ^ 63)"

text \<open>The destination is as before or holds a beginning of the source.\<close>

definition copied_from :: "world \<Rightarrow> world \<Rightarrow> string \<Rightarrow> string \<Rightarrow> bool" where
  "copied_from w w' p d \<longleftrightarrow> (\<exists>c k. wfiles w p = Some c \<and> wfiles w' d = Some (take k c))"

lemma steal_one_any:
  assumes "source_ok folder dest w p" and "p \<noteq> dest p"
  shows "\<exists>r. steal_one E folder i n p w = Inr r \<and>
    (case r of
       Inl w1 \<Rightarrow> wfiles w1 = wfiles w \<and> (\<exists>e. werr w1 = werr w @ [e])
     | Inr w1 \<Rightarrow> (\<forall>q. q \<noteq> dest p \<longrightarrow> wfiles w1 q = wfiles w q) \<and>
         (wfiles w1 (dest p) = wfiles w (dest p) \<or> copied_from w w1 p (dest p)) \<and>
         (\<exists>es. werr w1 = werr w @ es \<and>
            (es = [] \<longrightarrow> wfiles w1 (dest p) = wfiles w p \<or> wfiles w p = Some [])))"
proof (cases "wfiles w p")
  case None
  then show ?thesis by (simp add: steal_one_def wfail_def)
next
  case (Some c)
  have d: "destination_file folder (basename p) = Inr (dest p)" and l: "length c < 2 ^ 63"
    using assms(1) Some by (simp_all add: source_ok_def)
  show ?thesis
  proof (cases "can_read E p")
    case False
    then show ?thesis using Some by (simp add: steal_one_def wfail_def)
  next
    case True
    let ?opened = "can_write E (dest p)"
    let ?C = "if ?opened then io E i else (io E i)\<lparr>write_res := (\<lambda>_ _. -1)\<rparr>"
    obtain e cp k where c: "copy_files ?C c (length c) = Inr (e, cp)" "written cp = take k c"
        "cerr cp = [] \<longrightarrow> e = 0 \<and> written cp = c"
      using copy_files_any [OF l] by blast
    show ?thesis
    proof (cases ?opened)
      case True
      then show ?thesis using Some d c assms(2) \<open>can_read E p\<close>
        by (auto simp: steal_one_def copy_to_def Let_def wput_def wfail_def copied_from_def)
    next
      case False
      have "c = []" if "cerr cp = []"
      proof (rule ccontr)
        assume "c \<noteq> []"
        then have "cerr cp \<noteq> []"
          using c(1) False by (subst (asm) copy_files_def, subst (asm) copy_loop.simps) (auto simp: Let_def split: if_splits)
        then show False using that by simp
      qed
      then show ?thesis using Some d c False \<open>can_read E p\<close>
        by (auto simp: steal_one_def copy_to_def Let_def wput_def wfail_def)
    qed
  qed
qed

section \<open>All files\<close>

definition sources_kept :: "string \<Rightarrow> string list \<Rightarrow> (string \<Rightarrow> string) \<Rightarrow> world \<Rightarrow> bool" where
  "sources_kept folder paths dest w \<longleftrightarrow>
     (\<forall>p \<in> set paths. source_ok folder dest w p) \<and> set paths \<inter> dest ` set paths = {}"

lemma steal_loop_any:
  assumes "sources_kept folder paths dest w"
  shows "\<exists>c s w'. steal_loop E folder i n paths k w = Inr (c, s, w') \<and> (c = 0 \<or> c = 1) \<and>
    (\<forall>q. wfiles w' q = wfiles w q \<or> (\<exists>p \<in> set paths. q = dest p \<and> copied_from w w' p q)) \<and>
    (\<exists>es. werr w' = werr w @ es \<and> (es = [] \<longrightarrow> c = 0 \<and>
      (distinct (map dest paths) \<longrightarrow> (\<forall>p \<in> set paths. wfiles w' (dest p) = wfiles w p \<or> wfiles w p = Some []))))"
  using assms
proof (induction paths arbitrary: i k w)
  case Nil
  then show ?case by simp
next
  case (Cons p paths)
  have p: "source_ok folder dest w p" "p \<noteq> dest p" using Cons.prems by (auto simp: sources_kept_def)
  obtain r where r: "steal_one E folder i n p w = Inr r" and post: "case r of
       Inl w1 \<Rightarrow> wfiles w1 = wfiles w \<and> (\<exists>e. werr w1 = werr w @ [e])
     | Inr w1 \<Rightarrow> (\<forall>q. q \<noteq> dest p \<longrightarrow> wfiles w1 q = wfiles w q) \<and>
         (wfiles w1 (dest p) = wfiles w (dest p) \<or> copied_from w w1 p (dest p)) \<and>
         (\<exists>es. werr w1 = werr w @ es \<and>
            (es = [] \<longrightarrow> wfiles w1 (dest p) = wfiles w p \<or> wfiles w p = Some []))"
    using steal_one_any [OF p] by blast
  show ?case
  proof (cases r)
    case (Inl w1)
    then show ?thesis using r post by auto
  next
    case (Inr w1)
    have same: "wfiles w1 q = wfiles w q" if "q \<noteq> dest p" for q using post Inr that by simp
    have src: "wfiles w1 q = wfiles w q" if "q \<in> set paths" for q
      by (rule same) (use Cons.prems that in \<open>auto simp: sources_kept_def\<close>)
    have "sources_kept folder paths dest w1"
      using Cons.prems src by (auto simp: sources_kept_def source_ok_def)
    from Cons.IH [OF this] obtain c s w2 es where ih: "steal_loop E folder (i + 1) n paths (k + 1) w1 = Inr (c, s, w2)"
        "c = 0 \<or> c = 1"
        "\<forall>q. wfiles w2 q = wfiles w1 q \<or> (\<exists>p \<in> set paths. q = dest p \<and> copied_from w1 w2 p q)"
        "werr w2 = werr w1 @ es" "es = [] \<longrightarrow> c = 0 \<and>
          (distinct (map dest paths) \<longrightarrow> (\<forall>p \<in> set paths. wfiles w2 (dest p) = wfiles w1 p \<or> wfiles w1 p = Some []))"
      by blast
    have files: "wfiles w2 q = wfiles w q \<or> (\<exists>p' \<in> set (p # paths). q = dest p' \<and> copied_from w w2 p' q)" for q
    proof (cases "wfiles w2 q = wfiles w1 q")
      case True
      then show ?thesis using post Inr same [of q] by (cases "q = dest p") (auto simp: copied_from_def)
    next
      case False
      then show ?thesis using spec [OF ih(3), of q] src by (auto simp: copied_from_def)
    qed
    obtain es1 where es1: "werr w1 = werr w @ es1" "es1 = [] \<longrightarrow> wfiles w1 (dest p) = wfiles w p \<or> wfiles w p = Some []"
      using post Inr by auto
    have silent: "wfiles w2 (dest p') = wfiles w p' \<or> wfiles w p' = Some []"
      if "es1 @ es = []" "distinct (map dest (p # paths))" "p' \<in> set (p # paths)" for p'
    proof (cases "p' = p")
      case True
      have "wfiles w2 (dest p) = wfiles w1 (dest p)" using spec [OF ih(3), of "dest p"] that(2) by auto
      then show ?thesis using es1(2) that(1) True by simp
    next
      case False
      then show ?thesis using ih(5) that src by auto
    qed
    show ?thesis
      using r Inr ih(1,2,4,5) files es1(1) silent
      by (intro exI [of _ c] exI [of _ s] exI [of _ w2] conjI) auto
  qed
qed

text \<open>
  C28: Copying whatever happens: for sources that are no destinations, each missing or of a size within
  \<^verbatim>\<open>off_t\<close>, whatever fails to open, to be read or to be written, and wherever, \<^verbatim>\<open>steal\<close> returns; every file
  is as it was, but for destinations, which may hold a beginning of a source of that name; and when
  nothing has been reported it returns 0 and the copies, if their names are different, are
  exact, except that an empty source whose destination did not open is not reported.
\<close>

theorem steal_any_failure:
  assumes "sources_kept folder paths dest w" and "is_dir E folder" and "paths \<noteq> []"
  shows "\<exists>c w'. steal_main E (prog # paths @ [folder]) w = Inr (c, w') \<and> (c = 0 \<or> c = 1) \<and>
    (\<forall>q. wfiles w' q = wfiles w q \<or> (\<exists>p \<in> set paths. q = dest p \<and> copied_from w w' p q)) \<and>
    (werr w' = werr w \<longrightarrow> c = 0 \<and>
      (distinct (map dest paths) \<longrightarrow> (\<forall>p \<in> set paths. wfiles w' (dest p) = wfiles w p \<or> wfiles w p = Some [])))"
proof -
  obtain c s w' es where l: "steal_loop E folder 1 (length paths) paths 0 w = Inr (c, s, w')" "c = 0 \<or> c = 1"
      "\<forall>q. wfiles w' q = wfiles w q \<or> (\<exists>p \<in> set paths. q = dest p \<and> copied_from w w' p q)"
      "werr w' = werr w @ es" "es = [] \<longrightarrow> c = 0 \<and>
        (distinct (map dest paths) \<longrightarrow> (\<forall>p \<in> set paths. wfiles w' (dest p) = wfiles w p \<or> wfiles w p = Some []))"
    using steal_loop_any [OF assms(1), of E 1 "length paths" 0] by blast
  let ?w = "if c \<noteq> 0 then w' else wput (NL # ''Copied '' @ dec_nat s @ '' files to '' @ folder @ [NL]) w'"
  have "steal_main E (prog # paths @ [folder]) w = Inr (c, ?w)"
    using l(1,2) by (auto simp: steal_main_paths [OF assms(2,3)])
  moreover have "wfiles ?w = wfiles w'" "werr ?w = werr w'" by (simp_all add: wput_def)
  ultimately show ?thesis using l(2-5) by (intro exI [of _ c] exI [of _ ?w]) (auto simp: copied_from_def)
qed

text \<open>A disk that takes no bytes, a source that is missing.\<close>

theorem steal_any_failure_witness:
  "\<exists>c w'. steal_main steal_full_disk [''steal'', ''a'', ''none'', ''d''] steal_example_world = Inr (c, w') \<and>
    wfiles w' ''x/b'' = wfiles steal_example_world ''x/b'' \<and> (c = 0 \<or> c = 1)"
proof -
  let ?dest = "\<lambda>p. ''d/'' @ p"
  have k: "sources_kept ''d'' [''a'', ''none''] ?dest steal_example_world"
    by (simp add: sources_kept_def source_ok_def destination_file_def basename_def PATH_MAX_def steal_example_world_def)
  have d: "is_dir steal_full_disk ''d''" by (simp add: steal_full_disk_def)
  have n: "[''a'', ''none''] \<noteq> []" by simp
  show ?thesis
    using steal_any_failure [OF k d n, of "''steal''"]
  proof (elim exE conjE)
    fix c w'
    assume w: "steal_main steal_full_disk (''steal'' # [''a'', ''none''] @ [''d'']) steal_example_world = Inr (c, w')"
      "c = 0 \<or> c = 1"
      and q: "\<forall>q. wfiles w' q = wfiles steal_example_world q \<or>
        (\<exists>p \<in> set [''a'', ''none'']. q = ?dest p \<and> copied_from steal_example_world w' p q)"
    have "wfiles w' ''x/b'' = wfiles steal_example_world ''x/b''" using spec [OF q, of "''x/b''"] by simp
    then show ?thesis using w by (intro exI [of _ c] exI [of _ w']) simp
  qed
qed

end
