(* ===== verification/ThreadedSteal.thy ===== *)
theory ThreadedSteal
  imports FileCopy "HOL-Library.Multiset"
begin

text \<open>
  \<^verbatim>\<open>steal/threaded_steal.c\<close>: the job queue, its eight workers and their copies. The interleavings are a
  step relation: a step is one access of one thread to what the threads share (the mutex,
  \<^verbatim>\<open>job_index\<close>, the queue, a file, the terminal) with the local statements around it. So the blocks
  of different copies, and the pieces of their progress bars, interleave.
\<close>

section \<open>The queue\<close>

record copy_job =
  from_path :: string
  to_path :: string

definition MAX_JOBS :: nat where
  "MAX_JOBS = 1024"

definition NUM_THREADS :: nat where
  "NUM_THREADS = 8"

text \<open>The call of \<^verbatim>\<open>basename\<close> comes before the source is copied into the job.\<close>

definition make_job :: "string \<Rightarrow> string \<Rightarrow> copy_job" where
  "make_job folder src =
     \<lparr>from_path = take (PATH_MAX - 1) (basename_leaves src), to_path = take (PATH_MAX - 1) (folder @ ''/'' @ basename src)\<rparr>"

text \<open>The loop that fills \<^verbatim>\<open>job_queue\<close>: the slot \<^verbatim>\<open>job_count\<close> is not checked.\<close>

fun fill_queue :: "string \<Rightarrow> string list \<Rightarrow> copy_job list \<Rightarrow> copy_job list outcome" where
  "fill_queue folder [] queue = Inr queue"
| "fill_queue folder (src # srcs) queue =
     (if length queue < MAX_JOBS then fill_queue folder srcs (queue @ [make_job folder src])
      else Inl Out_Of_Bounds)"

section \<open>The progress bar\<close>

text \<open>
  One string per call of \<^verbatim>\<open>printf\<close>: other threads may print in between. A quotient that does not fit an
  \<^verbatim>\<open>int\<close> (division by a size of zero) has no conversion to it.
\<close>

definition progress_pieces :: "nat \<Rightarrow> nat \<Rightarrow> string list outcome" where
  "progress_pieces stolen total_size =
     (let percent = fdiv (f_of_nat stolen) (f_of_nat total_size)
      in case ftrunc (fmul_nat percent PROGRESS_WIDTH) of
           None \<Rightarrow> Inl Signed_Overflow
         | Some progress \<Rightarrow>
             if 2147483647 < progress then Inl Signed_Overflow
             else Inr ((CHR 0x0D # ''Copying ['') #
               map (\<lambda>i. if i < progress then ''#'' else ''-'') [0..<PROGRESS_WIDTH] @
               [''] '' @ pad_left 3 CHR '' '' (fmt_fixed 0 (fmul_nat percent 100)) @ ''%'']))"

section \<open>The workers\<close>

text \<open>
  The local variables of \<^verbatim>\<open>copy_files\<close> once its files are open. The offsets of both descriptors are
  \<^verbatim>\<open>stolen\<close>: a thread reads and writes the blocks of its file one after the other.
\<close>

record frame =
  job_of :: copy_job
  dest_open :: bool
  file_size :: nat
  stolen_of :: nat

text \<open>Where a worker is: the successive statements of its loop, those of \<^verbatim>\<open>copy_files\<close> included.\<close>

datatype pc =
    Lock | Check | Fetch | Increment copy_job | Unlock copy_job | Announce copy_job
  | Open_Source copy_job | Open_Dest copy_job bool | Fstat copy_job bool bool
  | Read frame | Write frame "u8 list" | Bar frame "string list" | Report copy_job int
  | Unlock_Exit | Finished

text \<open>\<open>copied\<close> is the list of jobs that have been dealt with; the program does not keep it.\<close>

record pool =
  job_index :: nat
  owner :: "nat option"
  pcs :: "pc list"
  copied :: "copy_job list"
  files_of :: world

definition file_bytes :: "world \<Rightarrow> string \<Rightarrow> u8 list" where
  "file_bytes w p = (case wfiles w p of None \<Rightarrow> [] | Some c \<Rightarrow> c)"

text \<open>\<^verbatim>\<open>write\<close> at an offset: bytes between the end of the file and the offset become zeros.\<close>

definition write_at :: "nat \<Rightarrow> u8 list \<Rightarrow> u8 list \<Rightarrow> u8 list" where
  "write_at off bs c =
     (if bs = [] then c
      else take off c @ replicate (off - length c) 0 @ bs @ drop (off + length bs) c)"

definition put_file :: "string \<Rightarrow> u8 list \<Rightarrow> world \<Rightarrow> world" where
  "put_file p c w = w\<lparr>wfiles := (wfiles w)(p \<mapsto> c)\<rparr>"

definition with_files :: "(world \<Rightarrow> world) \<Rightarrow> pool \<Rightarrow> pool" where
  "with_files f s = s\<lparr>files_of := f (files_of s)\<rparr>"

definition announcement :: "string \<Rightarrow> copy_job \<Rightarrow> string" where
  "announcement self j = ''Thread '' @ self @ '' copying '' @ from_path j @ '' -> '' @ to_path j @ [NL]"

text \<open>
  What \<^verbatim>\<open>write\<close> returns for the block and what it leaves in the file; a destination that was not
  opened has descriptor \<open>-1\<close>. The index \<open>i\<close> picks one of the outcomes the environment allows.
\<close>

definition block_written :: "steal_env \<Rightarrow> nat \<Rightarrow> frame \<Rightarrow> u8 list \<Rightarrow> int" where
  "block_written E i fr buffer =
     (if dest_open fr then write_res (io E i) (stolen_of fr) (length buffer) else -1)"

definition store_block :: "frame \<Rightarrow> int \<Rightarrow> u8 list \<Rightarrow> world \<Rightarrow> world" where
  "store_block fr b buffer w =
     (if dest_open fr
      then put_file (to_path (job_of fr))
             (write_at (stolen_of fr) (take (nat b) buffer) (file_bytes w (to_path (job_of fr)))) w
      else w)"

text \<open>
  One step of thread \<open>t\<close>: its place and the shared state before and after. \<open>names t\<close> is how
  \<^verbatim>\<open>pthread_self\<close> of thread \<open>t\<close> prints. A read takes at most \<^verbatim>\<open>BUF_SIZE\<close> bytes of what is in the file
  behind the offset at that moment. There is no step for a progress bar that is undefined.
\<close>

inductive worker_step ::
  "steal_env \<Rightarrow> (nat \<Rightarrow> string) \<Rightarrow> copy_job list \<Rightarrow> nat \<Rightarrow> pc \<Rightarrow> pool \<Rightarrow> pc \<Rightarrow> pool \<Rightarrow> bool"
  for E :: steal_env and names :: "nat \<Rightarrow> string" and queue :: "copy_job list" and t :: nat where
  lock: "owner s = None \<Longrightarrow> worker_step E names queue t Lock s Check (s\<lparr>owner := Some t\<rparr>)"
| no_job: "length queue \<le> job_index s \<Longrightarrow> worker_step E names queue t Check s Unlock_Exit s"
| a_job: "job_index s < length queue \<Longrightarrow> worker_step E names queue t Check s Fetch s"
| fetch: "job_index s < length queue \<Longrightarrow>
     worker_step E names queue t Fetch s (Increment (queue ! job_index s)) s"
| increment: "worker_step E names queue t (Increment j) s (Unlock j) (s\<lparr>job_index := job_index s + 1\<rparr>)"
| unlock: "worker_step E names queue t (Unlock j) s (Announce j) (s\<lparr>owner := None\<rparr>)"
| announce: "worker_step E names queue t (Announce j) s (Open_Source j)
     (with_files (wput (announcement (names t) j)) s)"
| open_source: "worker_step E names queue t (Open_Source j) s
     (Open_Dest j (wfiles (files_of s) (from_path j) \<noteq> None \<and> can_read E (from_path j))) s"
| open_dest: "worker_step E names queue t (Open_Dest j src_fd) s
     (Fstat j src_fd (can_write E (to_path j)))
     (if can_write E (to_path j) then with_files (put_file (to_path j) []) s else s)"
| fstat_fails: "worker_step E names queue t (Fstat j False dest_fd) s (Report j 1)
     (with_files (wfail ''Error fetching file details!'') s)"
| fstat: "worker_step E names queue t (Fstat j True dest_fd) s
     (Read \<lparr>job_of = j, dest_open = dest_fd,
        file_size = length (file_bytes (files_of s) (from_path j)), stolen_of = 0\<rparr>) s"
| read_fails: "read_err (io E i) (stolen_of fr) \<Longrightarrow>
     worker_step E names queue t (Read fr) s (Report (job_of fr) 0)
       (with_files (wfail ''Error reading source file'') s)"
| read_end: "\<not> read_err (io E i) (stolen_of fr) \<Longrightarrow>
     length (file_bytes (files_of s) (from_path (job_of fr))) \<le> stolen_of fr \<Longrightarrow>
     worker_step E names queue t (Read fr) s (Report (job_of fr) 0) s"
| read_block: "\<not> read_err (io E i) (stolen_of fr) \<Longrightarrow> 0 < k \<Longrightarrow> k \<le> BUF_SIZE \<Longrightarrow>
     stolen_of fr + k \<le> length (file_bytes (files_of s) (from_path (job_of fr))) \<Longrightarrow>
     worker_step E names queue t (Read fr) s
       (Write fr (take k (drop (stolen_of fr) (file_bytes (files_of s) (from_path (job_of fr)))))) s"
| write_fails: "block_written E i fr buffer = b \<Longrightarrow> b \<noteq> int (length buffer) \<Longrightarrow>
     worker_step E names queue t (Write fr buffer) s (Report (job_of fr) 1)
       (with_files (\<lambda>w. wfail ''Error copying from source'' (store_block fr b buffer w)) s)"
| write_block: "block_written E i fr buffer = int (length buffer) \<Longrightarrow>
     progress_pieces (stolen_of fr + length buffer) (file_size fr) = Inr pieces \<Longrightarrow>
     worker_step E names queue t (Write fr buffer) s
       (Bar (fr\<lparr>stolen_of := stolen_of fr + length buffer\<rparr>) pieces)
       (with_files (store_block fr (int (length buffer)) buffer) s)"
| bar: "worker_step E names queue t (Bar fr (p # pieces)) s (Bar fr pieces) (with_files (wput p) s)"
| bar_ends: "worker_step E names queue t (Bar fr []) s (Read fr) s"
| report: "worker_step E names queue t (Report j c) s Lock
     ((if c \<noteq> 0 then with_files (wfail (''Failed to copy '' @ from_path j @ '' -> '' @ to_path j)) s else s)
        \<lparr>copied := copied s @ [j]\<rparr>)"
| unlock_exit: "worker_step E names queue t Unlock_Exit s Finished (s\<lparr>owner := None\<rparr>)"

text \<open>A step of the pool is a step of one of its threads.\<close>

inductive pool_step :: "steal_env \<Rightarrow> (nat \<Rightarrow> string) \<Rightarrow> copy_job list \<Rightarrow> pool \<Rightarrow> pool \<Rightarrow> bool"
  for E :: steal_env and names :: "nat \<Rightarrow> string" and queue :: "copy_job list" where
  thread: "t < length (pcs s) \<Longrightarrow> worker_step E names queue t (pcs s ! t) s p s1 \<Longrightarrow>
     pool_step E names queue s (s1\<lparr>pcs := (pcs s)[t := p]\<rparr>)"

inductive_cases pool_stepE: "pool_step E names queue s s'"

text \<open>\<open>n\<close> workers have been created.\<close>

definition pool_init :: "nat \<Rightarrow> world \<Rightarrow> pool" where
  "pool_init n w = \<lparr>job_index = 0, owner = None, pcs = replicate n Lock, copied = [], files_of = w\<rparr>"

definition all_finished :: "pool \<Rightarrow> bool" where
  "all_finished s \<longleftrightarrow> list_all (\<lambda>p. p = Finished) (pcs s)"

inductive reachable :: "steal_env \<Rightarrow> (nat \<Rightarrow> string) \<Rightarrow> copy_job list \<Rightarrow> nat \<Rightarrow> world \<Rightarrow> pool \<Rightarrow> bool"
  for E :: steal_env and names :: "nat \<Rightarrow> string" and queue :: "copy_job list" and n :: nat and w :: world where
  start: "reachable E names queue n w (pool_init n w)"
| step: "reachable E names queue n w s \<Longrightarrow> pool_step E names queue s s' \<Longrightarrow> reachable E names queue n w s'"

text \<open>
  What \<^verbatim>\<open>main\<close> does around the workers: the relation gives the exit code and the state it ends in. When
  a call of \<^verbatim>\<open>pthread_create\<close> fails, it returns while the workers created so far are anywhere.
\<close>

definition threaded_setup :: "steal_env \<Rightarrow> string list \<Rightarrow> (string + copy_job list) outcome" where
  "threaded_setup E argv =
     (if argv = [] then Inl Null_Deref
      else if length argv < 3 then
        Inr (Inl (''Usage: '' @ hd argv @ '' <source1> <source2> ... <destination_dir>''))
      else if \<not> is_dir E (last argv) then
        Inr (Inl (''Couldn't fetch folder details(or not a folder): '' @ last argv))
      else and_then (fill_queue (last argv) (butlast (tl argv)) []) (\<lambda>queue.
        if queue = [] then Inr (Inl ''No files to copy!'') else Inr (Inr queue)))"

inductive threaded_main ::
  "steal_env \<Rightarrow> (nat \<Rightarrow> string) \<Rightarrow> string list \<Rightarrow> world \<Rightarrow> int \<Rightarrow> world \<Rightarrow> bool"
  for E :: steal_env and names :: "nat \<Rightarrow> string" where
  refused: "threaded_setup E argv = Inr (Inl msg) \<Longrightarrow> threaded_main E names argv w 1 (wfail msg w)"
| joined: "threaded_setup E argv = Inr (Inr queue) \<Longrightarrow> reachable E names queue NUM_THREADS w s \<Longrightarrow>
     all_finished s \<Longrightarrow>
     threaded_main E names argv w 0 (wput (''All files copied successfully.'' @ [NL]) (files_of s))"
| spawn_failed: "threaded_setup E argv = Inr (Inr queue) \<Longrightarrow> n < NUM_THREADS \<Longrightarrow> reachable E names queue n w s \<Longrightarrow>
     threaded_main E names argv w 1 (wfail ''Failed to spawn thread'' (files_of s))"

end
