(* ===== verification/ThreadedProps.thy ===== *)
theory ThreadedProps
  imports ThreadedSteal CopyProps
begin

text \<open>
  The workers of \<^verbatim>\<open>steal/threaded_steal.c\<close> under every interleaving of their steps: they exclude each
  other, deal with every job exactly once, never deadlock and finish.
\<close>

section \<open>The invariant of the queue\<close>

definition critical :: "pc \<Rightarrow> bool" where
  "critical p \<longleftrightarrow> (case p of Check \<Rightarrow> True | Fetch \<Rightarrow> True | Increment j \<Rightarrow> True | Unlock j \<Rightarrow> True
     | Unlock_Exit \<Rightarrow> True | _ \<Rightarrow> False)"

text \<open>The job a worker has taken and not yet dealt with.\<close>

fun held :: "pc \<Rightarrow> copy_job multiset" where
  "held (Unlock j) = {#j#}"
| "held (Announce j) = {#j#}"
| "held (Open_Source j) = {#j#}"
| "held (Open_Dest j b) = {#j#}"
| "held (Fstat j b d) = {#j#}"
| "held (Read fr) = {#job_of fr#}"
| "held (Write fr buffer) = {#job_of fr#}"
| "held (Bar fr ps) = {#job_of fr#}"
| "held (Report j c) = {#j#}"
| "held p = {#}"

lemma sum_list_update:
  fixes f :: "'a \<Rightarrow> 'b :: cancel_comm_monoid_add"
  shows "i < length xs \<Longrightarrow> sum_list (map f (xs[i := y])) + f (xs ! i) = sum_list (map f xs) + f y"
proof (induction xs arbitrary: i)
  case (Cons x xs)
  then show ?case by (cases i) (auto simp: ac_simps)
qed simp

text \<open>What a worker at \<open>p\<close> knows of the shared index.\<close>

fun pc_ok :: "copy_job list \<Rightarrow> nat \<Rightarrow> pc \<Rightarrow> bool" where
  "pc_ok queue i Fetch \<longleftrightarrow> i < length queue"
| "pc_ok queue i (Increment j) \<longleftrightarrow> i < length queue \<and> j = queue ! i"
| "pc_ok queue i Unlock_Exit \<longleftrightarrow> i = length queue"
| "pc_ok queue i Finished \<longleftrightarrow> i = length queue"
| "pc_ok queue i p \<longleftrightarrow> True"

definition pool_inv :: "copy_job list \<Rightarrow> nat \<Rightarrow> pool \<Rightarrow> bool" where
  "pool_inv queue n s \<longleftrightarrow>
     length (pcs s) = n \<and> job_index s \<le> length queue \<and>
     (\<forall>t < n. critical (pcs s ! t) \<longleftrightarrow> owner s = Some t) \<and> (\<forall>t. owner s = Some t \<longrightarrow> t < n) \<and>
     (\<forall>t < n. pc_ok queue (job_index s) (pcs s ! t)) \<and>
     mset (copied s) + sum_list (map held (pcs s)) = mset (take (job_index s) queue)"

lemma with_files_sel [simp]:
  "job_index (with_files f s) = job_index s" "owner (with_files f s) = owner s" "copied (with_files f s) = copied s"
  "files_of (with_files f s) = f (files_of s)" "pcs (with_files f s) = pcs s"
  by (simp_all add: with_files_def)

lemma pool_inv_init: "pool_inv queue n (pool_init n w)"
  by (induction n) (auto simp: pool_inv_def pool_init_def critical_def nth_Cons split: nat.splits)

lemma critical_simps [simp]:
  "critical Check" "critical Fetch" "critical (Increment j)" "critical (Unlock j)" "critical Unlock_Exit"
  "\<not> critical Lock" "\<not> critical (Announce j)" "\<not> critical (Open_Source j)" "\<not> critical (Open_Dest j b)"
  "\<not> critical (Fstat j b d)" "\<not> critical (Read fr)" "\<not> critical (Write fr buffer)" "\<not> critical (Bar fr ps)"
  "\<not> critical (Report j c)" "\<not> critical Finished"
  by (simp_all add: critical_def)

lemma pool_inv_at:
  assumes "pool_inv queue n s" and "t < length (pcs s)"
  shows "t < n" and "critical (pcs s ! t) \<longleftrightarrow> owner s = Some t" and "pc_ok queue (job_index s) (pcs s ! t)"
    and "job_index s \<le> length queue"
  using assms by (auto simp: pool_inv_def)

text \<open>What one step of a worker changes.\<close>

lemma worker_pcs: "worker_step E names queue t p s p' s' \<Longrightarrow> pcs s' = pcs s"
  by (induction rule: worker_step.induct) auto

lemma worker_owner:
  assumes "worker_step E names queue t p s p' s'" and "critical p \<longleftrightarrow> owner s = Some t"
  shows "critical p' \<longleftrightarrow> owner s' = Some t" and "u \<noteq> t \<Longrightarrow> owner s' = Some u \<longleftrightarrow> owner s = Some u"
  using assms by (induction rule: worker_step.induct) auto

lemma worker_ok:
  "worker_step E names queue t p s p' s' \<Longrightarrow> pc_ok queue (job_index s) p \<Longrightarrow> job_index s \<le> length queue \<Longrightarrow>
    pc_ok queue (job_index s') p' \<and> job_index s' \<le> length queue"
  by (induction rule: worker_step.induct) auto

text \<open>The jobs that have left the queue are held or dealt with.\<close>

lemma worker_held:
  "worker_step E names queue t p s p' s' \<Longrightarrow> pc_ok queue (job_index s) p \<Longrightarrow>
    mset (copied s') + held p' + mset (take (job_index s) queue) =
    mset (copied s) + held p + mset (take (job_index s') queue)"
  by (induction rule: worker_step.induct) (auto simp: take_Suc_conv_app_nth)

lemma worker_index:
  assumes "worker_step E names queue t p s p' s'"
  shows "job_index s' = job_index s \<or> (\<exists>j. p = Increment j)"
  using assms by (induction rule: worker_step.induct) auto

lemma pc_ok_free: "\<not> critical p \<Longrightarrow> p \<noteq> Finished \<Longrightarrow> pc_ok queue i p"
  by (cases p) simp_all

lemma pool_inv_step:
  assumes "pool_step E names queue s s'" and inv: "pool_inv queue n s"
  shows "pool_inv queue n s'"
proof -
  obtain t p s1 where t: "t < length (pcs s)" and w: "worker_step E names queue t (pcs s ! t) s p s1"
      and s': "s' = s1\<lparr>pcs := (pcs s)[t := p]\<rparr>"
    using assms(1) by (rule pool_stepE)
  note at = pool_inv_at [OF inv t]
  note own = worker_owner [OF w at(2)] and ok = worker_ok [OF w at(3,4)]
  have crit: "\<forall>u < n. critical (pcs s' ! u) \<longleftrightarrow> owner s' = Some u"
    using inv own t by (auto simp: s' nth_list_update pool_inv_def)
  have bound: "\<forall>u. owner s' = Some u \<longrightarrow> u < n"
    using inv own(2) at(1) unfolding s' pool_inv_def by (metis (no_types) ext_inject pool.ext_inject pool.surjective pool.update_convs(3))
  have others: "pc_ok queue (job_index s') (pcs s ! u)" if u: "u < n" "u \<noteq> t" for u
  proof (cases "job_index s' = job_index s")
    case True
    then show ?thesis using inv u by (simp add: pool_inv_def)
  next
    case False
    then obtain j where j: "pcs s ! t = Increment j" using worker_index [OF w] by (auto simp: s')
    then have "\<not> critical (pcs s ! u)" "pc_ok queue (job_index s) (pcs s ! u)"
      using inv u at(2) j by (auto simp: pool_inv_def)
    moreover have "job_index s < length queue" using at(3) j by simp
    ultimately show ?thesis by (cases "pcs s ! u") auto
  qed
  have "mset (copied s') + (sum_list (map held (pcs s')) + held (pcs s ! t)) + mset (take (job_index s) queue) =
      mset (copied s') + held p + mset (take (job_index s) queue) + sum_list (map held (pcs s))"
    using sum_list_update [OF t, of held p] by (simp add: s' ac_simps)
  also have "\<dots> = mset (copied s) + held (pcs s ! t) + mset (take (job_index s') queue) + sum_list (map held (pcs s))"
    using worker_held [OF w at(3)] by (simp add: s')
  also have "\<dots> = (mset (copied s) + sum_list (map held (pcs s))) + held (pcs s ! t) + mset (take (job_index s') queue)"
    by (simp add: ac_simps)
  also have "mset (copied s) + sum_list (map held (pcs s)) = mset (take (job_index s) queue)"
    using inv by (simp add: pool_inv_def)
  finally have "mset (copied s') + sum_list (map held (pcs s')) = mset (take (job_index s') queue)"
    by (simp add: ac_simps)
  then show ?thesis
    using inv t ok others crit bound unfolding pool_inv_def by (simp add: s' nth_list_update)
qed

lemma reachable_inv: "reachable E names queue n w s \<Longrightarrow> pool_inv queue n s"
  by (induction rule: reachable.induct) (auto intro: pool_inv_init pool_inv_step)

section \<open>Exclusion and exactly once\<close>

text \<open>
  C26: Mutual exclusion: in every reachable state of every interleaving, at most one worker is between
  taking and releasing the mutex, so the index and the queue are never accessed by two at once.
\<close>

theorem workers_exclude:
  assumes "reachable E names queue n w s" and "t < length (pcs s)" and "u < length (pcs s)"
    and "critical (pcs s ! t)" and "critical (pcs s ! u)"
  shows "t = u"
  using reachable_inv [OF assms(1)] assms(2-5) by (auto simp: pool_inv_def)

theorem workers_exclude_witness:
  "\<exists>s. reachable steal_example_env (\<lambda>_. ''0'') [] 2 steal_example_world s \<and> critical (pcs s ! 0) \<and>
    \<not> critical (pcs s ! 1)"
proof -
  let ?i = "pool_init 2 steal_example_world"
  let ?s = "(?i\<lparr>owner := Some 0\<rparr>)\<lparr>pcs := (pcs ?i)[0 := Check]\<rparr>"
  have l: "pcs ?i = [Lock, Lock]" by (simp add: pool_init_def numeral_2_eq_2)
  have "pool_step steal_example_env (\<lambda>_. ''0'') [] ?i ?s"
  proof (rule pool_step.thread)
    show "worker_step steal_example_env (\<lambda>_. ''0'') [] 0 (pcs ?i ! 0) ?i Check (?i\<lparr>owner := Some 0\<rparr>)"
      using worker_step.lock [of ?i] by (simp add: l del: One_nat_def) (simp add: pool_init_def)
  qed (simp add: l)
  then have r: "reachable steal_example_env (\<lambda>_. ''0'') [] 2 steal_example_world ?s"
    by (blast intro: reachable.intros)
  have "critical (pcs ?s ! 0)" by (simp add: l)
  moreover have "\<not> critical (pcs ?s ! 1)"
    using workers_exclude [OF r, of 0 1] calculation by (auto simp: l)
  ultimately show ?thesis using r by blast
qed

lemma finished_pool:
  assumes "pool_inv queue n s" and "0 < n" and "all_finished s"
  shows "mset (copied s) = mset queue"
proof -
  have l: "length (pcs s) = n" using assms(1) by (simp add: pool_inv_def)
  have f: "pcs s ! t = Finished" if "t < n" for t
    using assms(3) l that by (simp add: all_finished_def list_all_length)
  then have "pc_ok queue (job_index s) Finished"
    using assms(1,2) unfolding pool_inv_def by (metis (no_types))
  then have i: "job_index s = length queue" by simp
  have "pcs s = replicate n Finished" using l f by (intro nth_equalityI) simp_all
  moreover have "sum_list (replicate n ({#} :: copy_job multiset)) = {#}" by (induction n) simp_all
  ultimately have "sum_list (map held (pcs s)) = {#}" by simp
  then show ?thesis using assms(1) i by (simp add: pool_inv_def)
qed

text \<open>
  C24: Exactly once: when all workers have finished, under whatever interleaving, the copies they made
  are the jobs of the queue, each exactly as often as it is queued.
\<close>

theorem workers_copy_once:
  assumes "reachable E names queue NUM_THREADS w s" and "all_finished s"
  shows "mset (copied s) = mset queue"
  by (rule finished_pool [OF reachable_inv [OF assms(1)] _ assms(2)]) (simp add: NUM_THREADS_def)

section \<open>Where the copies are\<close>

text \<open>The sources fit \<^verbatim>\<open>off_t\<close> and none of them is a destination.\<close>

definition sources_apart :: "copy_job list \<Rightarrow> world \<Rightarrow> bool" where
  "sources_apart queue w \<longleftrightarrow>
     (\<forall>j \<in> set queue. length (file_bytes w (from_path j)) < 2 ^ 63) \<and>
     from_path ` set queue \<inter> to_path ` set queue = {}"

definition same_sources :: "copy_job list \<Rightarrow> world \<Rightarrow> world \<Rightarrow> bool" where
  "same_sources queue w v \<longleftrightarrow> (\<forall>j \<in> set queue. wfiles v (from_path j) = wfiles w (from_path j))"

fun frame_ok :: "world \<Rightarrow> pc \<Rightarrow> bool" where
  "frame_ok w (Read fr) \<longleftrightarrow> file_size fr = length (file_bytes w (from_path (job_of fr))) \<and> stolen_of fr \<le> file_size fr"
| "frame_ok w (Write fr buffer) \<longleftrightarrow> file_size fr = length (file_bytes w (from_path (job_of fr))) \<and>
     buffer = take (length buffer) (drop (stolen_of fr) (file_bytes w (from_path (job_of fr)))) \<and> buffer \<noteq> [] \<and>
     stolen_of fr + length buffer \<le> file_size fr"
| "frame_ok w (Bar fr ps) \<longleftrightarrow> file_size fr = length (file_bytes w (from_path (job_of fr))) \<and>
     stolen_of fr \<le> file_size fr \<and> length ps \<le> 32"
| "frame_ok w p \<longleftrightarrow> True"

definition frames_inv :: "copy_job list \<Rightarrow> world \<Rightarrow> pool \<Rightarrow> bool" where
  "frames_inv queue w s \<longleftrightarrow> list_all (frame_ok w) (pcs s) \<and> same_sources queue w (files_of s)"

lemma same_bytes: "same_sources queue w v \<Longrightarrow> j \<in> set queue \<Longrightarrow> file_bytes v (from_path j) = file_bytes w (from_path j)"
  by (simp add: same_sources_def file_bytes_def)

lemma put_file_sel [simp]: "wfiles (put_file p c w) = (wfiles w)(p \<mapsto> c)" "werr (put_file p c w) = werr w"
  by (simp_all add: put_file_def)

lemma wput_sel [simp]: "wfiles (wput x w) = wfiles w" "werr (wput x w) = werr w"
  by (simp_all add: wput_def)

lemma wfail_files [simp]: "wfiles (wfail x w) = wfiles w"
  by (simp add: wfail_def)

lemma length_pieces: "progress_pieces n m = Inr ps \<Longrightarrow> length ps = 32"
  by (auto simp: progress_pieces_def PROGRESS_WIDTH_def Let_def split: option.splits if_splits)

text \<open>The pieces are the bar the plain program prints.\<close>

lemma progress_pieces_bar: "map_sum id concat (progress_pieces n m) = print_progress n m"
proof -
  have "concat (map (\<lambda>i. if i < k then ''#'' else ''-'') is) = map (\<lambda>i. if i < k then CHR ''#'' else CHR ''-'') is"
    for k :: nat and "is" by (induction "is") simp_all
  then show ?thesis by (simp add: progress_pieces_def print_progress_def Let_def split: option.splits)
qed

lemma progress_pieces_defined:
  assumes "0 < n" and "n \<le> m" and "m < 2 ^ 63"
  shows "\<exists>ps. progress_pieces n m = Inr ps"
proof -
  obtain p where p: "ftrunc (fmul_nat (fdiv (f_of_nat n) (f_of_nat m)) PROGRESS_WIDTH) = Some p" "p \<le> 512"
    using progress_cells [OF assms] by blast
  then have "\<not> 2147483647 < p" by simp
  then show ?thesis using p(1) by (simp add: progress_pieces_def Let_def)
qed

text \<open>A step writes only the destination of the job the worker holds.\<close>

lemma worker_writes:
  "worker_step E names queue t p s p' s' \<Longrightarrow> wfiles (files_of s') q \<noteq> wfiles (files_of s) q \<Longrightarrow>
    \<exists>j. j \<in># held p \<and> q = to_path j"
  by (induction rule: worker_step.induct) (auto simp: store_block_def split: if_splits)

lemma worker_frame:
  assumes "worker_step E names queue t p s p' s'" and "frame_ok w p" and "set_mset (held p) \<subseteq> set queue"
    and "same_sources queue w (files_of s)"
  shows "frame_ok w p'"
  using assms by (induction rule: worker_step.induct) (auto simp: same_bytes length_pieces)

lemma worker_sources:
  assumes "worker_step E names queue t p s p' s'" and "set_mset (held p) \<subseteq> set queue"
    and "same_sources queue w (files_of s)" and "sources_apart queue w"
  shows "same_sources queue w (files_of s')"
  unfolding same_sources_def
proof
  fix j assume j: "j \<in> set queue"
  have "wfiles (files_of s') (from_path j) = wfiles (files_of s) (from_path j)"
  proof (rule ccontr)
    assume "\<not> ?thesis"
    from worker_writes [OF assms(1) this] obtain k where "k \<in> set queue" "from_path j = to_path k"
      using assms(2) by blast
    then show False using j assms(4) unfolding sources_apart_def by blast
  qed
  then show "wfiles (files_of s') (from_path j) = wfiles w (from_path j)"
    using j assms(3) by (simp add: same_sources_def)
qed

lemma held_sum: "p \<in> set ps \<Longrightarrow> j \<in># held p \<Longrightarrow> j \<in># sum_list (map held ps)"
  by (induction ps) auto

lemma held_queued:
  assumes "pool_inv queue n s" and "t < length (pcs s)"
  shows "set_mset (held (pcs s ! t)) \<subseteq> set queue"
proof
  fix j assume "j \<in># held (pcs s ! t)"
  then have "j \<in># sum_list (map held (pcs s))" by (rule held_sum [OF nth_mem [OF assms(2)]])
  then have "j \<in># mset (take (job_index s) queue)"
    using assms(1) unfolding pool_inv_def by (metis union_iff)
  then show "j \<in> set queue" by (auto dest: in_set_takeD)
qed

lemma frames_inv_init: "frames_inv queue w (pool_init n w)"
  by (simp add: frames_inv_def pool_init_def list_all_length same_sources_def)

lemma frames_inv_step:
  assumes "pool_step E names queue s s'" and "pool_inv queue n s" and "frames_inv queue w s"
    and "sources_apart queue w"
  shows "frames_inv queue w s'"
  using assms(1)
proof (rule pool_stepE)
  fix t p s1
  assume s': "s' = s1\<lparr>pcs := (pcs s)[t := p]\<rparr>" and t: "t < length (pcs s)"
    and w: "worker_step E names queue t (pcs s ! t) s p s1"
  note q = held_queued [OF assms(2) t]
  have "frame_ok w p" "same_sources queue w (files_of s1)"
    using worker_frame [OF w _ q] worker_sources [OF w q _ assms(4)] assms(3) t
    by (auto simp: frames_inv_def list_all_length)
  then show "frames_inv queue w s'"
    using assms(3) t by (auto simp: s' frames_inv_def list_all_length nth_list_update)
qed

lemma reachable_frames:
  assumes "reachable E names queue n w s" and "sources_apart queue w"
  shows "frames_inv queue w s"
  using assms(1)
  by (induction rule: reachable.induct)
    (auto intro: frames_inv_init frames_inv_step [OF _ reachable_inv _ assms(2)])

section \<open>Termination and progress\<close>

text \<open>Forty steps are more than a block of one byte takes, its progress bar included.\<close>

definition job_weight :: "world \<Rightarrow> copy_job \<Rightarrow> nat" where
  "job_weight w j = 40 * length (file_bytes w (from_path j))"

fun pc_rank :: "world \<Rightarrow> pc \<Rightarrow> nat" where
  "pc_rank w (Unlock j) = job_weight w j + 14"
| "pc_rank w (Announce j) = job_weight w j + 13"
| "pc_rank w (Open_Source j) = job_weight w j + 12"
| "pc_rank w (Open_Dest j b) = job_weight w j + 11"
| "pc_rank w (Fstat j b d) = job_weight w j + 10"
| "pc_rank w (Read fr) = 40 * (file_size fr - stolen_of fr) + 9"
| "pc_rank w (Write fr buffer) = 40 * (file_size fr - stolen_of fr) + 8"
| "pc_rank w (Bar fr ps) = 40 * (file_size fr - stolen_of fr) + 10 + length ps"
| "pc_rank w (Report j c) = 7"
| "pc_rank w Lock = 6"
| "pc_rank w Check = 5"
| "pc_rank w Fetch = 4"
| "pc_rank w (Increment j) = 3"
| "pc_rank w Unlock_Exit = 1"
| "pc_rank w Finished = 0"

definition queue_rank :: "copy_job list \<Rightarrow> world \<Rightarrow> nat \<Rightarrow> nat" where
  "queue_rank queue w i = sum_list (map (\<lambda>j. job_weight w j + 12) (drop i queue))"

definition pool_rank :: "copy_job list \<Rightarrow> world \<Rightarrow> pool \<Rightarrow> nat" where
  "pool_rank queue w s = sum_list (map (pc_rank w) (pcs s)) + queue_rank queue w (job_index s)"

lemma queue_rank_next:
  "i < length queue \<Longrightarrow> queue_rank queue w i = job_weight w (queue ! i) + 12 + queue_rank queue w (Suc i)"
  by (simp add: queue_rank_def Cons_nth_drop_Suc [symmetric])

lemma worker_rank:
  assumes "worker_step E names queue t p s p' s'" and "frame_ok w p" and "set_mset (held p) \<subseteq> set queue"
    and "same_sources queue w (files_of s)" and "pc_ok queue (job_index s) p"
  shows "pc_rank w p' + queue_rank queue w (job_index s') < pc_rank w p + queue_rank queue w (job_index s)"
  using assms
  by (induction rule: worker_step.induct)
    (auto simp: same_bytes length_pieces queue_rank_next job_weight_def Suc_le_eq [symmetric]
       simp flip: length_greater_0_conv)

lemma pool_rank_step:
  assumes "pool_step E names queue s s'" and "pool_inv queue n s" and "frames_inv queue w s"
  shows "pool_rank queue w s' < pool_rank queue w s"
  using assms(1)
proof (rule pool_stepE)
  fix t p s1
  assume s': "s' = s1\<lparr>pcs := (pcs s)[t := p]\<rparr>" and t: "t < length (pcs s)"
    and w: "worker_step E names queue t (pcs s ! t) s p s1"
  have "frame_ok w (pcs s ! t)" "same_sources queue w (files_of s)"
    using assms(3) t by (simp_all add: frames_inv_def list_all_length)
  from worker_rank [OF w this(1) held_queued [OF assms(2) t] this(2) pool_inv_at(3) [OF assms(2) t]]
  show ?thesis
    using sum_list_update [OF t, of "pc_rank w" p] by (simp add: s' pool_rank_def)
qed

lemma worker_progress:
  assumes "frame_ok w p" and "set_mset (held p) \<subseteq> set queue" and "same_sources queue w (files_of s)"
    and "sources_apart queue w" and "pc_ok queue (job_index s) p" and "p \<noteq> Finished"
    and "p = Lock \<Longrightarrow> owner s = None"
  shows "\<exists>p' s'. worker_step E names queue t p s p' s'"
proof (cases p)
  case Check
  then show ?thesis using worker_step.no_job worker_step.a_job by (metis not_le)
next
  case (Fstat j b d)
  then show ?thesis by (cases b) (auto intro: worker_step.fstat worker_step.fstat_fails)
next
  case (Read fr)
  show ?thesis
  proof (cases "read_err (io E 0) (stolen_of fr)")
    case True
    then show ?thesis unfolding Read by (blast intro: worker_step.read_fails)
  next
    case False
    then show ?thesis
      using worker_step.read_end [OF False] worker_step.read_block [OF False, of 1]
      unfolding Read by (metis BUF_SIZE_def Suc_eq_plus1 less_one not_less_eq_eq one_le_numeral)
  qed
next
  case (Write fr buffer)
  have q: "job_of fr \<in> set queue" using assms(2) Write by simp
  show ?thesis
  proof (cases "block_written E 0 fr buffer = int (length buffer)")
    case True
    have "0 < stolen_of fr + length buffer" "stolen_of fr + length buffer \<le> file_size fr" "file_size fr < 2 ^ 63"
      using assms(1,4) q Write by (auto simp: sources_apart_def)
    from progress_pieces_defined [OF this] show ?thesis
      using worker_step.write_block [OF True] unfolding Write by blast
  next
    case False
    then show ?thesis unfolding Write by (blast intro: worker_step.write_fails)
  qed
next
  case (Bar fr ps)
  then show ?thesis using worker_step.bar worker_step.bar_ends by (cases ps) blast+
qed (use assms(5-7) in \<open>auto intro: worker_step.intros\<close>)

lemma pool_progress:
  assumes inv: "pool_inv queue n s" and "frames_inv queue w s" and "sources_apart queue w" and "\<not> all_finished s"
  shows "\<exists>s'. pool_step E names queue s s'"
proof -
  have run: "\<exists>s'. pool_step E names queue s s'"
    if t: "t < length (pcs s)" and p: "pcs s ! t \<noteq> Finished" "pcs s ! t = Lock \<Longrightarrow> owner s = None" for t
  proof -
    have "frame_ok w (pcs s ! t)" "same_sources queue w (files_of s)"
      using assms(2) t by (simp_all add: frames_inv_def list_all_length)
    from worker_progress [OF this(1) held_queued [OF inv t] this(2) assms(3) pool_inv_at(3) [OF inv t] p]
    show ?thesis using pool_step.thread [OF t] by blast
  qed
  show ?thesis
  proof (cases "owner s")
    case None
    then show ?thesis using run assms(4) by (auto simp: all_finished_def list_all_length)
  next
    case (Some u)
    then have u: "u < length (pcs s)" "critical (pcs s ! u)"
      using inv by (auto simp: pool_inv_def)
    then show ?thesis by (intro run [OF u(1)]) auto
  qed
qed

text \<open>
  C25: No deadlock, no endless run: when the sources fit \<^verbatim>\<open>off_t\<close> and none is a destination, every
  step of every interleaving, whatever the system refuses and however it splits the reads, decreases a
  rank, so no execution goes on for ever; and a reachable state in which some worker has not finished
  has a next step, so no thread is stuck, at an undefined progress bar neither, and every execution
  comes to the state in which all have finished and \<^verbatim>\<open>pthread_join\<close> returns.
\<close>

theorem workers_finish:
  assumes "reachable E names queue n w s" and "sources_apart queue w"
  shows "(\<forall>s'. pool_step E names queue s s' \<longrightarrow> pool_rank queue w s' < pool_rank queue w s) \<and>
    (all_finished s \<or> (\<exists>s'. pool_step E names queue s s'))"
  using pool_rank_step [OF _ reachable_inv [OF assms(1)] reachable_frames [OF assms]]
    pool_progress [OF reachable_inv [OF assms(1)] reachable_frames [OF assms] assms(2)]
  by blast

lemma run_to_end:
  assumes "reachable E names queue n w s" and "sources_apart queue w"
  shows "\<exists>s'. reachable E names queue n w s' \<and> all_finished s'"
  using assms(1)
proof (induction s rule: measure_induct_rule [of "pool_rank queue w"])
  case (less s)
  note inv = reachable_inv [OF less.prems] and frames = reachable_frames [OF less.prems assms(2)]
  show ?case
  proof (cases "all_finished s")
    case False
    then obtain s' where s': "pool_step E names queue s s'"
      using pool_progress [OF inv frames assms(2)] by blast
    then show ?thesis
      using less.IH [OF pool_rank_step [OF s' inv frames]] less.prems by (blast intro: reachable.step)
  qed (use less.prems in blast)
qed

lemma example_sources:
  "sources_apart (map (make_job ''d'') [''a'', ''x/b'', ''a'']) steal_example_world"
  by (auto simp: sources_apart_def make_job_def basename_leaves_def basename_def PATH_MAX_def file_bytes_def steal_example_world_def)

theorem workers_finish_witness:
  "\<exists>s'. pool_step steal_example_env (\<lambda>_. ''0'') (map (make_job ''d'') [''a'', ''x/b'', ''a''])
      (pool_init 8 steal_example_world) s' \<and>
    pool_rank (map (make_job ''d'') [''a'', ''x/b'', ''a'']) steal_example_world s' <
    pool_rank (map (make_job ''d'') [''a'', ''x/b'', ''a'']) steal_example_world (pool_init 8 steal_example_world)"
proof -
  have "\<not> all_finished (pool_init 8 steal_example_world)"
    by (simp add: all_finished_def pool_init_def list_all_length exI [of _ 0])
  then show ?thesis using workers_finish [OF reachable.start example_sources] by blast
qed

theorem workers_copy_once_witness:
  "\<exists>s. reachable steal_example_env (\<lambda>_. ''0'') (map (make_job ''d'') [''a'', ''x/b'', ''a'']) NUM_THREADS
      steal_example_world s \<and> all_finished s \<and>
    mset (copied s) = mset (map (make_job ''d'') [''a'', ''x/b'', ''a''])"
proof -
  from run_to_end [OF reachable.start example_sources] obtain s where
    "reachable steal_example_env (\<lambda>_. ''0'') (map (make_job ''d'') [''a'', ''x/b'', ''a'']) NUM_THREADS
       steal_example_world s"
    "all_finished s" by blast
  then show ?thesis using workers_copy_once by blast
qed

end
