(* ===== verification/ThreadedFiles.thy ===== *)
theory ThreadedFiles
  imports ThreadedProps
begin

text \<open>
  What \<^verbatim>\<open>steal/threaded_steal.c\<close> leaves in the files, under every interleaving of the blocks of its
  copies: exact copies, when no destination is a source; and the race of a size when one is.
\<close>

section \<open>The queue\<close>

lemma fill_queue_cases:
  "length queue \<le> MAX_JOBS \<Longrightarrow> fill_queue folder srcs queue =
    (if length queue + length srcs \<le> MAX_JOBS then Inr (queue @ map (make_job folder) srcs)
     else Inl Out_Of_Bounds)"
  by (induction srcs arbitrary: queue) auto

text \<open>
  The queue: for a command line with a destination directory and at least one source, the jobs are
  the sources in order, each with its name in the directory, if there are at most 1024 of them; with
  more, the queue is written past its end.
\<close>

theorem threaded_setup_queue:
  assumes "is_dir E folder" and "srcs \<noteq> []"
  shows "threaded_setup E (prog # srcs @ [folder]) =
    (if length srcs \<le> 1024 then Inr (Inr (map (make_job folder) srcs)) else Inl Out_Of_Bounds)"
proof -
  have "\<not> length (prog # srcs @ [folder]) < 3" using assms(2) by (cases srcs) auto
  then show ?thesis
    using assms fill_queue_cases [of "[]" folder srcs]
    by (simp add: threaded_setup_def butlast_append MAX_JOBS_def)
qed

theorem threaded_setup_queue_witness:
  "threaded_setup steal_example_env (''ts'' # replicate 1025 ''a'' @ [''d'']) = Inl Out_Of_Bounds"
proof -
  have "is_dir steal_example_env ''d''" "replicate 1025 ''a'' \<noteq> []"
    by (simp_all add: steal_example_env_def)
  from threaded_setup_queue [OF this, of "''ts''"] show ?thesis by simp
qed

lemma threaded_setup_jobs:
  "is_dir E folder \<Longrightarrow> srcs \<noteq> [] \<Longrightarrow> length srcs \<le> 1024 \<Longrightarrow>
    threaded_setup E (prog # srcs @ [folder]) = Inr (Inr (map (make_job folder) srcs))"
  by (simp add: threaded_setup_queue)

section \<open>Blocks\<close>

lemma length_write_at: "bs \<noteq> [] \<Longrightarrow> length (write_at off bs c) = max (length c) (off + length bs)"
  by (auto simp: write_at_def)

lemma nth_write_at:
  assumes "bs \<noteq> []" and "i < length (write_at off bs c)"
  shows "write_at off bs c ! i =
    (if off \<le> i \<and> i < off + length bs then bs ! (i - off) else if i < length c then c ! i else 0)"
  using assms unfolding length_write_at [OF assms(1)] by (auto simp: write_at_def nth_append min_def)

section \<open>What is in a destination\<close>

text \<open>
  The jobs of the queue do not disturb each other: no destination is a source, and different jobs have
  different destinations. A source may be given twice.
\<close>

definition jobs_apart :: "copy_job list \<Rightarrow> world \<Rightarrow> bool" where
  "jobs_apart queue w \<longleftrightarrow>
     (\<forall>j \<in> set queue. \<exists>c. wfiles w (from_path j) = Some c \<and> length c < 2 ^ 63) \<and>
     from_path ` set queue \<inter> to_path ` set queue = {} \<and> inj_on to_path (set queue)"

lemma apart_sources: "jobs_apart queue w \<Longrightarrow> sources_apart queue w"
  by (fastforce simp: jobs_apart_def sources_apart_def file_bytes_def)

abbreviation src_of :: "world \<Rightarrow> copy_job \<Rightarrow> u8 list" where
  "src_of w j \<equiv> file_bytes w (from_path j)"

text \<open>A worker that has opened the destination of \<open>j\<close>; one that still has to store byte \<open>i\<close> of it.\<close>

fun opened :: "copy_job \<Rightarrow> pc \<Rightarrow> bool" where
  "opened j (Fstat k b d) \<longleftrightarrow> k = j"
| "opened j (Read fr) \<longleftrightarrow> job_of fr = j"
| "opened j (Write fr buffer) \<longleftrightarrow> job_of fr = j"
| "opened j (Bar fr ps) \<longleftrightarrow> job_of fr = j"
| "opened j (Report k c) \<longleftrightarrow> k = j"
| "opened j p \<longleftrightarrow> False"

fun behind :: "copy_job \<Rightarrow> nat \<Rightarrow> pc \<Rightarrow> bool" where
  "behind j i (Fstat k b d) \<longleftrightarrow> k = j"
| "behind j i (Read fr) \<longleftrightarrow> job_of fr = j \<and> stolen_of fr \<le> i"
| "behind j i (Write fr buffer) \<longleftrightarrow> job_of fr = j \<and> stolen_of fr \<le> i"
| "behind j i (Bar fr ps) \<longleftrightarrow> job_of fr = j \<and> stolen_of fr \<le> i"
| "behind j i p \<longleftrightarrow> False"

text \<open>Nothing was refused so far.\<close>

fun smooth :: "pc \<Rightarrow> bool" where
  "smooth (Open_Dest j b) \<longleftrightarrow> b"
| "smooth (Fstat j b d) \<longleftrightarrow> b \<and> d"
| "smooth (Read fr) \<longleftrightarrow> dest_open fr"
| "smooth (Write fr buffer) \<longleftrightarrow> dest_open fr"
| "smooth (Bar fr ps) \<longleftrightarrow> dest_open fr"
| "smooth (Report j c) \<longleftrightarrow> c = 0"
| "smooth p \<longleftrightarrow> True"

text \<open>
  The destination of a job that was started is no longer than the source, and holds the right byte
  wherever no worker has to store it.
\<close>

definition dest_ok :: "world \<Rightarrow> pool \<Rightarrow> copy_job \<Rightarrow> bool" where
  "dest_ok w s j \<longleftrightarrow> j \<in> set (copied s) \<or> (\<exists>p \<in> set (pcs s). opened j p) \<longrightarrow>
     (\<exists>c. wfiles (files_of s) (to_path j) = Some c \<and> length c \<le> length (src_of w j) \<and>
       (\<forall>i < length (src_of w j). (\<forall>p \<in> set (pcs s). \<not> behind j i p) \<longrightarrow> i < length c \<and> c ! i = src_of w j ! i))"

definition files_inv :: "copy_job list \<Rightarrow> world \<Rightarrow> pool \<Rightarrow> bool" where
  "files_inv queue w s \<longleftrightarrow>
     (\<forall>p. p \<notin> to_path ` set queue \<longrightarrow> wfiles (files_of s) p = wfiles w p) \<and>
     werr (files_of s) = werr w \<and> list_all smooth (pcs s) \<and> (\<forall>j \<in> set queue. dest_ok w s j)"

section \<open>One step of a worker\<close>

lemma smooth_written: "env_ok E \<Longrightarrow> dest_open fr \<Longrightarrow> block_written E i fr buffer = int (length buffer)"
  by (simp add: env_ok_def io_ok_def block_written_def)

lemma worker_smooth:
  assumes "worker_step E names queue t p s p' s'" and "env_ok E" and "smooth p"
    and "set_mset (held p) \<subseteq> set queue" and "same_sources queue w (files_of s)" and "jobs_apart queue w"
  shows "smooth p' \<and> werr (files_of s') = werr (files_of s)"
  using assms
  by (induction rule: worker_step.induct)
    (auto simp: env_ok_def io_ok_def smooth_written store_block_def same_sources_def jobs_apart_def)

lemma worker_effect:
  assumes "worker_step E names queue t p s p' s'" and "env_ok E" and "smooth p"
  shows "wfiles (files_of s') = (case p of
      Open_Dest j b \<Rightarrow> (wfiles (files_of s))(to_path j \<mapsto> [])
    | Write fr buffer \<Rightarrow> (wfiles (files_of s))(to_path (job_of fr) \<mapsto>
        write_at (stolen_of fr) buffer (file_bytes (files_of s) (to_path (job_of fr))))
    | _ \<Rightarrow> wfiles (files_of s))"
  using assms
  by (induction rule: worker_step.induct)
    (auto simp: env_ok_def smooth_written [unfolded env_ok_def] store_block_def split: pc.splits)

lemma worker_started:
  assumes "worker_step E names queue t p s p' s'" and "j \<in> set (copied s') \<or> opened j p'"
  shows "j \<in> set (copied s) \<or> opened j p \<or> (\<exists>b. p = Open_Dest j b)"
  using assms by (induction rule: worker_step.induct) (auto split: if_splits)

lemma worker_behind:
  assumes "worker_step E names queue t p s p' s'" and "env_ok E" and "frame_ok w p"
    and "same_sources queue w (files_of s)" and "j \<in> set queue" and "i < length (src_of w j)" and "smooth p"
    and "behind j i p" and "\<not> behind j i p'"
  shows "\<exists>fr buffer. p = Write fr buffer \<and> job_of fr = j \<and> stolen_of fr \<le> i \<and> i < stolen_of fr + length buffer"
  using assms
  by (induction rule: worker_step.induct) (auto simp: env_ok_def io_ok_def same_bytes smooth_written [unfolded env_ok_def io_ok_def])

text \<open>When one thread moves, a byte no thread has to store afterwards was awaited by that thread only.\<close>

lemma behind_before:
  assumes "t < length ps" and "\<forall>q \<in> set (ps[t := p]). \<not> behind j i q" and "\<not> behind j i (ps ! t)"
  shows "\<forall>q \<in> set ps. \<not> behind j i q"
proof
  fix q assume "q \<in> set ps"
  then obtain u where "u < length ps" "ps ! u = q" by (metis in_set_conv_nth)
  then show "\<not> behind j i q"
    using assms by (cases "u = t") (metis, metis length_list_update nth_list_update_neq nth_mem)
qed

lemma dest_bytes:
  "dest_ok w s j \<longleftrightarrow> (j \<in> set (copied s) \<or> (\<exists>p \<in> set (pcs s). opened j p) \<longrightarrow>
    (\<exists>c. wfiles (files_of s) (to_path j) = Some c \<and> length c \<le> length (src_of w j) \<and>
      (\<forall>i. i < length (src_of w j) \<and> (\<forall>p \<in> set (pcs s). \<not> behind j i p) \<longrightarrow>
        i < length c \<and> c ! i = src_of w j ! i)))"
  unfolding dest_ok_def by (simp only: imp_conjL)

text \<open>A block of \<open>j\<close> is stored.\<close>

lemma block_stored:
  assumes "buffer = take (length buffer) (drop off src)" and "buffer \<noteq> []" and "off + length buffer \<le> length src"
    and "i < length src" and "\<not> (off \<le> i \<and> i < off + length buffer) \<Longrightarrow> i < length c \<and> c ! i = src ! i"
  shows "i < length (write_at off buffer c) \<and> write_at off buffer c ! i = src ! i"
proof (cases "off \<le> i \<and> i < off + length buffer")
  case True
  then have i: "i - off < length buffer" "off + (i - off) = i" by linarith+
  have "buffer ! (i - off) = take (length buffer) (drop off src) ! (i - off)" by (rule arg_cong [OF assms(1)])
  also have "\<dots> = drop off src ! (i - off)" using i(1) by (rule nth_take)
  also have "\<dots> = src ! i" using i(2) assms(3) by (subst nth_drop) simp_all
  finally show ?thesis using True assms(2) by (simp add: nth_write_at length_write_at less_max_iff_disj)
next
  case False
  then show ?thesis using assms(2,5) by (auto simp: nth_write_at length_write_at less_max_iff_disj)
qed

lemma dest_ok_other:
  assumes w: "worker_step E names queue t (pcs s ! t) s p s1" and t: "t < length (pcs s)" and "env_ok E"
    and "frame_ok w (pcs s ! t)" and "same_sources queue w (files_of s)" and "smooth (pcs s ! t)"
    and j: "j \<in> set queue" and c: "wfiles (files_of s) (to_path j) = Some c" "length c \<le> length (src_of w j)"
      "\<forall>i. i < length (src_of w j) \<and> (\<forall>q \<in> set (pcs s). \<not> behind j i q) \<longrightarrow> i < length c \<and> c ! i = src_of w j ! i"
    and dest: "wfiles (files_of s1) (to_path j) = (case pcs s ! t of
      Write fr buffer \<Rightarrow> if job_of fr = j then Some (write_at (stolen_of fr) buffer c) else Some c
    | _ \<Rightarrow> Some c)"
  shows "\<exists>c. wfiles (files_of s1) (to_path j) = Some c \<and> length c \<le> length (src_of w j) \<and>
    (\<forall>i. i < length (src_of w j) \<and> (\<forall>q \<in> set ((pcs s)[t := p]). \<not> behind j i q) \<longrightarrow>
      i < length c \<and> c ! i = src_of w j ! i)"
proof -
  have before: "i < length c \<and> c ! i = src_of w j ! i"
    if i: "i < length (src_of w j)" "\<forall>q \<in> set ((pcs s)[t := p]). \<not> behind j i q"
      and no: "\<nexists>fr buffer. pcs s ! t = Write fr buffer \<and> job_of fr = j \<and> stolen_of fr \<le> i \<and>
        i < stolen_of fr + length buffer" for i
  proof -
    have "\<not> behind j i p" using i(2) t by (simp add: set_update_memI)
    then have "\<not> behind j i (pcs s ! t)"
      using worker_behind [OF w assms(3-5) j i(1) assms(6)] no by blast
    from behind_before [OF t i(2) this] show ?thesis using c(3) i(1) by blast
  qed
  show ?thesis
  proof (cases "\<exists>fr buffer. pcs s ! t = Write fr buffer \<and> job_of fr = j")
    case True
    then obtain fr buffer where p: "pcs s ! t = Write fr buffer" "job_of fr = j" by blast
    then have b: "buffer = take (length buffer) (drop (stolen_of fr) (src_of w j))" "buffer \<noteq> []"
        "stolen_of fr + length buffer \<le> length (src_of w j)"
      using assms(4) by simp_all
    have "i < length (write_at (stolen_of fr) buffer c) \<and> write_at (stolen_of fr) buffer c ! i = src_of w j ! i"
      if "i < length (src_of w j)" "\<forall>q \<in> set ((pcs s)[t := p]). \<not> behind j i q" for i
      using before [OF that] p by (intro block_stored [OF b that(1)]) auto
    moreover have "length (write_at (stolen_of fr) buffer c) \<le> length (src_of w j)"
      using b(2,3) c(2) by (simp add: length_write_at)
    ultimately show ?thesis using dest p by simp
  next
    case False
    then have "wfiles (files_of s1) (to_path j) = Some c" using dest by (cases "pcs s ! t") auto
    then show ?thesis using before False c(2) by blast
  qed
qed

lemma dest_ok_step:
  assumes w: "worker_step E names queue t (pcs s ! t) s p s1" and t: "t < length (pcs s)" and "env_ok E"
    and "frame_ok w (pcs s ! t)" and "same_sources queue w (files_of s)" and "smooth (pcs s ! t)"
    and "set_mset (held (pcs s ! t)) \<subseteq> set queue" and "jobs_apart queue w" and j: "j \<in> set queue"
    and ok: "dest_ok w s j"
  shows "dest_ok w (s1\<lparr>pcs := (pcs s)[t := p]\<rparr>) j"
proof (cases "\<exists>b. pcs s ! t = Open_Dest j b")
  case True
  then have "behind j i p" for i using w by (auto elim: worker_step.cases)
  then have "\<not> (\<forall>q \<in> set ((pcs s)[t := p]). \<not> behind j i q)" for i using t set_update_memI by fast
  then show ?thesis using True worker_effect [OF w assms(3,6)] by (auto simp: dest_bytes)
next
  case False
  have inj: "k = j" if "k \<in> set queue" "to_path j = to_path k" for k
    using that j assms(8) by (auto simp: jobs_apart_def inj_on_def)
  have old: "q = p \<or> q \<in> set (pcs s)" if "q \<in> set ((pcs s)[t := p])" for q
    using that set_update_subset_insert by fastforce
  have mem: "pcs s ! t \<in> set (pcs s)" using t by simp
  show ?thesis unfolding dest_bytes
  proof
    assume "j \<in> set (copied (s1\<lparr>pcs := (pcs s)[t := p]\<rparr>)) \<or>
      (\<exists>q \<in> set (pcs (s1\<lparr>pcs := (pcs s)[t := p]\<rparr>)). opened j q)"
    then have "j \<in> set (copied s) \<or> (\<exists>q \<in> set (pcs s). opened j q)"
      using worker_started [OF w, of j] False old mem by (metis pool.select_convs(3,4) pool.surjective pool.update_convs(3))
    then obtain c where c: "wfiles (files_of s) (to_path j) = Some c" "length c \<le> length (src_of w j)"
        "\<forall>i. i < length (src_of w j) \<and> (\<forall>q \<in> set (pcs s). \<not> behind j i q) \<longrightarrow> i < length c \<and> c ! i = src_of w j ! i"
      using ok unfolding dest_bytes by blast
    have "wfiles (files_of s1) (to_path j) = (case pcs s ! t of
        Write fr buffer \<Rightarrow> if job_of fr = j then Some (write_at (stolen_of fr) buffer c) else Some c
      | _ \<Rightarrow> Some c)"
      using worker_effect [OF w assms(3,6)] c(1) False assms(7) inj
      by (cases "pcs s ! t") (auto simp: file_bytes_def)
    from dest_ok_other [OF w t assms(3-6) j c this]
    show "\<exists>c. wfiles (files_of (s1\<lparr>pcs := (pcs s)[t := p]\<rparr>)) (to_path j) = Some c \<and>
        length c \<le> length (src_of w j) \<and>
        (\<forall>i. i < length (src_of w j) \<and> (\<forall>q \<in> set (pcs (s1\<lparr>pcs := (pcs s)[t := p]\<rparr>)). \<not> behind j i q) \<longrightarrow>
          i < length c \<and> c ! i = src_of w j ! i)"
      by simp
  qed
qed

lemma files_inv_step:
  assumes "pool_step E names queue s s'" and "pool_inv queue n s" and "frames_inv queue w s"
    and "env_ok E" and "jobs_apart queue w" and "files_inv queue w s"
  shows "files_inv queue w s'"
  using assms(1)
proof (rule pool_stepE)
  fix t p s1
  assume s': "s' = s1\<lparr>pcs := (pcs s)[t := p]\<rparr>" and t: "t < length (pcs s)"
    and w: "worker_step E names queue t (pcs s ! t) s p s1"
  note q = held_queued [OF assms(2) t]
  have at: "frame_ok w (pcs s ! t)" "same_sources queue w (files_of s)" "smooth (pcs s ! t)"
    using assms(3,6) t by (simp_all add: frames_inv_def files_inv_def list_all_length)
  note sm = worker_smooth [OF w assms(4) at(3) q at(2) assms(5)]
  have "wfiles (files_of s1) f = wfiles (files_of s) f" if "f \<notin> to_path ` set queue" for f
    using worker_writes [OF w, of f] q that by blast
  moreover have "list_all smooth (pcs s')"
    using assms(6) sm t by (auto simp: s' files_inv_def list_all_length nth_list_update)
  moreover have "dest_ok w s' j" if "j \<in> set queue" for j
    using dest_ok_step [OF w t assms(4) at q assms(5) that] assms(6) that by (simp add: s' files_inv_def)
  ultimately show ?thesis using sm assms(6) by (simp add: s' files_inv_def)
qed

lemma reachable_files:
  assumes "reachable E names queue n w s" and "env_ok E" and "jobs_apart queue w"
  shows "files_inv queue w s"
  using assms(1)
proof (induction rule: reachable.induct)
  case start
  then show ?case by (simp add: files_inv_def pool_init_def dest_ok_def list_all_length)
next
  case (step s s')
  then show ?case
    using files_inv_step [OF _ reachable_inv reachable_frames [OF _ apart_sources [OF assms(3)]] assms(2,3)]
    by blast
qed

lemma finished_copies:
  assumes "files_inv queue w s" and "pool_inv queue NUM_THREADS s" and "all_finished s" and "jobs_apart queue w"
    and "j \<in> set queue"
  shows "wfiles (files_of s) (to_path j) = wfiles w (from_path j)"
proof -
  have "0 < NUM_THREADS" by (simp add: NUM_THREADS_def)
  from finished_pool [OF assms(2) this assms(3)] have "j \<in> set (copied s)"
    using assms(5) by (metis set_mset_mset)
  moreover have "\<not> behind j i p" if "p \<in> set (pcs s)" for i p
    using that assms(3) by (auto simp: all_finished_def list_all_iff)
  ultimately obtain c where c: "wfiles (files_of s) (to_path j) = Some c" "length c \<le> length (src_of w j)"
      "\<forall>i < length (src_of w j). i < length c \<and> c ! i = src_of w j ! i"
    using assms(1,5) unfolding files_inv_def dest_ok_def by blast
  then have "length (src_of w j) \<le> length c" by (metis le_refl leI less_irrefl)
  then have "c = src_of w j" using c by (intro nth_equalityI) auto
  then show ?thesis using c(1) assms(4,5) by (auto simp: jobs_apart_def file_bytes_def)
qed

lemma threaded_exact:
  assumes "env_ok E" and "is_dir E folder" and "srcs \<noteq> []" and "length srcs \<le> 1024"
    and "jobs_apart (map (make_job folder) srcs) w"
  shows "(\<exists>w'. threaded_main E names (prog # srcs @ [folder]) w 0 w') \<and>
    (\<forall>w'. threaded_main E names (prog # srcs @ [folder]) w 0 w' \<longrightarrow>
      (\<forall>j \<in> set (map (make_job folder) srcs). wfiles w' (to_path j) = wfiles w (from_path j)) \<and>
      (\<forall>p. p \<notin> to_path ` set (map (make_job folder) srcs) \<longrightarrow> wfiles w' p = wfiles w p) \<and>
      werr w' = werr w)"
proof -
  let ?q = "map (make_job folder) srcs"
  have queued: "threaded_setup E (prog # srcs @ [folder]) = Inr (Inr ?q)" by (rule threaded_setup_jobs [OF assms(2-4)])
  have ex: "\<exists>w'. threaded_main E names (prog # srcs @ [folder]) w 0 w'"
    using run_to_end [OF reachable.start apart_sources [OF assms(5)], of E names NUM_THREADS]
      threaded_main.joined [OF queued] by blast
  have "(\<forall>j \<in> set ?q. wfiles w' (to_path j) = wfiles w (from_path j)) \<and>
      (\<forall>p. p \<notin> to_path ` set ?q \<longrightarrow> wfiles w' p = wfiles w p) \<and> werr w' = werr w"
    if main: "threaded_main E names (prog # srcs @ [folder]) w 0 w'" for w'
    using main
  proof (cases rule: threaded_main.cases)
    case (joined queue s)
    then have q: "queue = ?q" using queued by simp
    have r: "reachable E names ?q NUM_THREADS w s" using joined q by simp
    note f = reachable_files [OF r assms(1,5)]
    have "wfiles (files_of s) (to_path j) = wfiles w (from_path j)" if "j \<in> set ?q" for j
      using finished_copies [OF f reachable_inv [OF r] _ assms(5) that] joined by blast
    then show ?thesis using f joined by (simp add: files_inv_def)
  qed simp_all
  then show ?thesis using ex by blast
qed

text \<open>
  C21: The threaded copier: for at most 1024 sources that are readable files within \<^verbatim>\<open>off_t\<close>, whose
  destinations are no sources and differ for different sources, when the system refuses nothing, some
  execution returns 0, and after every execution that does, however the blocks of the copies
  interleave, each destination holds the bytes of its source, no other file has changed and nothing
  was reported. A source may be given several times, and be copied by several threads at once. (The path of
  a source is the one in its job, without slashes at its end.)
\<close>

theorem threaded_main_copies:
  assumes "env_ok E" and "is_dir E folder" and "srcs \<noteq> []" and "length srcs \<le> 1024"
    and "jobs_apart (map (make_job folder) srcs) w"
  shows "(\<exists>w'. threaded_main E names (prog # srcs @ [folder]) w 0 w') \<and>
    (\<forall>w'. threaded_main E names (prog # srcs @ [folder]) w 0 w' \<longrightarrow>
      (\<forall>j \<in> set (map (make_job folder) srcs). wfiles w' (to_path j) = wfiles w (from_path j)) \<and>
      (\<forall>p. p \<notin> to_path ` set (map (make_job folder) srcs) \<longrightarrow> wfiles w' p = wfiles w p) \<and>
      werr w' = werr w)"
  by (rule threaded_exact [OF assms])

theorem threaded_main_copies_witness:
  "\<exists>w'. threaded_main steal_example_env (\<lambda>_. ''0'') [''ts'', ''a'', ''x/b'', ''a'', ''d''] steal_example_world 0 w' \<and>
    wfiles w' ''d/a'' = Some [1, 2, 3] \<and> wfiles w' ''d/b'' = Some [4]"
proof -
  let ?srcs = "[''a'', ''x/b'', ''a'']"
  let ?q = "map (make_job ''d'') ?srcs"
  have q: "?q = [\<lparr>from_path = ''a'', to_path = ''d/a''\<rparr>, \<lparr>from_path = ''x/b'', to_path = ''d/b''\<rparr>,
      \<lparr>from_path = ''a'', to_path = ''d/a''\<rparr>]"
    by (simp add: make_job_def basename_leaves_def basename_def PATH_MAX_def)
  have "env_ok steal_example_env" "is_dir steal_example_env ''d''"
    by (simp_all add: env_ok_def steal_example_env_def io_ok_def)
  moreover have "jobs_apart ?q steal_example_world"
    unfolding q by (auto simp: jobs_apart_def steal_example_world_def)
  ultimately have "(\<exists>w'. threaded_main steal_example_env (\<lambda>_. ''0'') (''ts'' # ?srcs @ [''d''])
        steal_example_world 0 w') \<and>
      (\<forall>w'. threaded_main steal_example_env (\<lambda>_. ''0'') (''ts'' # ?srcs @ [''d'']) steal_example_world 0 w' \<longrightarrow>
        (\<forall>j \<in> set ?q. wfiles w' (to_path j) = wfiles steal_example_world (from_path j)) \<and>
        (\<forall>p. p \<notin> to_path ` set ?q \<longrightarrow> wfiles w' p = wfiles steal_example_world p) \<and>
        werr w' = werr steal_example_world)"
    by (intro threaded_main_copies) simp_all
  then show ?thesis unfolding q by (auto simp: steal_example_world_def)
qed

end
