(* ===== verification/ThreadedFailures.thy ===== *)
theory ThreadedFailures
  imports ThreadedFiles
begin

text \<open>
  \<^verbatim>\<open>steal/threaded_steal.c\<close> whatever the system refuses, under every interleaving: files that do not exist
  or do not open, reads and writes that fail or stop short, threads that are not created.
\<close>

section \<open>A job has one worker\<close>

definition jobs_single :: "copy_job list \<Rightarrow> world \<Rightarrow> bool" where
  "jobs_single queue w \<longleftrightarrow> sources_apart queue w \<and> distinct (map to_path queue)"

lemma held_somewhere: "j \<in># sum_list (map held ps) \<Longrightarrow> \<exists>p \<in> set ps. j \<in># held p"
  by (induction ps) auto

lemma held_alone:
  assumes "pool_inv queue n s" and "distinct queue" and "t < length (pcs s)" and "j \<in># held (pcs s ! t)"
  shows "j \<notin> set (copied s)" and "j \<notin> set (drop (job_index s) queue)"
    and "u < length (pcs s) \<Longrightarrow> u \<noteq> t \<Longrightarrow> j \<notin># held (pcs s ! u)"
proof -
  let ?rest = "sum_list (map held ((pcs s)[t := Finished]))"
  have all: "mset (copied s) + (?rest + held (pcs s ! t)) = mset (take (job_index s) queue)"
    using assms(1) sum_list_update [OF assms(3), of held Finished] by (simp add: pool_inv_def)
  have one: "count (mset (take (job_index s) queue)) j \<le> 1"
    using distinct_take [OF assms(2), of "job_index s"] by (simp add: distinct_count_atmost_1)
  have "0 < count (held (pcs s ! t)) j" using assms(4) by simp
  then have "count (mset (copied s)) j = 0" "count ?rest j = 0"
    using one unfolding all [symmetric] count_union by linarith+
  then have none: "j \<notin># mset (copied s)" "j \<notin># ?rest" by (simp_all only: count_eq_zero_iff not_False_eq_True)
  then show "j \<notin> set (copied s)" by simp
  have "j \<in> set (take (job_index s) queue)" using assms(4) all by (metis set_mset_mset union_iff)
  then show "j \<notin> set (drop (job_index s) queue)"
    using set_take_disj_set_drop_if_distinct [OF assms(2) order_refl] by blast
  show "j \<notin># held (pcs s ! u)" if "u < length (pcs s)" "u \<noteq> t"
  proof
    assume "j \<in># held (pcs s ! u)"
    moreover have "pcs s ! u \<in> set ((pcs s)[t := Finished])"
      using that by (metis length_list_update nth_list_update_neq nth_mem)
    ultimately show False using held_sum none(2) by blast
  qed
qed

section \<open>What a worker knows of its destination\<close>

text \<open>A job that has been dealt with; a worker before, between and after its blocks.\<close>

definition settled :: "world \<Rightarrow> world \<Rightarrow> copy_job \<Rightarrow> bool" where
  "settled w v j \<longleftrightarrow>
     (wfiles v (to_path j) = wfiles w (to_path j) \<or> (\<exists>k. wfiles v (to_path j) = Some (take k (src_of w j)))) \<and>
     (werr v = werr w \<longrightarrow> wfiles v (to_path j) = wfiles w (from_path j) \<or> wfiles w (from_path j) = Some [])"

definition frame_dest :: "world \<Rightarrow> world \<Rightarrow> frame \<Rightarrow> bool" where
  "frame_dest w v fr \<longleftrightarrow> wfiles w (from_path (job_of fr)) \<noteq> None \<and> (\<not> dest_open fr \<longrightarrow> stolen_of fr = 0) \<and>
     wfiles v (to_path (job_of fr)) =
       (if dest_open fr then Some (take (stolen_of fr) (src_of w (job_of fr))) else wfiles w (to_path (job_of fr)))"

fun dest_at :: "world \<Rightarrow> world \<Rightarrow> pc \<Rightarrow> bool" where
  "dest_at w v (Open_Dest j b) \<longleftrightarrow> wfiles v (to_path j) = wfiles w (to_path j) \<and> (b \<longrightarrow> wfiles w (from_path j) \<noteq> None)"
| "dest_at w v (Fstat j b d) \<longleftrightarrow> wfiles v (to_path j) = (if d then Some [] else wfiles w (to_path j)) \<and>
     (b \<longrightarrow> wfiles w (from_path j) \<noteq> None)"
| "dest_at w v (Read fr) \<longleftrightarrow> frame_dest w v fr"
| "dest_at w v (Write fr buffer) \<longleftrightarrow> frame_dest w v fr"
| "dest_at w v (Bar fr ps) \<longleftrightarrow> frame_dest w v fr"
| "dest_at w v (Report j c) \<longleftrightarrow> settled w v j"
| "dest_at w v p \<longleftrightarrow> (\<forall>j. j \<in># held p \<longrightarrow> wfiles v (to_path j) = wfiles w (to_path j))"

text \<open>Nobody else can disturb it.\<close>

lemma settled_frame:
  "settled w v j \<Longrightarrow> wfiles v' (to_path j) = wfiles v (to_path j) \<Longrightarrow> (werr v' = werr w \<Longrightarrow> werr v = werr w) \<Longrightarrow>
    settled w v' j"
  by (auto simp: settled_def)

lemma dest_at_frame:
  "dest_at w v p \<Longrightarrow> (\<And>j. j \<in># held p \<Longrightarrow> wfiles v' (to_path j) = wfiles v (to_path j)) \<Longrightarrow>
    (werr v' = werr w \<Longrightarrow> werr v = werr w) \<Longrightarrow> dest_at w v' p"
  by (cases p) (auto simp: frame_dest_def intro: settled_frame)

lemma dest_at_any:
  "dest_at w v p \<Longrightarrow> j \<in># held p \<Longrightarrow>
    wfiles v (to_path j) = wfiles w (to_path j) \<or> (\<exists>k. wfiles v (to_path j) = Some (take k (src_of w j)))"
  by (cases p) (auto simp: frame_dest_def settled_def split: if_splits intro: exI [of _ 0])

section \<open>One step\<close>

lemma write_at_prefix:
  "off \<le> length src \<Longrightarrow> write_at off (take m (drop off src)) (take off src) = take (off + m) src"
  by (cases "m = 0 \<or> length src \<le> off") (auto simp: write_at_def take_add)

lemma store_block_prefix:
  assumes "frame_ok w (Write fr buffer)" and "frame_dest w v fr"
  shows "\<exists>k. wfiles (store_block fr b buffer v) (to_path (job_of fr)) =
      (if dest_open fr then Some (take (stolen_of fr + k) (src_of w (job_of fr))) else wfiles w (to_path (job_of fr))) \<and>
    (b = int (length buffer) \<longrightarrow> k = length buffer)"
proof -
  let ?src = "src_of w (job_of fr)" and ?k = "min (nat b) (length buffer)"
  have "buffer = take (length buffer) (drop (stolen_of fr) ?src)" using assms(1) by simp
  then have "take (nat b) buffer = take ?k (drop (stolen_of fr) ?src)" by (metis take_take)
  moreover have "stolen_of fr \<le> length ?src" using assms(1) by simp
  ultimately show ?thesis
    using assms(2) by (intro exI [of _ ?k]) (simp add: store_block_def frame_dest_def file_bytes_def write_at_prefix)
qed

lemma worker_errors:
  "worker_step E names queue t p s p' s' \<Longrightarrow> \<exists>es. werr (files_of s') = werr (files_of s) @ es"
  by (induction rule: worker_step.induct) (auto simp: wfail_def store_block_def)

text \<open>What the steps around the blocks leave for \<open>Report\<close>.\<close>

lemma read_settled:
  assumes "frame_dest w v fr" and "frame_ok w (Read fr)" and "src_of v (job_of fr) = src_of w (job_of fr)"
    and "length (src_of v (job_of fr)) \<le> stolen_of fr"
  shows "settled w v (job_of fr)"
  using assms by (auto simp: frame_dest_def settled_def file_bytes_def split: if_splits option.splits
      intro: exI [of _ "stolen_of fr"])

lemma failed_settled:
  assumes "wfiles v (to_path j) = wfiles w (to_path j) \<or> (\<exists>k. wfiles v (to_path j) = Some (take k (src_of w j)))"
    and "werr v = werr w @ es"
  shows "settled w (wfail x v) j"
  using assms by (auto simp: settled_def wfail_def)

lemma worker_dest:
  assumes "worker_step E names queue t p s p' s'" and "dest_at w (files_of s) p" and "frame_ok w p"
    and "set_mset (held p) \<subseteq> set queue" and "same_sources queue w (files_of s)"
    and "werr (files_of s) = werr w @ es"
    and "\<And>j. p = Increment j \<Longrightarrow> wfiles (files_of s) (to_path j) = wfiles w (to_path j)"
  shows "dest_at w (files_of s') p' \<and>
    (copied s' = copied s \<or> (\<exists>j. j \<in># held p \<and> copied s' = copied s @ [j] \<and> settled w (files_of s') j))"
  using assms
proof (induction rule: worker_step.induct)
  case (open_source s j)
  then show ?case by (auto simp: same_sources_def)
next
  case (read_fails i fr s)
  then have "\<exists>k. wfiles (files_of s) (to_path (job_of fr)) = wfiles w (to_path (job_of fr)) \<or>
      wfiles (files_of s) (to_path (job_of fr)) = Some (take k (src_of w (job_of fr)))"
    by (auto simp: frame_dest_def split: if_splits)
  then show ?case using read_fails failed_settled by auto
next
  case (read_end i fr s)
  then have "src_of (files_of s) (job_of fr) = src_of w (job_of fr)" by (intro same_bytes) auto
  then show ?case using read_end read_settled by auto
next
  case (write_fails i fr buffer b s)
  obtain k where k: "wfiles (store_block fr b buffer (files_of s)) (to_path (job_of fr)) =
      (if dest_open fr then Some (take (stolen_of fr + k) (src_of w (job_of fr))) else wfiles w (to_path (job_of fr)))"
    using store_block_prefix [of w fr buffer "files_of s" b] write_fails by auto
  moreover have "werr (store_block fr b buffer (files_of s)) = werr w @ es"
    using write_fails by (simp add: store_block_def)
  ultimately have "settled w (wfail ''Error copying from source'' (store_block fr b buffer (files_of s))) (job_of fr)"
    by (intro failed_settled) (auto split: if_splits)
  then show ?case by simp
next
  case (write_block i fr buffer pieces s)
  have "dest_open fr" using write_block(1) by (auto simp: block_written_def split: if_splits)
  then show ?case
    using store_block_prefix [of w fr buffer "files_of s" "int (length buffer)"] write_block
    by (auto simp: frame_dest_def)
next
  case (report j c s)
  have "settled w (files_of s) j" using report(1) by simp
  then have "settled w (wfail x (files_of s)) j" for x
    by (intro failed_settled [OF _ report(5)]) (auto simp: settled_def)
  then show ?case using report(1) by auto
next
  case (fstat_fails j dest_fd s)
  then show ?case using failed_settled [of "files_of s" j w es] by (auto split: if_splits)
qed (auto simp: frame_dest_def split: if_splits)

section \<open>All workers\<close>

definition any_inv :: "copy_job list \<Rightarrow> world \<Rightarrow> pool \<Rightarrow> bool" where
  "any_inv queue w s \<longleftrightarrow>
     (\<forall>p. p \<notin> to_path ` set queue \<longrightarrow> wfiles (files_of s) p = wfiles w p) \<and>
     (\<exists>es. werr (files_of s) = werr w @ es) \<and> list_all (dest_at w (files_of s)) (pcs s) \<and>
     (\<forall>j \<in> set (copied s). settled w (files_of s) j) \<and>
     (\<forall>j \<in> set (drop (job_index s) queue). wfiles (files_of s) (to_path j) = wfiles w (to_path j))"

lemma any_inv_init: "any_inv queue w (pool_init n w)"
  by (auto simp: any_inv_def pool_init_def list_all_length)

lemma worker_drop:
  "worker_step E names queue t p s p' s' \<Longrightarrow> set (drop (job_index s') queue) \<subseteq> set (drop (job_index s) queue)"
  by (induction rule: worker_step.induct) (auto simp: set_drop_subset_set_drop)

lemma any_inv_step:
  assumes "pool_step E names queue s s'" and "pool_inv queue n s" and "frames_inv queue w s"
    and "jobs_single queue w" and "any_inv queue w s"
  shows "any_inv queue w s'"
  using assms(1)
proof (rule pool_stepE)
  fix t p s1
  assume s': "s' = s1\<lparr>pcs := (pcs s)[t := p]\<rparr>" and t: "t < length (pcs s)"
    and step: "worker_step E names queue t (pcs s ! t) s p s1"
  have d: "distinct queue" and inj: "inj_on to_path (set queue)"
    using assms(4) by (auto simp: jobs_single_def distinct_map)
  note q = held_queued [OF assms(2)]
  note alone = held_alone [OF assms(2) d t]
  obtain es where es: "werr (files_of s) = werr w @ es" using assms(5) by (auto simp: any_inv_def)
  obtain es1 where es1: "werr (files_of s1) = werr (files_of s) @ es1" using worker_errors [OF step] by blast
  have quiet: "werr (files_of s1) = werr w \<Longrightarrow> werr (files_of s) = werr w" using es es1 by simp
  have same: "wfiles (files_of s1) (to_path j) = wfiles (files_of s) (to_path j)"
    if "j \<in> set queue" "j \<notin># held (pcs s ! t)" for j
    using worker_writes [OF step, of "to_path j"] q [OF t] that inj by (metis inj_on_def subsetD)
  have inc: "wfiles (files_of s) (to_path j) = wfiles w (to_path j)" if "pcs s ! t = Increment j" for j
  proof -
    have "job_index s < length queue" "j = queue ! job_index s"
      using assms(2) t that by (auto simp: pool_inv_def)
    then have "j \<in> set (drop (job_index s) queue)" by (metis Cons_nth_drop_Suc list.set_intros(1))
    then show ?thesis using assms(5) by (simp add: any_inv_def)
  qed
  have at: "frame_ok w (pcs s ! t)" "same_sources queue w (files_of s)" "dest_at w (files_of s) (pcs s ! t)"
    using assms(3,5) t by (simp_all add: frames_inv_def any_inv_def list_all_length)
  note own = worker_dest [OF step at(3,1) q [OF t] at(2) es inc]
  have "wfiles (files_of s1) f = wfiles (files_of s) f" if "f \<notin> to_path ` set queue" for f
    using worker_writes [OF step, of f] q [OF t] that by blast
  moreover have "dest_at w (files_of s1) ((pcs s)[t := p] ! u)" if u: "u < length (pcs s)" for u
  proof (cases "u = t")
    case False
    have "dest_at w (files_of s) (pcs s ! u)" using assms(5) u by (simp add: any_inv_def list_all_length)
    then have "dest_at w (files_of s1) (pcs s ! u)"
      by (rule dest_at_frame) (use same alone(3) u False q [OF u] quiet in blast)+
    then show ?thesis using False by simp
  qed (use own t in simp)
  moreover have "settled w (files_of s1) j" if j: "j \<in> set (copied s1)" for j
  proof (cases "j \<in> set (copied s)")
    case True
    have "j \<in># mset (take (job_index s) queue)"
      using True assms(2) by (metis pool_inv_def set_mset_mset union_iff)
    then have "j \<in> set queue" by (auto dest: in_set_takeD)
    moreover have "settled w (files_of s) j" using True assms(5) by (simp add: any_inv_def)
    ultimately show ?thesis using settled_frame same alone(1) True quiet by blast
  qed (use own j in auto)
  moreover have "wfiles (files_of s1) (to_path j) = wfiles w (to_path j)"
    if j: "j \<in> set (drop (job_index s1) queue)" for j
  proof -
    have "j \<in> set (drop (job_index s) queue)" using worker_drop [OF step] j by blast
    then show ?thesis using same [of j] alone(2) assms(5) by (auto simp: any_inv_def dest: in_set_dropD)
  qed
  ultimately show ?thesis using assms(5) es1 by (auto simp: s' any_inv_def list_all_length)
qed

lemma reachable_any:
  assumes "reachable E names queue n w s" and "jobs_single queue w"
  shows "any_inv queue w s"
proof -
  have sa: "sources_apart queue w" using assms(2) by (simp add: jobs_single_def)
  from assms(1) show ?thesis
    by (induction rule: reachable.induct)
      (blast intro: any_inv_init any_inv_step [OF _ reachable_inv reachable_frames [OF _ sa] assms(2)])+
qed

lemma any_destination:
  assumes "any_inv queue w s" and "pool_inv queue n s" and "j \<in> set queue"
  shows "wfiles (files_of s) (to_path j) = wfiles w (to_path j) \<or>
    (\<exists>k. wfiles (files_of s) (to_path j) = Some (take k (src_of w j)))"
proof -
  consider "j \<in> set (drop (job_index s) queue)" | "j \<in> set (take (job_index s) queue)"
    using assms(3) by (metis append_take_drop_id in_set_conv_decomp set_append Un_iff)
  then show ?thesis
  proof cases
    case 1
    then show ?thesis using assms(1) by (simp add: any_inv_def)
  next
    case 2
    then have "j \<in> set (copied s) \<or> j \<in># sum_list (map held (pcs s))"
      using assms(2) unfolding pool_inv_def by (metis set_mset_mset union_iff)
    then show ?thesis
    proof
      assume "j \<in> set (copied s)"
      then show ?thesis using assms(1) by (simp add: any_inv_def settled_def)
    next
      assume "j \<in># sum_list (map held (pcs s))"
      then obtain p where p: "p \<in> set (pcs s)" "j \<in># held p" using held_somewhere by blast
      then have "dest_at w (files_of s) p" using assms(1) by (simp add: any_inv_def list_all_iff)
      from dest_at_any [OF this p(2)] show ?thesis .
    qed
  qed
qed

section \<open>The program\<close>

text \<open>
  C23: The threaded copier whatever happens: for at most 1024 sources with different destinations, none of
  them a source, which may be missing, unreadable or not open, and for reads and writes that fail or
  stop short at any block, some execution returns 0; and after every execution, however the threads
  interleave and even when creating one of them fails, only destinations have changed, each is as it
  was or holds a beginning of its source, and if nothing has been reported the program has returned 0
  and the copies are exact, but for empty sources.
\<close>

theorem threaded_any_failure:
  assumes "is_dir E folder" and "srcs \<noteq> []" and "length srcs \<le> 1024" and "jobs_single (map (make_job folder) srcs) w"
  shows "(\<exists>w'. threaded_main E names (prog # srcs @ [folder]) w 0 w') \<and>
    (\<forall>c w'. threaded_main E names (prog # srcs @ [folder]) w c w' \<longrightarrow> (c = 0 \<or> c = 1) \<and>
      (\<forall>p. p \<notin> to_path ` set (map (make_job folder) srcs) \<longrightarrow> wfiles w' p = wfiles w p) \<and>
      (\<forall>j \<in> set (map (make_job folder) srcs). wfiles w' (to_path j) = wfiles w (to_path j) \<or>
        (\<exists>k. wfiles w' (to_path j) = Some (take k (file_bytes w (from_path j))))) \<and>
      (werr w' = werr w \<longrightarrow> c = 0 \<and> (\<forall>j \<in> set (map (make_job folder) srcs).
        wfiles w' (to_path j) = wfiles w (from_path j) \<or> wfiles w (from_path j) = Some [])))"
    (is "?ex \<and> (\<forall>c w'. _ \<longrightarrow> ?post c w')")
proof -
  let ?q = "map (make_job folder) srcs"
  have queued: "threaded_setup E (prog # srcs @ [folder]) = Inr (Inr ?q)"
    using threaded_setup_jobs [OF assms(1-3)] .
  have sa: "sources_apart ?q w" using assms(4) by (simp add: jobs_single_def)
  have ?ex using run_to_end [OF reachable.start sa, of E names NUM_THREADS] threaded_main.joined [OF queued] by blast
  moreover have "?post c w'" if "threaded_main E names (prog # srcs @ [folder]) w c w'" for c w'
    using that
  proof cases
    case (joined queue s)
    then have r: "reachable E names ?q NUM_THREADS w s" using queued by simp
    note any = reachable_any [OF r assms(4)] and inv = reachable_inv [OF r]
    have "0 < NUM_THREADS" by (simp add: NUM_THREADS_def)
    from finished_pool [OF inv this] have "set (copied s) = set ?q" using joined by (metis set_mset_mset)
    then have "settled w (files_of s) j" if "j \<in> set ?q" for j
    using any that by (auto simp: any_inv_def)
    then show ?thesis using joined any by (simp add: any_inv_def settled_def)
  next
    case (spawn_failed queue n s)
    then have r: "reachable E names ?q n w s" using queued by simp
    note any = reachable_any [OF r assms(4)]
    obtain es where es: "werr (files_of s) = werr w @ es" using any by (auto simp: any_inv_def)
    show ?thesis
      using spawn_failed any es any_destination [OF any reachable_inv [OF r]] by (simp add: any_inv_def wfail_def)
  qed (use queued in simp)
  ultimately show ?thesis by blast
qed

text \<open>A disk that takes no bytes and a source that is missing.\<close>

theorem threaded_any_failure_witness:
  "\<exists>w'. threaded_main steal_full_disk (\<lambda>_. ''0'') [''ts'', ''a'', ''none'', ''d''] steal_example_world 0 w' \<and>
    wfiles w' ''x/b'' = Some [4]"
proof -
  let ?srcs = "[''a'', ''none'']"
  let ?q = "map (make_job ''d'') ?srcs"
  have q: "?q = [\<lparr>from_path = ''a'', to_path = ''d/a''\<rparr>, \<lparr>from_path = ''none'', to_path = ''d/none''\<rparr>]"
    by (simp add: make_job_def basename_leaves_def basename_def PATH_MAX_def)
  have j: "jobs_single ?q steal_example_world"
    unfolding q by (simp add: jobs_single_def sources_apart_def file_bytes_def steal_example_world_def)
  have d: "is_dir steal_full_disk ''d''" by (simp add: steal_full_disk_def)
  have s: "?srcs \<noteq> []" "length ?srcs \<le> 1024" by simp_all
  show ?thesis
    using threaded_any_failure [OF d s j, of "\<lambda>_. ''0''" "''ts''"]
  proof (elim exE conjE)
    fix w'
    assume main: "threaded_main steal_full_disk (\<lambda>_. ''0'') (''ts'' # ?srcs @ [''d'']) steal_example_world 0 w'"
      and all: "\<forall>c w'. threaded_main steal_full_disk (\<lambda>_. ''0'') (''ts'' # ?srcs @ [''d'']) steal_example_world c w' \<longrightarrow>
        (c = 0 \<or> c = 1) \<and> (\<forall>p. p \<notin> to_path ` set ?q \<longrightarrow> wfiles w' p = wfiles steal_example_world p) \<and>
        (\<forall>j \<in> set ?q. wfiles w' (to_path j) = wfiles steal_example_world (to_path j) \<or>
          (\<exists>k. wfiles w' (to_path j) = Some (take k (file_bytes steal_example_world (from_path j))))) \<and>
        (werr w' = werr steal_example_world \<longrightarrow> c = 0 \<and> (\<forall>j \<in> set ?q.
          wfiles w' (to_path j) = wfiles steal_example_world (from_path j) \<or> wfiles steal_example_world (from_path j) = Some []))"
    have "wfiles w' ''x/b'' = wfiles steal_example_world ''x/b''"
      using mp [OF spec [OF spec [OF all, of 0], of w'] main] unfolding q by simp
    then show ?thesis using main by (intro exI [of _ w']) (simp add: steal_example_world_def)
  qed
qed

end
