(* ===== verification/CopyAgreement.thy ===== *)
theory CopyAgreement
  imports ThreadedFiles
begin

text \<open>
  The two copiers of \<^verbatim>\<open>steal/\<close> side by side: \<^verbatim>\<open>threaded_steal.c\<close> leaves the files that \<^verbatim>\<open>steal.c\<close> leaves.
\<close>

text \<open>
  A command line on which they build the same paths and whose jobs do not touch each other. The sources
  are files, so their paths do not end in a slash (\<^verbatim>\<open>threaded_steal.c\<close> would strip it before opening them).
\<close>

definition common_jobs :: "string \<Rightarrow> string list \<Rightarrow> world \<Rightarrow> bool" where
  "common_jobs folder srcs w \<longleftrightarrow> folder \<noteq> [] \<and> last folder \<noteq> CHR ''/'' \<and> srcs \<noteq> [] \<and> length srcs \<le> MAX_JOBS \<and>
     (\<forall>p \<in> set srcs. length p < PATH_MAX \<and> last p \<noteq> CHR ''/'' \<and> (\<exists>c. wfiles w p = Some c \<and> length c < 2 ^ 63)) \<and>
     distinct (map (\<lambda>p. to_path (make_job folder p)) srcs) \<and>
     set srcs \<inter> (\<lambda>p. to_path (make_job folder p)) ` set srcs = {}"

lemma same_destination:
  "folder \<noteq> [] \<Longrightarrow> last folder \<noteq> CHR ''/'' \<Longrightarrow> destination_file folder (basename p) = Inr (to_path (make_job folder p))"
  by (simp add: destination_file_def make_job_def)

lemma whole_source: "length p < PATH_MAX \<Longrightarrow> last p \<noteq> CHR ''/'' \<Longrightarrow> from_path (make_job folder p) = p"
  by (simp add: make_job_def basename_leaves_id)

lemma common_sources_ok: "common_jobs folder srcs w \<Longrightarrow> sources_ok folder srcs (\<lambda>p. to_path (make_job folder p)) w"
  by (auto simp: common_jobs_def sources_ok_def same_destination)

lemma common_jobs_apart:
  assumes "common_jobs folder srcs w"
  shows "jobs_apart (map (make_job folder) srcs) w"
proof -
  have from_path: "from_path (make_job folder p) = p" if "p \<in> set srcs" for p
    using assms that by (auto simp: common_jobs_def intro: whole_source)
  moreover have "inj_on (\<lambda>p. to_path (make_job folder p)) (set srcs)"
    using assms by (simp add: common_jobs_def distinct_map)
  then have "inj_on to_path (make_job folder ` set srcs)" by (auto simp: inj_on_def)
  ultimately show ?thesis using assms by (auto simp: jobs_apart_def common_jobs_def)
qed

text \<open>
  C22: The threaded copier does what the plain one does: on the same command line, with sources whose
  destinations are all different and no sources, the sources and the directory given without a slash at
  their end, at most 1024 sources and nothing refused, \<^verbatim>\<open>steal\<close> returns 0, the threaded program can return 0, and in whatever order its threads
  worked, all files of the system are then exactly as \<^verbatim>\<open>steal\<close> leaves them, and neither has reported an
  error.
\<close>

theorem threaded_is_plain:
  assumes "env_ok E" and "is_dir E folder" and "common_jobs folder srcs w"
  shows "\<exists>w1. steal_main E (prog # srcs @ [folder]) w = Inr (0, w1) \<and>
    (\<exists>w2. threaded_main E names (prog # srcs @ [folder]) w 0 w2) \<and>
    (\<forall>w2. threaded_main E names (prog # srcs @ [folder]) w 0 w2 \<longrightarrow> wfiles w2 = wfiles w1 \<and> werr w2 = werr w1)"
proof -
  let ?dest = "\<lambda>p. to_path (make_job folder p)"
  have srcs: "srcs \<noteq> []" "length srcs \<le> 1024" using assms(3) by (simp_all add: common_jobs_def MAX_JOBS_def)
  have whole: "from_path (make_job folder p) = p" if "p \<in> set srcs" for p
    using assms(3) that by (auto simp: common_jobs_def intro: whole_source)
  obtain w1 where w1: "steal_main E (prog # srcs @ [folder]) w = Inr (0, w1)" "werr w1 = werr w"
      "\<forall>p \<in> set srcs. wfiles w1 (?dest p) = wfiles w p" "\<forall>q. q \<notin> ?dest ` set srcs \<longrightarrow> wfiles w1 q = wfiles w q"
    using steal_exact [OF assms(1,2) srcs(1) common_sources_ok [OF assms(3)]] by blast
  note t = threaded_exact [OF assms(1,2) srcs common_jobs_apart [OF assms(3)], of names prog]
  have "wfiles w2 = wfiles w1 \<and> werr w2 = werr w1" if "threaded_main E names (prog # srcs @ [folder]) w 0 w2" for w2
  proof
    have w2: "\<forall>p \<in> set srcs. wfiles w2 (?dest p) = wfiles w p"
      "\<forall>q. q \<notin> ?dest ` set srcs \<longrightarrow> wfiles w2 q = wfiles w q" "werr w2 = werr w"
      using t that whole by (auto simp: image_image)
    have "wfiles w2 q = wfiles w1 q" for q
      using w1(3,4) w2(1,2) by (cases "q \<in> ?dest ` set srcs") auto
    then show "wfiles w2 = wfiles w1" by blast
    show "werr w2 = werr w1" using w1(2) w2(3) by simp
  qed
  then show ?thesis using w1(1) t by blast
qed

theorem threaded_is_plain_witness:
  "\<exists>w1 w2. steal_main steal_example_env [''c'', ''a'', ''x/b'', ''d''] steal_example_world = Inr (0, w1) \<and>
    threaded_main steal_example_env (\<lambda>_. ''0'') [''c'', ''a'', ''x/b'', ''d''] steal_example_world 0 w2 \<and>
    wfiles w2 = wfiles w1"
proof -
  have e: "env_ok steal_example_env" "is_dir steal_example_env ''d''"
    by (simp_all add: env_ok_def steal_example_env_def io_ok_def)
  have c: "common_jobs ''d'' [''a'', ''x/b''] steal_example_world"
    by (simp add: common_jobs_def make_job_def basename_leaves_def basename_def PATH_MAX_def MAX_JOBS_def steal_example_world_def)
  show ?thesis using threaded_is_plain [OF e c, of "''c''" "\<lambda>_. ''0''"] by auto
qed

end
