(* ===== verification/ThreadedRace.thy ===== *)
theory ThreadedRace
  imports ThreadedFiles
begin

text \<open>
  \<^verbatim>\<open>steal/threaded_steal.c\<close> when one source is the destination of another: a schedule in which the size
  a worker has read is out of date and its progress bar divides by zero.
\<close>

lemma reach_worker:
  assumes "reachable E names queue n w s" and "t < length (pcs s)" and "pcs s ! t = p"
    and "worker_step E names queue t p s p' s1" and "s' = s1\<lparr>pcs := (pcs s)[t := p']\<rparr>"
  shows "reachable E names queue n w s'"
  using reachable.step [OF assms(1) pool_step.thread [OF assms(2), of E names queue p' s1]] assms(3-5) by simp

text \<open>A worker takes the next job and comes to its copy, whose destination it empties.\<close>

lemma reach_copy:
  assumes "reachable E names queue n w s" and "t < length (pcs s)" and "pcs s ! t = Lock" and "owner s = None"
    and "job_index s < length queue" and j: "queue ! job_index s = j" and "env_ok E"
    and src: "wfiles (files_of s) (from_path j) = Some c"
  shows "\<exists>s'. reachable E names queue n w s' \<and> owner s' = None \<and> job_index s' = Suc (job_index s) \<and>
    wfiles (files_of s') = (wfiles (files_of s))(to_path j \<mapsto> []) \<and>
    pcs s' = (pcs s)[t := Read \<lparr>job_of = j, dest_open = True,
      file_size = (if from_path j = to_path j then 0 else length c), stolen_of = 0\<rparr>]"
proof -
  let ?at = "\<lambda>p s1. s1\<lparr>pcs := (pcs s)[t := p]\<rparr>"
  let ?s1 = "?at Check (s\<lparr>owner := Some t\<rparr>)"
  have ok: "can_read E (from_path j)" "can_write E (to_path j)" using assms(7) by (simp_all add: env_ok_def)
  have open_src: "worker_step E names queue t (Open_Source j) s' (Open_Dest j True) s'"
    if "wfiles (files_of s') (from_path j) = Some c" for s'
  proof -
    have "worker_step E names queue t (Open_Source j) s'
        (Open_Dest j (wfiles (files_of s') (from_path j) \<noteq> None \<and> can_read E (from_path j))) s'"
      by (rule worker_step.open_source)
    then show ?thesis using that ok(1) by simp
  qed
  have open_dst: "worker_step E names queue t (Open_Dest j True) s' (Fstat j True True)
      (with_files (put_file (to_path j) []) s')" for s'
    using worker_step.open_dest [of E names queue t j True s'] ok(2) by simp
  have r1: "reachable E names queue n w ?s1"
    by (rule reach_worker [OF assms(1-3) worker_step.lock [OF assms(4)]]) simp
  have r2: "reachable E names queue n w (?at Fetch ?s1)"
    by (rule reach_worker [OF r1 _ _ worker_step.a_job, of t]) (use assms(2,5) in simp_all)
  have r3: "reachable E names queue n w (?at (Increment j) ?s1)"
    by (rule reach_worker [OF r2 _ _ worker_step.fetch, of t]) (use assms(2,5) j in simp_all)
  let ?s2 = "?s1\<lparr>job_index := Suc (job_index s)\<rparr>"
  have r4: "reachable E names queue n w (?at (Unlock j) ?s2)"
    by (rule reach_worker [OF r3 _ _ worker_step.increment, of t]) (use assms(2) in simp_all)
  let ?s3 = "?s2\<lparr>owner := None\<rparr>"
  have r5: "reachable E names queue n w (?at (Announce j) ?s3)"
    by (rule reach_worker [OF r4 _ _ worker_step.unlock, of t]) (use assms(2) in simp_all)
  let ?s4 = "with_files (wput (announcement (names t) j)) ?s3"
  have r6: "reachable E names queue n w (?at (Open_Source j) ?s4)"
    by (rule reach_worker [OF r5 _ _ worker_step.announce, of t]) (use assms(2) in \<open>simp_all add: with_files_def\<close>)
  have r7: "reachable E names queue n w (?at (Open_Dest j True) ?s4)"
    by (rule reach_worker [OF r6 _ _ open_src]) (use assms(2) src in \<open>simp_all add: with_files_def\<close>)
  let ?s5 = "with_files (put_file (to_path j) []) ?s4"
  have r8: "reachable E names queue n w (?at (Fstat j True True) ?s5)"
    by (rule reach_worker [OF r7 _ _ open_dst]) (use assms(2) in \<open>simp_all add: with_files_def\<close>)
  let ?fr = "\<lparr>job_of = j, dest_open = True,
      file_size = (if from_path j = to_path j then 0 else length c), stolen_of = 0\<rparr>"
  have stat: "worker_step E names queue t (Fstat j True True) s' (Read ?fr) s'"
    if "length (file_bytes (files_of s') (from_path j)) = file_size ?fr" for s'
    using worker_step.fstat [of E names queue t j True s'] that by simp
  have "reachable E names queue n w (?at (Read ?fr) ?s5)"
    by (rule reach_worker [OF r8 _ _ stat]) (use assms(2) src in \<open>simp_all add: file_bytes_def\<close>)
  then show ?thesis by (intro exI [of _ "?at (Read ?fr) ?s5"]) (simp add: assms(4))
qed

lemma progress_of_nothing: "0 < n \<Longrightarrow> n < 2 ^ 64 \<Longrightarrow> progress_pieces n 0 = Inl Signed_Overflow"
  using f_of_nat_near [of n] by (auto simp: progress_pieces_def f_of_nat_def [of 0] f32_def PROGRESS_WIDTH_def Let_def)

lemma undefined_bar:
  assumes "env_ok E" and "dest_open fr" and "file_size fr = 0" and "stolen_of fr = 0" and "0 < length buffer"
    and "length buffer < 2 ^ 64"
  shows "\<not> worker_step E names queue t (Write fr buffer) s p s'"
proof
  assume "worker_step E names queue t (Write fr buffer) s p s'"
  then show False
    using progress_of_nothing [OF assms(5,6)] assms(3,4) smooth_written [OF assms(1,2)]
    by cases auto
qed

text \<open>
  C39: The race of a size: when one source is the destination of another, the size a thread has read
  may be out of date. With the jobs \<open>a\<close> to \<open>b\<close> and \<open>b\<close> to \<open>b\<close> (the command line \<^verbatim>\<open>x/b b d\<close> for a \<open>b\<close> in
  \<open>d\<close>), an interleaving leads to a worker that has found its source empty, then reads bytes the
  other has written to it, and divides by the size 0: its step is undefined.
\<close>

theorem size_race:
  assumes "env_ok E" and "queue = [\<lparr>from_path = a, to_path = b\<rparr>, \<lparr>from_path = b, to_path = b\<rparr>]" and "a \<noteq> b"
    and "wfiles w a = Some c" and "0 < length c" and "length c < 2 ^ 63" and "wfiles w b \<noteq> None"
  shows "\<exists>s. reachable E names queue NUM_THREADS w s \<and> 1 < length (pcs s) \<and> pcs s ! 1 \<noteq> Finished \<and>
    owner s = None \<and> (\<nexists>p s'. worker_step E names queue 1 (pcs s ! 1) s p s')"
proof -
  let ?j0 = "\<lparr>from_path = a, to_path = b\<rparr>" and ?j1 = "\<lparr>from_path = b, to_path = b\<rparr>"
  let ?i = "pool_init NUM_THREADS w"
  have i: "owner ?i = None" "job_index ?i = 0" "files_of ?i = w" "0 < length (pcs ?i)" "1 < length (pcs ?i)"
      "pcs ?i ! 0 = Lock" "pcs ?i ! 1 = Lock"
    by (simp_all add: pool_init_def NUM_THREADS_def)
  let ?r0 = "\<lparr>job_of = ?j0, dest_open = True, file_size = length c, stolen_of = 0\<rparr>"
  have "\<exists>s'. reachable E names queue NUM_THREADS w s' \<and> owner s' = None \<and> job_index s' = Suc 0 \<and>
      wfiles (files_of s') = (wfiles w)(b \<mapsto> []) \<and> pcs s' = (pcs ?i)[0 := Read ?r0]"
    using reach_copy [OF reachable.start, of 0 NUM_THREADS w queue ?j0 E c names] assms i by simp
  then obtain s1 where s1: "reachable E names queue NUM_THREADS w s1" "owner s1 = None" "job_index s1 = Suc 0"
      "wfiles (files_of s1) = (wfiles w)(b \<mapsto> [])" "pcs s1 = (pcs ?i)[0 := Read ?r0]" by blast
  let ?r1 = "\<lparr>job_of = ?j1, dest_open = True, file_size = 0, stolen_of = 0\<rparr>"
  have "\<exists>s'. reachable E names queue NUM_THREADS w s' \<and> owner s' = None \<and>
      wfiles (files_of s') = (wfiles w)(b \<mapsto> []) \<and> pcs s' = (pcs s1)[1 := Read ?r1]"
    using reach_copy [OF s1(1), of 1 ?j1 "[]"] assms i s1 by auto
  then obtain s2 where s2: "reachable E names queue NUM_THREADS w s2" "owner s2 = None"
      "wfiles (files_of s2) = (wfiles w)(b \<mapsto> [])" "pcs s2 = (pcs s1)[1 := Read ?r1]" by blast
  have io: "\<not> read_err (io E 0) k" "write_res (io E 0) k m = int m" for k m
    using assms(1) by (simp_all add: env_ok_def io_ok_def)
  let ?s3 = "s2\<lparr>pcs := (pcs s2)[0 := Write ?r0 (take 1 c)]\<rparr>"
  have r3: "reachable E names queue NUM_THREADS w ?s3"
    by (rule reach_worker [OF s2(1) _ _ worker_step.read_block [OF io(1), of 1], of 0 ?r0])
      (use i(4,5) assms(3-5) in \<open>auto simp: s1 s2 file_bytes_def BUF_SIZE_def Suc_le_eq\<close>)
  have one: "0 < length (take 1 c)" "length (take 1 c) \<le> length c" using assms(5) by simp_all
  obtain pieces where pieces: "progress_pieces (stolen_of ?r0 + length (take 1 c)) (file_size ?r0) = Inr pieces"
    using progress_pieces_defined [OF one assms(6)] by auto
  have b0: "block_written E 0 ?r0 (take 1 c) = int (length (take 1 c))"
    by (simp add: block_written_def io(2))
  let ?r2 = "?r0\<lparr>stolen_of := stolen_of ?r0 + length (take 1 c)\<rparr>"
  let ?s4 = "(with_files (store_block ?r0 (int (length (take 1 c))) (take 1 c)) ?s3)
    \<lparr>pcs := (pcs ?s3)[0 := Bar ?r2 pieces]\<rparr>"
  have r4: "reachable E names queue NUM_THREADS w ?s4"
    by (rule reach_worker [OF r3 _ _ worker_step.write_block [OF b0 pieces], of 0]) (use i(4,5) in \<open>simp_all add: s1 s2\<close>)
  have f4: "wfiles (files_of ?s4) b = Some (take 1 c)"
    using assms(5) by (cases c) (simp_all add: store_block_def write_at_def file_bytes_def s2(3))
  have p4: "pcs ?s4 ! 1 = Read ?r1" "1 < length (pcs ?s4)" using i(5) by (simp_all add: s1 s2)
  let ?s5 = "?s4\<lparr>pcs := (pcs ?s4)[1 := Write ?r1 (take 1 c)]\<rparr>"
  have r5: "reachable E names queue NUM_THREADS w ?s5"
    by (rule reach_worker [OF r4 p4(2,1) worker_step.read_block [OF io(1), of 1]])
      (use f4 assms(5) in \<open>simp_all add: file_bytes_def BUF_SIZE_def Suc_le_eq\<close>)
  have stuck: "\<not> worker_step E names queue 1 (Write ?r1 (take 1 c)) ?s5 p s'" for p s'
    by (rule undefined_bar) (use assms(1,6) one in \<open>simp_all add: less_le_trans del: length_take\<close>)
  have "pcs ?s5 ! 1 = Write ?r1 (take 1 c)" "owner ?s5 = None" "1 < length (pcs ?s5)"
    using p4(2) by (simp_all add: s2(2))
  then show ?thesis using r5 stuck by (intro exI [of _ ?s5]) simp
qed


text \<open>The command line \<^verbatim>\<open>ts a/x d/x d\<close>.\<close>

theorem size_race_witness:
  "\<exists>queue s. threaded_setup steal_example_env [''ts'', ''a/x'', ''d/x'', ''d''] = Inr (Inr queue) \<and>
    reachable steal_example_env (\<lambda>_. ''0'') queue NUM_THREADS
      (steal_example_world\<lparr>wfiles := [''a/x'' \<mapsto> [1], ''d/x'' \<mapsto> [2]]\<rparr>) s \<and>
    \<not> all_finished s \<and> (\<nexists>p s'. worker_step steal_example_env (\<lambda>_. ''0'') queue 1 (pcs s ! 1) s p s')"
proof -
  let ?w = "steal_example_world\<lparr>wfiles := [''a/x'' \<mapsto> [1], ''d/x'' \<mapsto> [2]]\<rparr>"
  let ?q = "[\<lparr>from_path = ''a/x'', to_path = ''d/x''\<rparr>, \<lparr>from_path = ''d/x'', to_path = ''d/x''\<rparr>]"
  have q: "threaded_setup steal_example_env [''ts'', ''a/x'', ''d/x'', ''d''] = Inr (Inr ?q)"
    by (simp add: threaded_setup_def steal_example_env_def MAX_JOBS_def make_job_def basename_leaves_def basename_def PATH_MAX_def)
  have e: "env_ok steal_example_env" by (simp add: env_ok_def steal_example_env_def io_ok_def)
  obtain s where s: "reachable steal_example_env (\<lambda>_. ''0'') ?q NUM_THREADS ?w s" "1 < length (pcs s)"
      "pcs s ! 1 \<noteq> Finished" "\<nexists>p s'. worker_step steal_example_env (\<lambda>_. ''0'') ?q 1 (pcs s ! 1) s p s'"
    using size_race [OF e refl, of "''a/x''" "''d/x''" ?w "[1]" "\<lambda>_. ''0''"] by auto
  then have "\<not> all_finished s" by (auto simp: all_finished_def list_all_length)
  then show ?thesis using q s by blast
qed

end
