(* ===== verification/FifoQueue.thy ===== *)
theory FifoQueue
  imports Main
begin

text \<open>
  The contract of a queue kept in an array whose slots are only used again once it has run empty, and
  what every client gets from it: each call has exactly the result of a reference queue, a list together
  with the number of slots used since the list was last empty.
\<close>

datatype 'a fifo_op = Enq 'a | Deq

text \<open>What a call gives back: what the insertion printed, or what was taken out (nothing, of an empty queue).\<close>

datatype 'a fifo_result = Printed string | Taken "'a option"

text \<open>A run of operations on an implementation: the results, and the queue at the end.\<close>

fun fifo_run ::
  "('a \<Rightarrow> 'q \<Rightarrow> 'q \<times> string) \<Rightarrow> ('q \<Rightarrow> 'a option \<times> 'q) \<Rightarrow> 'a fifo_op list \<Rightarrow> 'q \<Rightarrow> 'a fifo_result list \<times> 'q" where
  "fifo_run enq deq [] q = ([], q)"
| "fifo_run enq deq (Enq x # ops) q =
     (case enq x q of (q1, out) \<Rightarrow> apfst ((#) (Printed out)) (fifo_run enq deq ops q1))"
| "fifo_run enq deq (Deq # ops) q =
     (case deq q of (r, q1) \<Rightarrow> apfst ((#) (Taken r)) (fifo_run enq deq ops q1))"

text \<open>The same run on the reference queue \<open>(n, xs)\<close>: \<open>xs\<close> waits, \<open>n\<close> slots are used.\<close>

fun fifo_spec ::
  "nat \<Rightarrow> ('a \<Rightarrow> string) \<Rightarrow> 'a fifo_op list \<Rightarrow> nat \<times> 'a list \<Rightarrow> 'a fifo_result list \<times> 'a list" where
  "fifo_spec cap full [] (n, xs) = ([], xs)"
| "fifo_spec cap full (Enq x # ops) (n, xs) =
     (if n < cap then apfst ((#) (Printed [])) (fifo_spec cap full ops (Suc n, xs @ [x]))
      else apfst ((#) (Printed (full x))) (fifo_spec cap full ops (n, xs)))"
| "fifo_spec cap full (Deq # ops) (n, []) = apfst ((#) (Taken None)) (fifo_spec cap full ops (n, []))"
| "fifo_spec cap full (Deq # ops) (n, x # xs) =
     apfst ((#) (Taken (Some x))) (fifo_spec cap full ops (if xs = [] then 0 else n, xs))"

text \<open>What a run took out, and what it put in: the insertions that printed nothing.\<close>

fun taken :: "'a fifo_result list \<Rightarrow> 'a list" where
  "taken [] = []"
| "taken (Taken (Some x) # rs) = x # taken rs"
| "taken (r # rs) = taken rs"

fun accepted :: "'a fifo_op list \<Rightarrow> 'a fifo_result list \<Rightarrow> 'a list" where
  "accepted (Enq x # ops) (Printed [] # rs) = x # accepted ops rs"
| "accepted (op # ops) (r # rs) = accepted ops rs"
| "accepted ops rs = []"

lemma fifo_spec_order:
  assumes "\<And>x. full x \<noteq> []" and "fifo_spec cap full ops (n, xs) = (rs, ys)"
  shows "taken rs @ ys = xs @ accepted ops rs"
  using assms(2)
proof (induction ops arbitrary: n xs rs)
  case Nil
  then show ?case by simp
next
  case (Cons op ops)
  show ?case
  proof (cases op)
    case (Enq x)
    obtain c cs where f: "full x = c # cs" using assms(1) [of x] by (meson neq_Nil_conv)
    show ?thesis using Cons Enq f by (cases "n < cap") (fastforce simp: apfst_def map_prod_def split: prod.splits)+
  next
    case Deq
    then show ?thesis using Cons by (cases xs) (fastforce simp: apfst_def map_prod_def split: prod.splits if_splits)+
  qed
qed

locale bounded_fifo =
  fixes inv :: "'q \<Rightarrow> bool"
    and contents :: "'q \<Rightarrow> 'a list"
    and used :: "'q \<Rightarrow> nat"
    and cap :: nat
    and full :: "'a \<Rightarrow> string"
    and enq :: "'a \<Rightarrow> 'q \<Rightarrow> 'q \<times> string"
    and deq :: "'q \<Rightarrow> 'a option \<times> 'q"
  assumes enq_room: "inv q \<Longrightarrow> used q < cap \<Longrightarrow> enq x q = (q', out) \<Longrightarrow>
      inv q' \<and> contents q' = contents q @ [x] \<and> used q' = Suc (used q) \<and> out = []"
    and enq_full: "inv q \<Longrightarrow> \<not> used q < cap \<Longrightarrow> enq x q = (q, full x)"
    and deq_empty: "inv q \<Longrightarrow> contents q = [] \<Longrightarrow> deq q = (None, q)"
    and deq_head: "inv q \<Longrightarrow> contents q = x # xs \<Longrightarrow> deq q = (r, q') \<Longrightarrow>
      r = Some x \<and> inv q' \<and> contents q' = xs \<and> used q' = (if xs = [] then 0 else used q)"
begin

lemma run_refines:
  "inv q \<Longrightarrow> fifo_run enq deq ops q = (rs, q') \<Longrightarrow>
    inv q' \<and> fifo_spec cap full ops (used q, contents q) = (rs, contents q')"
proof (induction ops arbitrary: q rs)
  case Nil
  then show ?case by simp
next
  case (Cons op ops)
  show ?case
  proof (cases op)
    case (Enq x)
    obtain q1 out where e: "enq x q = (q1, out)" by fastforce
    obtain rs1 where r: "fifo_run enq deq ops q1 = (rs1, q')" and rs: "rs = Printed out # rs1"
      using Cons.prems Enq e by (auto simp: apfst_def map_prod_def split: prod.splits)
    show ?thesis
    proof (cases "used q < cap")
      case True
      with enq_room [OF Cons.prems(1) True e] Cons.IH [of q1 rs1] r rs Enq show ?thesis by simp
    next
      case False
      with enq_full [OF Cons.prems(1) False, of x] Cons.IH [of q rs1] Cons.prems(1) e r rs Enq show ?thesis by simp
    qed
  next
    case Deq
    obtain r q1 where d: "deq q = (r, q1)" by fastforce
    obtain rs1 where run: "fifo_run enq deq ops q1 = (rs1, q')" and rs: "rs = Taken r # rs1"
      using Cons.prems Deq d by (auto simp: apfst_def map_prod_def split: prod.splits)
    show ?thesis
    proof (cases "contents q")
      case Nil
      with deq_empty [OF Cons.prems(1) Nil] Cons.IH [of q rs1] Cons.prems(1) d run rs Deq show ?thesis by simp
    next
      case (Cons x xs)
      with deq_head [OF Cons.prems(1) Cons d] Cons.IH [of q1 rs1] run rs Deq show ?thesis by simp
    qed
  qed
qed

end

end
