(* ===== verification/Mlfq.thy ===== *)
theory Mlfq
  imports CString FifoQueue
begin

text \<open>
  \<^verbatim>\<open>mlfq-implementation/mlfq.c\<close>: the process table, the queues and what there is of the simulation. A
  pointer to a process is its index in \<^verbatim>\<open>process_list\<close>. The second branch of \<^verbatim>\<open>run_process\<close> is no C
  (its only statement lacks a semicolon and calls an undeclared \<^verbatim>\<open>min\<close> on the table of quantums), so it
  has no meaning here; \<^verbatim>\<open>simulate_mlfq\<close> is declared and called but has no body: a parameter.
\<close>

section \<open>Processes and queues\<close>

definition MAX_PROCESSES :: nat where
  "MAX_PROCESSES = 100"

definition MAX_QUEUE_LEVELS :: nat where
  "MAX_QUEUE_LEVELS = 3"

datatype ProcessState = READY | RUNNING | FINISHED

record Process =
  pid :: int
  arrival_time :: int
  burst_time :: int
  remaining_time :: int
  current_queue :: int
  process_state :: ProcessState

record ProcessQueue =
  slots :: "nat option list"
  front :: int
  rear :: int

record mlfq_state =
  process_list :: "Process list"
  mlfq :: "ProcessQueue list"

definition empty_queue :: ProcessQueue where
  "empty_queue = \<lparr>slots = replicate MAX_PROCESSES None, front = 0, rear = -1\<rparr>"

definition init_queues :: "mlfq_state \<Rightarrow> mlfq_state" where
  "init_queues st = st\<lparr>mlfq := replicate MAX_QUEUE_LEVELS empty_queue\<rparr>"

text \<open>\<^verbatim>\<open>process_list\<close> holds the first \<^verbatim>\<open>total_processes\<close> entries; the bound is not checked.\<close>

definition add_process :: "int \<Rightarrow> int \<Rightarrow> int \<Rightarrow> mlfq_state \<Rightarrow> mlfq_state outcome" where
  "add_process p arrival burst st =
     (if length (process_list st) < MAX_PROCESSES then
        Inr (st\<lparr>process_list := process_list st @ [\<lparr>pid = p, arrival_time = arrival, burst_time = burst,
          remaining_time = burst, current_queue = 0, process_state = READY\<rparr>]\<rparr>)
      else Inl Out_Of_Bounds)"

text \<open>The queue and what is printed.\<close>

definition enqueue :: "Process list \<Rightarrow> nat \<Rightarrow> ProcessQueue \<Rightarrow> ProcessQueue \<times> string" where
  "enqueue ps p q =
     (if rear q < int MAX_PROCESSES - 1 then
        (q\<lparr>rear := rear q + 1, slots := (slots q)[nat (rear q + 1) := Some p]\<rparr>, [])
      else (q, ''Queue overflow! Cannot enqueue process '' @ dec_int (pid (ps ! p)) @ [NL]))"

definition is_empty :: "ProcessQueue \<Rightarrow> bool" where
  "is_empty q \<longleftrightarrow> rear q < front q"

definition dequeue :: "ProcessQueue \<Rightarrow> nat option \<times> ProcessQueue" where
  "dequeue q =
     (if is_empty q then (None, q)
      else
        let p = slots q ! nat (front q);
            q1 = q\<lparr>slots := (slots q)[nat (front q) := None], front := front q + 1\<rparr>
        in (p, if rear q1 < front q1 then q1\<lparr>front := 0, rear := -1\<rparr> else q1))"

section \<open>The queue as a list\<close>

definition queue_len :: "ProcessQueue \<Rightarrow> nat" where
  "queue_len q = nat (rear q - front q + 1)"

definition queue_slots :: "ProcessQueue \<Rightarrow> nat option list" where
  "queue_slots q = take (queue_len q) (drop (nat (front q)) (slots q))"

definition queue_list :: "ProcessQueue \<Rightarrow> nat list" where
  "queue_list q = map the (queue_slots q)"

definition queue_ok :: "ProcessQueue \<Rightarrow> bool" where
  "queue_ok q \<longleftrightarrow> length (slots q) = MAX_PROCESSES \<and>
     (front q = 0 \<and> rear q = -1 \<or> 0 \<le> front q \<and> front q \<le> rear q \<and> rear q < int MAX_PROCESSES) \<and>
     list_all (\<lambda>x. x \<noteq> None) (queue_slots q)"

definition has_room :: "ProcessQueue \<Rightarrow> bool" where
  "has_room q \<longleftrightarrow> rear q < int MAX_PROCESSES - 1"

lemma empty_queue_ok: "queue_ok empty_queue" "queue_list empty_queue = []"
  by (simp_all add: queue_ok_def queue_list_def queue_slots_def queue_len_def empty_queue_def)

lemma enqueue_slots:
  assumes "queue_ok q" and "has_room q"
  shows "queue_slots (fst (enqueue ps p q)) = queue_slots q @ [Some p]"
    and "length (slots (fst (enqueue ps p q))) = MAX_PROCESSES"
proof -
  let ?f = "nat (front q)" and ?n = "queue_len q"
  have i: "nat (rear q + 1) = ?f + ?n" and l: "?f + ?n < length (slots q)"
    and s: "nat (rear q + 1 - front q + 1) = Suc ?n"
    using assms by (auto simp: queue_ok_def has_room_def queue_len_def)
  have "take (Suc ?n) (drop ?f ((slots q)[?f + ?n := Some p])) = take ?n (drop ?f (slots q)) @ [Some p]"
    using l by (simp add: take_Suc_conv_app_nth drop_update_swap)
  then show "queue_slots (fst (enqueue ps p q)) = queue_slots q @ [Some p]"
    using assms(2) i s by (simp add: enqueue_def has_room_def queue_slots_def queue_len_def)
  show "length (slots (fst (enqueue ps p q))) = MAX_PROCESSES"
    using assms by (simp add: enqueue_def queue_ok_def)
qed

lemma enqueue_ok:
  assumes "queue_ok q" and "has_room q"
  shows "queue_ok (fst (enqueue ps p q))" and "queue_list (fst (enqueue ps p q)) = queue_list q @ [p]"
  using enqueue_slots [OF assms, of ps p] assms
  by (auto simp: queue_ok_def queue_list_def enqueue_def has_room_def)

lemma enqueue_full: "\<not> has_room q \<Longrightarrow> fst (enqueue ps p q) = q"
  by (simp add: enqueue_def has_room_def)

lemma queue_list_Nil: "queue_ok q \<Longrightarrow> queue_list q = [] \<longleftrightarrow> is_empty q"
  by (auto simp: queue_ok_def queue_list_def queue_slots_def queue_len_def is_empty_def)

lemma dequeue_ok:
  assumes "queue_ok q" and "\<not> is_empty q"
  shows "\<exists>p q'. dequeue q = (Some p, q') \<and> queue_ok q' \<and> queue_list q = p # queue_list q'"
proof -
  let ?f = "nat (front q)" and ?n = "nat (rear q - front q)"
  have f: "0 \<le> front q" "front q \<le> rear q" "rear q < int MAX_PROCESSES" "length (slots q) = MAX_PROCESSES"
    using assms by (auto simp: queue_ok_def is_empty_def)
  then have l: "?f < length (slots q)" and n: "queue_len q = Suc ?n" by (auto simp: queue_len_def)
  have s: "queue_slots q = slots q ! ?f # take ?n (drop (Suc ?f) (slots q))"
    using l n by (simp add: queue_slots_def Cons_nth_drop_Suc [symmetric])
  obtain p where p: "slots q ! ?f = Some p" and rest: "list_all (\<lambda>x. x \<noteq> None) (take ?n (drop (Suc ?f) (slots q)))"
    using assms(1) s by (auto simp: queue_ok_def)
  let ?q1 = "q\<lparr>slots := (slots q)[?f := None], front := front q + 1\<rparr>"
  have s1: "queue_slots ?q1 = take ?n (drop (Suc ?f) (slots q))"
  proof -
    have "nat (front q + 1) = Suc ?f" "nat (rear q - (front q + 1) + 1) = ?n" using f by simp_all
    then show ?thesis by (simp add: queue_slots_def queue_len_def)
  qed
  show ?thesis
  proof (cases "rear q = front q")
    case True
    then have "dequeue q = (Some p, ?q1\<lparr>front := 0, rear := -1\<rparr>)"
      using assms(2) p by (simp add: dequeue_def Let_def)
    moreover have "queue_list q = [p]" using s p True by (simp add: queue_list_def)
    ultimately show ?thesis
      using f by (simp add: queue_ok_def queue_list_def queue_slots_def queue_len_def)
  next
    case False
    then have "dequeue q = (Some p, ?q1)" using assms(2) p f by (simp add: dequeue_def Let_def)
    moreover have "queue_ok ?q1" using False f rest s1 by (auto simp: queue_ok_def)
    ultimately show ?thesis using s s1 p by (simp add: queue_list_def)
  qed
qed

definition slots_used :: "ProcessQueue \<Rightarrow> nat" where
  "slots_used q = nat (rear q + 1)"

definition overflow_report :: "Process list \<Rightarrow> nat \<Rightarrow> string" where
  "overflow_report ps p = ''Queue overflow! Cannot enqueue process '' @ dec_int (pid (ps ! p)) @ [NL]"

lemma has_room_used: "queue_ok q \<Longrightarrow> has_room q \<longleftrightarrow> slots_used q < MAX_PROCESSES"
  by (auto simp: has_room_def slots_used_def queue_ok_def)

lemma dequeue_used:
  assumes "queue_ok q" and "queue_list q = x # xs" and "dequeue q = (r, q')"
  shows "slots_used q' = (if xs = [] then 0 else slots_used q)"
proof -
  have e: "\<not> is_empty q" using queue_list_Nil [OF assms(1)] assms(2) by simp
  then have q': "queue_ok q'" "queue_list q' = xs" and rear: "rear q' = (if rear q < front q + 1 then - 1 else rear q)"
    using dequeue_ok [OF assms(1)] assms(2,3) by (auto simp: dequeue_def Let_def)
  have "rear q < front q + 1 \<longleftrightarrow> xs = []"
    using queue_list_Nil [OF q'(1)] q'(2) e assms(3) by (auto simp: dequeue_def Let_def is_empty_def split: if_splits)
  then show ?thesis using rear by (simp add: slots_used_def)
qed

interpretation mq: bounded_fifo queue_ok queue_list slots_used MAX_PROCESSES "overflow_report ps" "enqueue ps" dequeue for ps
proof (unfold_locales, goal_cases)
  case (1 q x q' out)
  then have r: "has_room q" by (simp add: has_room_used)
  then show ?case using enqueue_ok [OF 1(1) r, of ps x] 1 by (auto simp: enqueue_def has_room_def slots_used_def queue_ok_def)
next
  case (2 q x)
  then have "\<not> has_room q" by (simp add: has_room_used)
  then show ?case by (simp add: enqueue_def has_room_def overflow_report_def)
next
  case (3 q)
  then show ?case using queue_list_Nil [of q] by (simp add: dequeue_def)
next
  case (4 q x xs r q')
  then show ?case using dequeue_ok [OF 4(1)] queue_list_Nil [OF 4(1)] dequeue_used [OF 4] by auto
qed

section \<open>First in, first out\<close>

text \<open>
  C30: The scheduler's queues are first-in first-out: for any sequence of calls of \<^verbatim>\<open>enqueue\<close> and
  \<^verbatim>\<open>dequeue\<close> on a queue that has just been initialised, every call does what a reference queue does: an
  \<^verbatim>\<open>enqueue\<close> puts the process last and prints nothing as long as fewer than 100 were accepted since the
  queue was last empty, and else prints the overflow message and changes nothing; a \<^verbatim>\<open>dequeue\<close> gives back
  the first process that waits, and NULL only when none does. So what was taken out, followed by what
  still waits, is what was accepted, in that order.
\<close>

theorem mlfq_fifo:
  "let (results, q') = fifo_run (enqueue ps) dequeue ops empty_queue in
     fifo_spec 100 (\<lambda>p. ''Queue overflow! Cannot enqueue process '' @ dec_int (pid (ps ! p)) @ [NL]) ops (0, []) =
       (results, queue_list q') \<and>
     taken results @ queue_list q' = accepted ops results"
proof -
  obtain rs q' where r: "fifo_run (enqueue ps) dequeue ops empty_queue = (rs, q')" by fastforce
  have "fifo_spec MAX_PROCESSES (overflow_report ps) ops (slots_used empty_queue, queue_list empty_queue) = (rs, queue_list q')"
    using mq.run_refines [OF empty_queue_ok(1) r] by simp
  then have s: "fifo_spec 100 (overflow_report ps) ops (0, []) = (rs, queue_list q')"
    by (simp add: empty_queue_ok(2)) (simp add: slots_used_def empty_queue_def MAX_PROCESSES_def)
  have "taken rs @ queue_list q' = accepted ops rs"
    using fifo_spec_order [OF _ s] by (simp add: overflow_report_def)
  then show ?thesis using r s by (simp add: overflow_report_def [abs_def])
qed

text \<open>
  The slots a \<^verbatim>\<open>dequeue\<close> frees are not used again before the queue runs empty: with one slot free at
  the front and \<^verbatim>\<open>rear\<close> at the end of the array, \<^verbatim>\<open>enqueue\<close> reports an overflow.
\<close>

lemma overflow_with_free_slot:
  assumes "queue_ok q" and "front q = 1" and "rear q = 99"
  shows "length (queue_list q) = 99 \<and> fst (enqueue ps p q) = q \<and> snd (enqueue ps p q) \<noteq> []"
  using assms by (simp add: queue_ok_def queue_list_def queue_slots_def queue_len_def enqueue_def MAX_PROCESSES_def)

section \<open>Running a process\<close>

definition time_quantum :: "int list" where
  "time_quantum = [2, 4, -1]"

text \<open>\<open>None\<close> in the branch that does not compile; else the table and what is printed.\<close>

definition run_process :: "nat \<Rightarrow> int \<Rightarrow> mlfq_state \<Rightarrow> (mlfq_state \<times> string) outcome option" where
  "run_process p queue_level st =
     (let st1 = st\<lparr>process_list := (process_list st)[p := (process_list st ! p)\<lparr>process_state := RUNNING\<rparr>]\<rparr>
      in if queue_level < 0 \<or> int (length time_quantum) \<le> queue_level then Some (Inl Out_Of_Bounds)
         else let time_quant = time_quantum ! nat queue_level
         in if time_quant = -1
            then Some (Inr (st1, ''[Running] Process: '' @ dec_int (pid (process_list st1 ! p))))
            else None)"

lemma run_process_bottom:
  assumes "p < length (process_list st)"
  shows "run_process p 2 st = Some (Inr (st\<lparr>process_list :=
      (process_list st)[p := (process_list st ! p)\<lparr>process_state := RUNNING\<rparr>]\<rparr>,
    ''[Running] Process: '' @ dec_int (pid (process_list st ! p))))"
  using assms by (simp add: run_process_def time_quantum_def Let_def)

lemma run_process_undefined: "run_process p level st = None \<longleftrightarrow> level = 0 \<or> level = 1"
proof -
  consider "level < 0 \<or> 3 \<le> level" | "level = 0" | "level = 1" | "level = 2" by linarith
  then show ?thesis by cases (auto simp: run_process_def time_quantum_def Let_def)
qed

section \<open>The program\<close>

text \<open>The calls of \<^verbatim>\<open>main\<close> before the simulation.\<close>

definition mlfq_setup :: "mlfq_state \<Rightarrow> mlfq_state outcome" where
  "mlfq_setup st =
     and_then (add_process 1 0 5 (init_queues st)) (\<lambda>s1.
     and_then (add_process 2 2 8 s1) (add_process 3 4 3))"

definition mlfq_main :: "(mlfq_state \<Rightarrow> mlfq_state outcome) \<Rightarrow> (int \<times> mlfq_state) outcome" where
  "mlfq_main simulate_mlfq =
     map_sum id (Pair 0) (and_then (mlfq_setup \<lparr>process_list = [], mlfq = []\<rparr>) simulate_mlfq)"

text \<open>
  The state every simulation starts from: each process is ready, at the highest priority and has its
  whole burst before it, and all queues are empty.
\<close>

definition fresh_process :: "Process \<Rightarrow> bool" where
  "fresh_process p \<longleftrightarrow> process_state p = READY \<and> current_queue p = 0 \<and> remaining_time p = burst_time p"

definition fresh_state :: "mlfq_state \<Rightarrow> bool" where
  "fresh_state st \<longleftrightarrow> length (process_list st) \<le> MAX_PROCESSES \<and> list_all fresh_process (process_list st) \<and>
     length (mlfq st) = MAX_QUEUE_LEVELS \<and> list_all (\<lambda>q. queue_ok q \<and> queue_list q = []) (mlfq st)"

lemma add_process_fresh:
  assumes "add_process p arrival burst st = Inr st'" and "fresh_state st"
  shows "fresh_state st' \<and> map pid (process_list st') = map pid (process_list st) @ [p]"
  using assms by (auto simp: add_process_def fresh_state_def fresh_process_def split: if_splits)

lemma add_process_full: "length (process_list st) = MAX_PROCESSES \<Longrightarrow> add_process p a b st = Inl Out_Of_Bounds"
  by (simp add: add_process_def)

lemma init_queues_fresh: "fresh_state (init_queues \<lparr>process_list = [], mlfq = qs\<rparr>)"
  by (simp add: fresh_state_def init_queues_def list_all_iff empty_queue_ok)

lemma mlfq_main_starts:
  "\<exists>st. fresh_state st \<and> map pid (process_list st) = [1, 2, 3] \<and>
    mlfq_main simulate = map_sum id (Pair 0) (simulate st)"
proof -
  obtain s1 where s1: "add_process 1 0 5 (init_queues \<lparr>process_list = [], mlfq = []\<rparr>) = Inr s1"
      "length (process_list s1) = 1"
    by (auto simp: add_process_def init_queues_def MAX_PROCESSES_def)
  obtain s2 where s2: "add_process 2 2 8 s1 = Inr s2" "length (process_list s2) = 2"
    using s1(2) by (auto simp: add_process_def MAX_PROCESSES_def)
  obtain s3 where s3: "add_process 3 4 3 s2 = Inr s3"
    using s2(2) by (auto simp: add_process_def MAX_PROCESSES_def)
  have "map pid (process_list (init_queues \<lparr>process_list = [], mlfq = []\<rparr>)) = []"
    by (simp add: init_queues_def)
  then have "fresh_state s3 \<and> map pid (process_list s3) = [1, 2, 3]"
    using add_process_fresh [OF s1(1) init_queues_fresh] add_process_fresh [OF s2(1)] add_process_fresh [OF s3] by simp
  then show ?thesis using s1 s2 s3 by (auto simp: mlfq_main_def mlfq_setup_def)
qed

end
