(* ===== verification/IntVector.thy ===== *)
theory IntVector
  imports CString
begin

text \<open>
  \<^verbatim>\<open>dynamic-array/vector.c\<close> and its use in \<^verbatim>\<open>usage.c\<close>. \<open>data\<close> is the block the pointer refers to, as many
  \<^verbatim>\<open>int\<close>s as it has, \<open>None\<close> where nothing was written; the null pointer is \<open>None\<close>. \<open>alloc\<close> says for
  which sizes \<^verbatim>\<open>malloc\<close> and \<^verbatim>\<open>realloc\<close> succeed. Sizes are 64-bit and wrap.
\<close>

section \<open>The program\<close>

record IntegerVector =
  data :: "int option list option"
  vsize :: u64
  capacity :: u64

definition INT_BYTES :: u64 where
  "INT_BYTES = 4"

definition new_block :: "(u64 \<Rightarrow> bool) \<Rightarrow> u64 \<Rightarrow> int option list option" where
  "new_block alloc bytes = (if alloc bytes then Some (replicate (unat bytes div 4) None) else None)"

definition initialize_vector :: "(u64 \<Rightarrow> bool) \<Rightarrow> IntegerVector outcome" where
  "initialize_vector alloc =
     (case new_block alloc (4 * INT_BYTES) of
        None \<Rightarrow> Inl Exit_Failure
      | Some b \<Rightarrow> Inr \<lparr>data = Some b, vsize = 0, capacity = 4\<rparr>)"

text \<open>\<^verbatim>\<open>realloc\<close> keeps what fits; on the null pointer it is \<^verbatim>\<open>malloc\<close>.\<close>

definition resize_block ::
  "(u64 \<Rightarrow> bool) \<Rightarrow> int option list option \<Rightarrow> u64 \<Rightarrow> int option list option" where
  "resize_block alloc d bytes =
     (if alloc bytes then
        let n = unat bytes div 4; old = (case d of None \<Rightarrow> [] | Some b \<Rightarrow> b)
        in Some (take n old @ replicate (n - length old) None)
      else None)"

definition store_int :: "IntegerVector \<Rightarrow> u64 \<Rightarrow> int \<Rightarrow> IntegerVector outcome" where
  "store_int vec i val =
     (case data vec of
        None \<Rightarrow> Inl Null_Deref
      | Some b \<Rightarrow> if unat i < length b then Inr (vec\<lparr>data := Some (b[unat i := Some val])\<rparr>) else Inl Out_Of_Bounds)"

definition push_back :: "(u64 \<Rightarrow> bool) \<Rightarrow> IntegerVector \<Rightarrow> int \<Rightarrow> IntegerVector outcome" where
  "push_back alloc vec val =
     and_then
       (if capacity vec \<le> vsize vec then
          let double_capacity = capacity vec * 2
          in (case resize_block alloc (data vec) (double_capacity * INT_BYTES) of
                None \<Rightarrow> Inl Exit_Failure
              | Some temp \<Rightarrow> Inr (vec\<lparr>data := Some temp, capacity := double_capacity\<rparr>))
        else Inr vec)
       (\<lambda>vec1. map_sum id (\<lambda>v. v\<lparr>vsize := vsize v + 1\<rparr>) (store_int vec1 (vsize vec1) val))"

definition delete_vector :: "IntegerVector \<Rightarrow> IntegerVector" where
  "delete_vector vec = vec\<lparr>data := None, capacity := 0, vsize := 0\<rparr>"

fun push_all :: "(u64 \<Rightarrow> bool) \<Rightarrow> IntegerVector \<Rightarrow> int list \<Rightarrow> IntegerVector outcome" where
  "push_all alloc vec [] = Inr vec"
| "push_all alloc vec (x # xs) = and_then (push_back alloc vec x) (\<lambda>v. push_all alloc v xs)"

fun show_cells :: "int option list \<Rightarrow> string outcome" where
  "show_cells [] = Inr []"
| "show_cells (None # xs) = Inl Uninit_Read"
| "show_cells (Some x # xs) = map_sum id (\<lambda>s. dec_int x @ '' '' @ s) (show_cells xs)"

text \<open>\<^verbatim>\<open>main\<close> of \<^verbatim>\<open>usage.c\<close>: the output.\<close>

definition usage_main :: "(u64 \<Rightarrow> bool) \<Rightarrow> string outcome" where
  "usage_main alloc =
     and_then (initialize_vector alloc) (\<lambda>v0.
     and_then (push_all alloc v0 (map int [0..<10])) (\<lambda>v1.
       case data v1 of None \<Rightarrow> Inl Null_Deref
       | Some b \<Rightarrow> if length b < 10 then Inl Out_Of_Bounds
                   else map_sum id (\<lambda>s. s @ [NL]) (show_cells (take 10 b))))"

section \<open>The vector as a list\<close>

definition vec_list :: "IntegerVector \<Rightarrow> int option list" where
  "vec_list v = (case data v of None \<Rightarrow> [] | Some b \<Rightarrow> take (unat (vsize v)) b)"

text \<open>The block has room for the capacity, which is far from wrapping.\<close>

definition vec_ok :: "IntegerVector \<Rightarrow> bool" where
  "vec_ok v \<longleftrightarrow> (\<exists>b. data v = Some b \<and> length b = unat (capacity v)) \<and> vsize v \<le> capacity v \<and>
     0 < capacity v \<and> unat (capacity v) \<le> 2 ^ 60"

lemma vec_init:
  assumes "\<forall>n. alloc n"
  shows "\<exists>v. initialize_vector alloc = Inr v \<and> vec_ok v \<and> vec_list v = [] \<and> vsize v = 0"
  using assms by (simp add: initialize_vector_def new_block_def INT_BYTES_def vec_ok_def vec_list_def)

lemma store_ok:
  assumes "data v = Some b" and "unat (vsize v) < length b" and "length b \<le> 2 ^ 61"
  shows "\<exists>v'. map_sum id (\<lambda>v. v\<lparr>vsize := vsize v + 1\<rparr>) (store_int v (vsize v) x) = Inr v' \<and>
    data v' = Some (b[unat (vsize v) := Some x]) \<and> unat (vsize v') = Suc (unat (vsize v)) \<and>
    capacity v' = capacity v \<and> vec_list v' = vec_list v @ [Some x]"
proof -
  have s: "unat (vsize v + 1) = Suc (unat (vsize v))"
    using assms(2,3) by (simp add: unat_word_ariths)
  then show ?thesis
    using assms(1,2) by (simp add: store_int_def vec_list_def take_Suc_conv_app_nth)
qed

lemma push_back_ok:
  assumes "vec_ok v" and "\<forall>n. alloc n" and "unat (vsize v) < 2 ^ 59"
  shows "\<exists>v'. push_back alloc v x = Inr v' \<and> vec_ok v' \<and> vec_list v' = vec_list v @ [Some x] \<and>
    unat (vsize v') = Suc (unat (vsize v))"
proof -
  obtain b where b: "data v = Some b" "length b = unat (capacity v)" using assms(1) by (auto simp: vec_ok_def)
  show ?thesis
  proof (cases "capacity v \<le> vsize v")
    case False
    then have l: "unat (vsize v) < length b" using b(2) by (simp add: word_le_nat_alt)
    have "length b \<le> 2 ^ 61" using b(2) assms(1) by (simp add: vec_ok_def)
    from store_ok [OF b(1) l this, of x] show ?thesis
      using False l assms(1) b(2) by (auto simp: push_back_def vec_ok_def word_le_nat_alt)
  next
    case True
    then have eq: "vsize v = capacity v" using assms(1) by (simp add: vec_ok_def)
    have c2: "unat (capacity v * 2) = 2 * unat (capacity v)"
      and c8: "unat (capacity v * 2 * INT_BYTES) = 8 * unat (capacity v)"
      using assms(3) eq by (simp_all add: unat_word_ariths INT_BYTES_def)
    let ?b = "b @ replicate (unat (capacity v)) None"
    let ?v = "v\<lparr>data := Some ?b, capacity := capacity v * 2\<rparr>"
    have r: "resize_block alloc (data v) (capacity v * 2 * INT_BYTES) = Some ?b"
      using assms(2) b by (simp add: resize_block_def c8 Let_def)
    have "0 < unat (capacity v)" using assms(1) by (simp add: vec_ok_def word_less_nat_alt)
    then have l: "unat (vsize ?v) < length ?b" using b(2) eq by simp
    have n: "length ?b \<le> 2 ^ 61" using b(2) assms(1) by (simp add: vec_ok_def)
    obtain v' where v': "map_sum id (\<lambda>v. v\<lparr>vsize := vsize v + 1\<rparr>) (store_int ?v (vsize ?v) x) = Inr v'"
        "data v' = Some (?b[unat (vsize ?v) := Some x])" "unat (vsize v') = Suc (unat (vsize ?v))"
        "capacity v' = capacity ?v" "vec_list v' = vec_list ?v @ [Some x]"
      using store_ok [of ?v ?b x] l n by auto
    have "vec_list ?v = vec_list v" using b eq by (simp add: vec_list_def)
    moreover have "push_back alloc v x = Inr v'"
      using True r v'(1) by (simp add: push_back_def Let_def)
    moreover have "vec_ok v'"
      using v' l b(2) c2 assms(3) eq \<open>0 < unat (capacity v)\<close>
      by (simp add: vec_ok_def word_le_nat_alt word_less_nat_alt)
    ultimately show ?thesis using v' by simp
  qed
qed

lemma push_all_ok:
  assumes "\<forall>n. alloc n"
  shows "vec_ok v \<Longrightarrow> unat (vsize v) + length xs \<le> 2 ^ 59 \<Longrightarrow>
    \<exists>v'. push_all alloc v xs = Inr v' \<and> vec_ok v' \<and> vec_list v' = vec_list v @ map Some xs \<and>
      unat (vsize v') = unat (vsize v) + length xs"
proof (induction xs arbitrary: v)
  case Nil
  then show ?case by simp
next
  case (Cons x xs)
  then have "unat (vsize v) < 2 ^ 59" by simp
  then obtain v1 where v1: "push_back alloc v x = Inr v1" "vec_ok v1" "vec_list v1 = vec_list v @ [Some x]"
      "unat (vsize v1) = Suc (unat (vsize v))"
    using push_back_ok [OF Cons.prems(1) assms] by blast
  moreover have "unat (vsize v1) + length xs \<le> 2 ^ 59" using Cons.prems(2) v1(4) by simp
  ultimately show ?case using Cons.IH [OF v1(2)] by auto
qed

text \<open>
  C31: The dynamic array: as long as allocations succeed, pushing any list of up to \<open>2 ^ 59\<close> integers on
  a new vector gives a vector whose elements are that list, in order, whose size is its length, and
  whose block has room for the capacity.
\<close>

theorem vector_push_all:
  assumes "\<forall>n. alloc n" and "length xs \<le> 2 ^ 59"
  shows "\<exists>v0 v. initialize_vector alloc = Inr v0 \<and> push_all alloc v0 xs = Inr v \<and>
    vec_list v = map Some xs \<and> unat (vsize v) = length xs \<and> vec_ok v"
proof -
  obtain v0 where v0: "initialize_vector alloc = Inr v0" "vec_ok v0" "vec_list v0 = []" "vsize v0 = 0"
    using vec_init [OF assms(1)] by blast
  then show ?thesis using push_all_ok [OF assms(1) v0(2), of xs] assms(2) by auto
qed

theorem vector_push_all_witness:
  "\<exists>v0 v. initialize_vector (\<lambda>_. True) = Inr v0 \<and> push_all (\<lambda>_. True) v0 [3, 1, 4, 1, 5] = Inr v \<and>
    vec_list v = map Some [3, 1, 4, 1, 5] \<and> unat (vsize v) = length [3::int, 1, 4, 1, 5] \<and> vec_ok v"
  by (rule vector_push_all) simp_all

text \<open>After \<^verbatim>\<open>delete_vector\<close> the capacity is 0 and doubling keeps it 0, so a push has nowhere to write.\<close>

lemma push_after_delete: "\<exists>f. push_back alloc (delete_vector v) x = Inl f"
  by (simp add: push_back_def delete_vector_def resize_block_def store_int_def INT_BYTES_def Let_def)

end
