(* ===== verification/Sysout.thy ===== *)
theory Sysout
  imports CString
begin

text \<open>
  \<^verbatim>\<open>custom-printf/sysout.c\<close>: the output of every function is the string written to descriptor 1, whose
  writes succeed (their results are ignored). A
  variable argument is an \<^verbatim>\<open>int\<close> or a string; fetching one that is not there, or of the other type, is
  the fault \<open>Bad_Vararg\<close>.
\<close>

section \<open>The program\<close>

definition print_char :: "char \<Rightarrow> string" where
  "print_char c = [c]"

fun print_str :: "string \<Rightarrow> string" where
  "print_str [] = []"
| "print_str (c # s) = (if c = NUL then [] else c # print_str s)"

text \<open>The loop that fills \<^verbatim>\<open>buf\<close>: the digits of \<open>n\<close>, the lowest first.\<close>

fun digit_buf :: "nat \<Rightarrow> string" where
  "digit_buf n = (if n = 0 then [] else digit (n mod 10) # digit_buf (n div 10))"

declare digit_buf.simps [simp del]

definition print_int :: "int \<Rightarrow> string outcome" where
  "print_int n =
     (if n = - 2147483648 then Inl Signed_Overflow
      else
        let negative = (n < 0); m = nat (if negative then - n else n)
        in if m = 0 then Inr (print_char CHR ''0'')
           else
             let buf = digit_buf m @ (if negative then ''-'' else [])
             in if 12 < length buf then Inl Out_Of_Bounds else Inr (rev buf))"

datatype vararg = VInt int | VStr string

text \<open>One conversion, on the character after the percent sign: the output and the arguments left.\<close>

definition convert :: "char \<Rightarrow> vararg list \<Rightarrow> (string \<times> vararg list) outcome" where
  "convert c args =
     (if c = CHR ''c'' then
        (case args of VInt v # as \<Rightarrow> Inr (print_char (char_of (nat (v mod 256))), as) | _ \<Rightarrow> Inl Bad_Vararg)
      else if c = CHR ''s'' then
        (case args of VStr str # as \<Rightarrow> Inr (print_str str, as) | _ \<Rightarrow> Inl Bad_Vararg)
      else if c = CHR ''d'' then
        (case args of VInt n # as \<Rightarrow> map_sum id (\<lambda>s. (s, as)) (print_int n) | _ \<Rightarrow> Inl Bad_Vararg)
      else Inr ('' '', args))"

text \<open>
  \<open>s\<close> holds the bytes in front of the last terminator of the format; a null byte among them ends the
  loop. After a percent sign the conversion sees a null byte like any other character, prints a space,
  and the loop goes on behind it: out of bounds where that was the last terminator.
\<close>

fun sysout :: "string \<Rightarrow> vararg list \<Rightarrow> string outcome" where
  "sysout [] args = Inr []"
| "sysout (c # s) args =
     (if c = NUL then Inr []
      else if c = CHR ''%'' then
        (case s of
           [] \<Rightarrow> Inl Out_Of_Bounds
         | d # r \<Rightarrow> and_then (convert d args) (\<lambda>(out, as). map_sum id (\<lambda>rest. out @ rest) (sysout r as)))
      else map_sum id (Cons c) (sysout s args))"

definition sysout_main :: "string outcome" where
  "sysout_main =
     (let s = ''Hello World!''; c = CHR ''A''; n = 100
      in and_then (sysout (''The first program is always: %s'' @ [NL]) [VStr s]) (\<lambda>o1.
         and_then (sysout (''The letter %c is the first letter of the alphabet.'' @ [NL]) [VInt (of_char c)]) (\<lambda>o2.
         and_then (sysout (''%d is an integer!'' @ [NL]) [VInt n]) (\<lambda>o3.
         map_sum id (\<lambda>o4. o1 @ o2 @ o3 @ o4)
           (sysout ''A string %s, A character %c and an integer %d walks into a bar.''
             [VStr s, VInt (of_char c), VInt n])))))"

section \<open>Integers\<close>

lemma digit_buf_dec: "0 < n \<Longrightarrow> rev (digit_buf n) = dec_nat n"
proof (induction n rule: dec_nat.induct)
  case (1 n)
  show ?case
  proof (cases "n < 10")
    case True
    then have "digit_buf (n div 10) = []" by (subst digit_buf.simps) simp
    then show ?thesis using True 1(2) by (subst digit_buf.simps, subst dec_nat.simps) simp
  next
    case False
    then have "rev (digit_buf (n div 10)) = dec_nat (n div 10)" using 1(1) by simp
    then show ?thesis using False by (subst digit_buf.simps, subst dec_nat.simps) simp
  qed
qed

lemma print_int_dec:
  assumes "- 2147483648 < n" and "n \<le> 2147483647"
  shows "print_int n = Inr (dec_int n)"
proof -
  let ?m = "nat (if n < 0 then - n else n)"
  have "?m < 10 ^ 10" using assms by auto
  then have l: "length (dec_nat ?m) \<le> 10" by (intro length_dec_nat) simp_all
  show ?thesis
  proof (cases "?m = 0")
    case True
    then have "n = 0" by (auto split: if_splits)
    then show ?thesis by (simp add: print_int_def print_char_def dec_int_def dec_nat.simps)
  next
    case False
    then have r: "rev (digit_buf ?m) = dec_nat ?m" by (intro digit_buf_dec) simp
    then have "length (digit_buf ?m) = length (dec_nat ?m)" by (metis length_rev)
    then show ?thesis
      using assms(1) False l r unfolding print_int_def Let_def dec_int_def by auto
  qed
qed

text \<open>
  Printing an integer: for every \<^verbatim>\<open>int\<close> but the smallest, the twelve-byte buffer suffices and what is
  written is the decimal representation with its sign; for the smallest the negation overflows.
\<close>

theorem print_int_decimal:
  assumes "- 2147483648 \<le> n" and "n \<le> 2147483647"
  shows "print_int n = (if n = - 2147483648 then Inl Signed_Overflow else Inr (dec_int n))"
  using print_int_dec [of n] assms by (auto simp: print_int_def)

theorem print_int_decimal_witness:
  "print_int (- 42) = Inr ''-42''"
  using print_int_decimal [of "- 42"] by (simp add: dec_int_def dec_nat.simps digit_simps)

section \<open>Formats\<close>

text \<open>A well-formed format is a list of pieces; each has a text, arguments and an output.\<close>

datatype piece = PlainP string | CharP char | StrP string | IntP int

fun piece_text :: "piece \<Rightarrow> string" where
  "piece_text (PlainP s) = s"
| "piece_text (CharP c) = ''%c''"
| "piece_text (StrP s) = ''%s''"
| "piece_text (IntP n) = ''%d''"

fun piece_args :: "piece \<Rightarrow> vararg list" where
  "piece_args (PlainP s) = []"
| "piece_args (CharP c) = [VInt (of_char c)]"
| "piece_args (StrP s) = [VStr s]"
| "piece_args (IntP n) = [VInt n]"

fun piece_out :: "piece \<Rightarrow> string" where
  "piece_out (PlainP s) = s"
| "piece_out (CharP c) = [c]"
| "piece_out (StrP s) = s"
| "piece_out (IntP n) = dec_int n"

fun piece_ok :: "piece \<Rightarrow> bool" where
  "piece_ok (PlainP s) \<longleftrightarrow> CHR ''%'' \<notin> set s \<and> NUL \<notin> set s"
| "piece_ok (StrP s) \<longleftrightarrow> NUL \<notin> set s"
| "piece_ok (IntP n) \<longleftrightarrow> - 2147483648 \<le> n \<and> n \<le> 2147483647"
| "piece_ok (CharP c) \<longleftrightarrow> True"

lemma sysout_plain:
  "CHR ''%'' \<notin> set s \<Longrightarrow> NUL \<notin> set s \<Longrightarrow> sysout (s @ r) args = map_sum id (\<lambda>t. s @ t) (sysout r args)"
  by (induction s) (auto simp: map_sum_def split: sum.splits)

lemma print_str_id: "NUL \<notin> set s \<Longrightarrow> print_str s = s"
  by (induction s) auto

lemma sysout_piece:
  assumes "piece_ok p" and "p \<noteq> IntP (- 2147483648)"
  shows "sysout (piece_text p @ r) (piece_args p @ as) = map_sum id (\<lambda>t. piece_out p @ t) (sysout r as)"
proof (cases p)
  case (CharP c)
  have "(of_char c :: int) mod 256 = of_char c" by (simp add: of_char_mod_256)
  then have "char_of (nat ((of_char c :: int) mod 256)) = c"
    by (metis char_of_char nat_int of_nat_of_char)
  then show ?thesis
    using CharP by (simp add: convert_def print_char_def map_sum_def split: sum.splits)
next
  case (IntP n)
  then have "print_int n = Inr (dec_int n)" using assms by (intro print_int_dec) auto
  then show ?thesis using IntP by (simp add: convert_def)
qed (use assms in \<open>simp_all add: sysout_plain convert_def print_str_id\<close>)

lemma sysout_least:
  "sysout (piece_text (IntP (- 2147483648)) @ r) (piece_args (IntP (- 2147483648)) @ as) = Inl Signed_Overflow"
  by (simp add: convert_def print_int_def)

text \<open>
  C32: Formatting: a format made of plain text (without percent signs and null bytes) and the
  conversions \<^verbatim>\<open>%c\<close>, \<^verbatim>\<open>%s\<close> and \<^verbatim>\<open>%d\<close>, called with the matching arguments (a character, a string, any
  \<^verbatim>\<open>int\<close>), prints the text with every conversion replaced by its argument, unless one of the integers is
  the smallest \<^verbatim>\<open>int\<close>: then its negation overflows, which is undefined.
\<close>

theorem sysout_formats:
  assumes "list_all piece_ok ps"
  shows "sysout (concat (map piece_text ps)) (concat (map piece_args ps)) =
    (if IntP (- 2147483648) \<in> set ps then Inl Signed_Overflow else Inr (concat (map piece_out ps)))"
  using assms
proof (induction ps)
  case (Cons p ps)
  then show ?case
    by (cases "p = IntP (- 2147483648)") (auto simp: sysout_piece simp del: piece_text.simps piece_args.simps
        intro: sysout_least)
qed simp

theorem sysout_formats_witness:
  "sysout ''%s=%d'' [VStr ''x'', VInt 7] = Inr ''x=7'' \<and>
   sysout ''%d'' [VInt (- 2147483648)] = Inl Signed_Overflow"
  using sysout_formats [of "[StrP ''x'', PlainP ''='', IntP 7]"] sysout_formats [of "[IntP (- 2147483648)]"]
  by (simp add: dec_int_def dec_nat.simps digit_simps)

text \<open>There is no escape for the percent sign, and one at the end runs past the format.\<close>

lemma sysout_percent:
  "sysout ''%%'' [] = Inr '' ''" "sysout ''100%'' [] = Inl Out_Of_Bounds"
  by (simp_all add: convert_def)

end
