(* ===== verification/Hexditch.thy ===== *)
theory Hexditch
  imports CString
begin

text \<open>
  \<^verbatim>\<open>hexdump-II/hexditch.c\<close>: the dump of a file in rows of 16 bytes and the command line. The bytes are
  read into an array of (signed) \<^verbatim>\<open>char\<close>, so \<^verbatim>\<open>%02x\<close> prints a byte above 127 as the \<^verbatim>\<open>int\<close> it is
  promoted to.
\<close>

section \<open>The program\<close>

definition ESC :: char where
  "ESC = CHR 0x1B"

definition COLOR_RESET :: string where
  "COLOR_RESET = ESC # ''[0m''"

definition COLOR_OFFSET :: string where
  "COLOR_OFFSET = ESC # ''[36m''"

definition COLOR_HEX :: string where
  "COLOR_HEX = ESC # ''[33m''"

definition COLOR_ASCII :: string where
  "COLOR_ASCII = ESC # ''[32m''"

definition colored :: "bool \<Rightarrow> string \<Rightarrow> string" where
  "colored use_color c = (if use_color then c else [])"

definition hex_byte :: "u8 \<Rightarrow> string" where
  "hex_byte b = pad_with CHR ''0'' 2 (hex_nat (unat (scast b :: u32))) @ '' ''"

definition isprint :: "u8 \<Rightarrow> bool" where
  "isprint b \<longleftrightarrow> 32 \<le> unat b \<and> unat b < 127"

definition ascii_byte :: "u8 \<Rightarrow> char" where
  "ascii_byte b = (if isprint b then char_of (unat b) else CHR ''.'')"

definition hex_row :: "bool \<Rightarrow> nat \<Rightarrow> u8 list \<Rightarrow> string" where
  "hex_row use_color offset bytes =
     colored use_color COLOR_OFFSET @ pad_with CHR ''0'' 8 (hex_nat offset) @ [CHR 0x09] @
     colored use_color COLOR_RESET @ colored use_color COLOR_HEX @
     concat (map hex_byte bytes) @ colored use_color COLOR_RESET @ [CHR 0x09] @ ''|'' @
     colored use_color COLOR_ASCII @ map ascii_byte bytes @ colored use_color COLOR_RESET @ ''|'' @ [NL]"

text \<open>\<^verbatim>\<open>fread\<close> delivers 16 bytes at a time, the last time what is left.\<close>

function hexditch :: "bool \<Rightarrow> nat \<Rightarrow> u8 list \<Rightarrow> string" where
  "hexditch use_color offset f =
     (if f = [] then []
      else let bytes = take 16 f
           in hex_row use_color offset bytes @ hexditch use_color (offset + length bytes) (drop 16 f))"
  by pat_completeness auto
termination
  by (relation "measure (\<lambda>(c, n, f). length f)") auto

declare hexditch.simps [simp del]

definition print_help :: "string \<Rightarrow> string" where
  "print_help progname =
     ''----------HEXDITCH------------'' @ [NL, NL] @
     ''Usage: '' @ progname @ '' [--color] <filename>'' @ [NL] @ ''Options:'' @ [NL] @
     ''  --color       Enable colored output'' @ [NL] @
     ''  -h, --help    Show this help message'' @ [NL]"

text \<open>The loop over the arguments: the settings, or the exit code with the output and the errors.\<close>

fun hex_args :: "string \<Rightarrow> string list \<Rightarrow> bool \<Rightarrow> string option \<Rightarrow>
    (int \<times> string \<times> string list) + bool \<times> string option" where
  "hex_args progname [] use_color filename = Inr (use_color, filename)"
| "hex_args progname (a # as) use_color filename =
     (if a = ''--color'' then hex_args progname as True filename
      else if a = ''-h'' \<or> a = ''--help'' then Inl (0, print_help progname, [])
      else if (a = [] \<or> hd a \<noteq> CHR ''-'') \<and> filename = None then hex_args progname as use_color (Some a)
      else Inl (1, print_help progname, [''unknown argument '' @ a]))"

definition hex_main :: "(string \<Rightarrow> u8 list option) \<Rightarrow> string \<Rightarrow> string list \<Rightarrow> int \<times> string \<times> string list" where
  "hex_main fs progname args =
     (case hex_args progname args False None of
        Inl r \<Rightarrow> r
      | Inr (use_color, None) \<Rightarrow> (1, print_help progname, [''No input file given!''])
      | Inr (use_color, Some filename) \<Rightarrow>
          (case fs filename of
             None \<Rightarrow> (1, [], [''Error opening file''])
           | Some f \<Rightarrow> (0, hexditch use_color 0 f, [])))"

section \<open>The rows\<close>

definition chunk :: "u8 list \<Rightarrow> nat \<Rightarrow> u8 list" where
  "chunk f i = take 16 (drop (16 * i) f)"

definition row_count :: "u8 list \<Rightarrow> nat" where
  "row_count f = (length f + 15) div 16"

lemma hexditch_rows:
  "hexditch c (16 * k) f = concat (map (\<lambda>i. hex_row c (16 * (k + i)) (chunk f i)) [0..<row_count f])"
proof (induction f arbitrary: k rule: measure_induct_rule [of length])
  case (less f)
  show ?case
  proof (cases "f = []")
    case True
    then show ?thesis by (subst hexditch.simps) (simp add: row_count_def)
  next
    case False
    show ?thesis
    proof (cases "length f \<le> 16")
      case True
      then have r: "row_count f = 1" and d: "drop 16 f = []" "take 16 f = f"
        using False by (cases f; simp add: row_count_def)+
      have "hexditch c n [] = []" for n by (subst hexditch.simps) simp
      then show ?thesis using False d r by (subst hexditch.simps) (simp add: Let_def chunk_def)
    next
      case False
      have r: "row_count f = Suc (row_count (drop 16 f))"
        using False by (simp add: row_count_def)
      have ch: "chunk f (Suc i) = chunk (drop 16 f) i" "chunk f 0 = take 16 f" for i
        by (simp_all add: chunk_def add.commute)
      have "hexditch c (16 * k) f = hex_row c (16 * k) (take 16 f) @ hexditch c (16 * (k + 1)) (drop 16 f)"
        using False by (subst hexditch.simps) (auto simp: Let_def add.commute)
      also have "hexditch c (16 * (k + 1)) (drop 16 f) =
          concat (map (\<lambda>i. hex_row c (16 * (k + 1 + i)) (chunk (drop 16 f) i)) [0..<row_count (drop 16 f)])"
        by (rule less.IH) (use False in simp)
      finally show ?thesis
        unfolding r upt_conv_Cons [OF zero_less_Suc] map_Suc_upt [symmetric]
        by (simp add: ch comp_def ac_simps del: upt_Suc)
    qed
  qed
qed

lemma chunks: "concat (map (chunk f) [0..<row_count f]) = f"
proof (induction f rule: measure_induct_rule [of length])
  case (less f)
  show ?case
  proof (cases "f = []")
    case True
    then show ?thesis by (simp add: row_count_def)
  next
    case False
    then have l: "length (drop 16 f) < length f" by simp
    have r: "row_count f = Suc (row_count (drop 16 f))"
      using False by (cases "length f \<le> 16"; cases f) (auto simp: row_count_def)
    have ch: "chunk f (Suc i) = chunk (drop 16 f) i" "chunk f 0 = take 16 f" for i
      by (simp_all add: chunk_def add.commute)
    have "concat (map (chunk f) [0..<row_count f]) =
        take 16 f @ concat (map (chunk (drop 16 f)) [0..<row_count (drop 16 f)])"
      unfolding r upt_conv_Cons [OF zero_less_Suc] map_Suc_upt [symmetric]
      by (simp add: ch comp_def del: upt_Suc)
    then show ?thesis using less.IH [OF l] by simp
  qed
qed

text \<open>
  The dump: with the name of a readable file as its only argument the program returns 0, reports
  nothing and prints one row per 16 bytes of the file, each with its offset; the rows' bytes are
  the bytes of the file, in order.
\<close>

theorem hexditch_dump:
  assumes "name \<noteq> []" and "hd name \<noteq> CHR ''-''" and "fs name = Some f"
  shows "hex_main fs prog [name] =
      (0, concat (map (\<lambda>i. hex_row False (16 * i) (chunk f i)) [0..<row_count f]), []) \<and>
    concat (map (chunk f) [0..<row_count f]) = f"
proof -
  have "name \<noteq> ''--color''" "name \<noteq> ''-h''" "name \<noteq> ''--help''" using assms(2) by auto
  then show ?thesis
    using assms hexditch_rows [of False 0 f] by (simp add: hex_main_def chunks)
qed

theorem hexditch_dump_witness:
  "hex_main [''f'' \<mapsto> [0x41, 7]] ''hd'' [''f''] =
    (0, concat (map (\<lambda>i. hex_row False (16 * i) (chunk [0x41, 7] i)) [0..<row_count [0x41, 7]]), []) \<and>
   concat (map (chunk [0x41, 7]) [0..<row_count [0x41, 7]]) = [0x41, 7 :: u8]"
  by (rule hexditch_dump) simp_all

text \<open>A byte above 127 is printed with the six digits of its sign, which breaks the columns.\<close>

lemma high_byte: "hex_byte 0x7F = ''7f ''" "hex_byte 0x80 = ''ffffff80 ''"
  by (simp_all add: hex_byte_def pad_with_def hex_nat.simps hex_digit_def char_of_def bit_Suc_0_iff)

end
