(* ===== verification/HexRead.thy ===== *)
theory HexRead
  imports Hexditch
begin

text \<open>
  The dump of \<^verbatim>\<open>hexdump-II/hexditch.c\<close> read back: every byte of the file can be recovered from it, with
  and without colours, those above 127 included.
\<close>

section \<open>Reading hexadecimal numbers\<close>

definition digit_value :: "char \<Rightarrow> nat" where
  "digit_value c = (if (of_char c :: nat) < 58 then of_char c - 48 else of_char c - 87)"

text \<open>The last two digits of a word; what precedes them are sign digits or a colour.\<close>

definition byte_value :: "string \<Rightarrow> u8" where
  "byte_value w = (case rev w of y # x # _ \<Rightarrow> of_nat (16 * digit_value x + digit_value y) | _ \<Rightarrow> 0)"

datatype column = Offset | Bytes string | Text

fun undump :: "column \<Rightarrow> string \<Rightarrow> u8 list" where
  "undump p [] = []"
| "undump Offset (c # s) = undump (if c = CHR 0x09 then Bytes [] else Offset) s"
| "undump (Bytes w) (c # s) =
     (if c = CHR '' '' then byte_value w # undump (Bytes []) s
      else undump (if c = CHR 0x09 then Text else Bytes (w @ [c])) s)"
| "undump Text (c # s) = undump (if c = NL then Offset else Text) s"

lemma hex_digits:
  assumes "d < 16"
  shows "digit_value (hex_digit d) = d" and "hex_digit d \<noteq> CHR '' ''" and "hex_digit d \<noteq> CHR 0x09"
proof -
  have v: "of_char (hex_digit d) = (if d < 10 then 48 + d else 87 + d)"
    using assms by (simp add: hex_digit_def digit_def)
  show "digit_value (hex_digit d) = d" using assms by (simp add: digit_value_def v)
  have "(of_char (hex_digit d) :: nat) \<noteq> of_char CHR '' ''" "(of_char (hex_digit d) :: nat) \<noteq> of_char CHR 0x09"
    unfolding v by simp_all
  then show "hex_digit d \<noteq> CHR '' ''" "hex_digit d \<noteq> CHR 0x09" by auto
qed

definition columns :: "string \<Rightarrow> bool" where
  "columns s \<longleftrightarrow> CHR '' '' \<notin> set s \<and> CHR 0x09 \<notin> set s"

lemma columns_simps [simp]:
  "columns []" "columns (c # s) \<longleftrightarrow> c \<noteq> CHR '' '' \<and> c \<noteq> CHR 0x09 \<and> columns s"
  "columns (s @ t) \<longleftrightarrow> columns s \<and> columns t"
  by (auto simp: columns_def)

lemma columns_replicate [simp]: "columns (replicate n CHR ''0'')"
  by (induction n) simp_all

lemma columns_hex_nat [simp]: "columns (hex_nat n)"
proof (induction n rule: hex_nat.induct)
  case (1 n)
  then show ?case using hex_digits(2,3) by (subst hex_nat.simps) simp
qed

lemma hex_nat_two: "16 \<le> n \<Longrightarrow> \<exists>pre. hex_nat n = pre @ [hex_digit (n div 16 mod 16), hex_digit (n mod 16)]"
  by (subst hex_nat.simps, subst hex_nat.simps) auto

lemma signed_byte: "unat (scast b :: u32) mod 256 = unat (b :: u8)"
proof -
  have b: "ucast (scast b :: u32) = b" by (rule bit_word_eqI) (auto simp: bit_simps)
  have "unat (ucast (scast b :: u32) :: u8) = unat (scast b :: u32) mod 256"
    by (simp add: unsigned_ucast_eq take_bit_eq_mod)
  then show ?thesis by (simp add: b)
qed

lemma hex_byte_two:
  "\<exists>pre x y. hex_byte b = pre @ [x, y, CHR '' ''] \<and> columns pre \<and> columns [x, y] \<and>
    (of_nat (16 * digit_value x + digit_value y) :: u8) = b"
proof -
  let ?n = "unat (scast b :: u32)"
  let ?x = "hex_digit (?n div 16 mod 16)" and ?y = "hex_digit (?n mod 16)"
  have v: "16 * digit_value ?x + digit_value ?y = unat b"
  proof -
    have "16 * (?n div 16 mod 16) + ?n mod 16 = ?n mod 256"
      using mod_mult2_eq [of ?n 16 16] by simp
    then show ?thesis by (simp add: hex_digits(1) signed_byte)
  qed
  obtain pre where "hex_byte b = pre @ [?x, ?y, CHR '' '']" "columns pre"
  proof (cases "?n < 16")
    case True
    then have "hex_byte b = [] @ [?x, ?y, CHR '' '']"
      by (simp add: hex_byte_def pad_with_def hex_nat.simps hex_digit_def digit_simps)
    then show ?thesis using that by simp
  next
    case False
    then obtain p where p: "hex_nat ?n = p @ [?x, ?y]" using hex_nat_two [of ?n] by auto
    then have "columns p" using columns_hex_nat [of ?n] by simp
    then show ?thesis using that [of p] p by (simp add: hex_byte_def pad_with_def)
  qed
  moreover have "columns [?x, ?y]" using hex_digits(2,3) by simp
  moreover have "(of_nat (16 * digit_value ?x + digit_value ?y) :: u8) = b" unfolding v by simp
  ultimately show ?thesis by blast
qed

section \<open>Reading rows\<close>

lemma undump_word: "columns s \<Longrightarrow> undump (Bytes w) (s @ t) = undump (Bytes (w @ s)) t"
  by (induction s arbitrary: w) auto

lemma undump_byte: "undump (Bytes w) (hex_byte b @ t) = b # undump (Bytes []) t"
proof -
  obtain pre x y where h: "hex_byte b = pre @ [x, y, CHR '' '']" "columns pre" "columns [x, y]"
      "(of_nat (16 * digit_value x + digit_value y) :: u8) = b"
    using hex_byte_two by blast
  have "hex_byte b @ t = (pre @ [x, y]) @ CHR '' '' # t" by (simp add: h(1))
  moreover have "columns (pre @ [x, y])" using h(2,3) by simp
  ultimately show ?thesis using undump_word [of "pre @ [x, y]" w "CHR '' '' # t"] h(4) by (simp add: byte_value_def)
qed

lemma undump_bytes: "undump (Bytes []) (concat (map hex_byte bs) @ t) = bs @ undump (Bytes []) t"
  by (induction bs) (simp_all add: undump_byte)

lemma undump_offset: "CHR 0x09 \<notin> set s \<Longrightarrow> undump Offset (s @ CHR 0x09 # t) = undump (Bytes []) t"
  by (induction s) auto

lemma undump_text: "NL \<notin> set s \<Longrightarrow> undump Text (s @ NL # t) = undump Offset t"
  by (induction s) auto

lemma ascii_printable: "ascii_byte b \<noteq> NL"
proof -
  have "(of_char (ascii_byte b) :: nat) \<noteq> of_char NL" by (auto simp: ascii_byte_def isprint_def)
  then show ?thesis by auto
qed

lemma colors [simp]: "columns (colored c COLOR_RESET)" "columns (colored c COLOR_HEX)" "columns (colored c COLOR_OFFSET)"
  "NL \<notin> set (colored c COLOR_RESET)" "NL \<notin> set (colored c COLOR_ASCII)"
  by (auto simp: colored_def COLOR_RESET_def COLOR_HEX_def COLOR_OFFSET_def COLOR_ASCII_def ESC_def)

lemma undump_row:
  assumes "bs \<noteq> []"
  shows "undump Offset (hex_row c n bs @ t) = bs @ undump Offset t"
proof -
  obtain b bs' where bs: "bs = b # bs'" using assms by (cases bs) auto
  let ?off = "colored c COLOR_OFFSET @ pad_with CHR ''0'' 8 (hex_nat n)"
  let ?pre = "colored c COLOR_RESET @ colored c COLOR_HEX" and ?reset = "colored c COLOR_RESET"
  let ?text = "''|'' @ colored c COLOR_ASCII @ map ascii_byte bs @ ?reset @ ''|''"
  have "columns ?off" by (simp add: pad_with_def)
  then have off: "CHR 0x09 \<notin> set ?off" by (simp add: columns_def)
  have no_nl: "NL \<notin> set ?text" using not_sym [OF ascii_printable] by auto
  have "undump Offset (hex_row c n bs @ t) =
      undump (Bytes []) (?pre @ hex_byte b @ concat (map hex_byte bs') @ ?reset @ CHR 0x09 # ?text @ NL # t)"
    using undump_offset [OF off] by (simp add: hex_row_def bs)
  also have "\<dots> = b # undump (Bytes []) (concat (map hex_byte bs') @ ?reset @ CHR 0x09 # ?text @ NL # t)"
    using undump_word [of ?pre "[]"] by (simp add: undump_byte)
  also have "\<dots> = bs @ undump (Bytes []) (?reset @ CHR 0x09 # ?text @ NL # t)"
    by (simp only: undump_bytes bs append_Cons)
  also have "undump (Bytes []) (?reset @ CHR 0x09 # ?text @ NL # t) = undump Text (?text @ NL # t)"
    using undump_word [of ?reset "[]"] by simp
  also have "\<dots> = undump Offset t" by (rule undump_text [OF no_nl])
  finally show ?thesis .
qed

lemma undump_dump: "undump Offset (hexditch c n f) = f"
proof (induction c n f rule: hexditch.induct)
  case (1 c n f)
  show ?case
  proof (cases "f = []")
    case True
    then show ?thesis by (subst hexditch.simps) simp
  next
    case False
    then have "undump Offset (hexditch c (n + length (take 16 f)) (drop 16 f)) = drop 16 f" using 1 by simp
    then show ?thesis using False undump_row [of "take 16 f"] by (subst hexditch.simps) (simp add: Let_def)
  qed
qed

text \<open>
  C33: The dump: with the name of a readable file as its argument, after any \<^verbatim>\<open>--color\<close> options, the program
  returns 0 without a report; what it prints is a row for every 16 bytes, in order, each with its
  offset; and nothing of the file is lost in it: reading the hexadecimal columns back gives the bytes of
  the file, those above 127 included, so files with the same dump are equal.
\<close>

theorem hexditch_restores:
  assumes "name \<noteq> []" and "hd name \<noteq> CHR ''-''" and "fs name = Some f"
  shows "\<exists>dump. hex_main fs prog (replicate k ''--color'' @ [name]) = (0, dump, []) \<and>
    dump = concat (map (\<lambda>i. hex_row (k \<noteq> 0) (16 * i) (chunk f i)) [0..<row_count f]) \<and>
    undump Offset dump = f"
proof -
  have n: "name \<noteq> ''--color''" "name \<noteq> ''-h''" "name \<noteq> ''--help''" using assms(2) by auto
  have "hex_args prog (replicate k ''--color'' @ [name]) u None = Inr (u \<or> k \<noteq> 0, Some name)" for u
    using n assms(1,2) by (induction k arbitrary: u) auto
  then have "hex_main fs prog (replicate k ''--color'' @ [name]) = (0, hexditch (k \<noteq> 0) 0 f, [])"
    using assms(3) by (simp add: hex_main_def)
  then show ?thesis using hexditch_rows [of "k \<noteq> 0" 0 f] undump_dump [of "k \<noteq> 0" 0 f] by simp
qed

theorem hexditch_restores_witness:
  "\<exists>dump. hex_main [''f'' \<mapsto> [0x41, 0xFF]] ''hd'' [''--color'', ''f''] = (0, dump, []) \<and>
    undump Offset dump = [0x41, 0xFF]"
  using hexditch_restores [of "''f''" "[''f'' \<mapsto> [0x41, 0xFF]]" "[0x41, 0xFF]" "''hd''" 1] by auto

end
