(* ===== verification/TcpChat.thy ===== *)
theory TcpChat
  imports CString
begin

text \<open>
  \<^verbatim>\<open>TCP-chat-server/server.c\<close> and \<^verbatim>\<open>client.c\<close>: what one connection does with the results of its
  successive \<^verbatim>\<open>recv\<close> calls, the client's loop, and the server's accept loop. A list of results that ends
  stands for a call that has not returned yet. A \<^verbatim>\<open>send\<close> may fail or take only some of the bytes.
  \<^verbatim>\<open>perror\<close> is recorded by its prefix. Signals are not modelled: \<^verbatim>\<open>SIGPIPE\<close>, which a \<^verbatim>\<open>send\<close> to an end that
  has closed raises, would end the process there.
\<close>

section \<open>The server\<close>

definition PORT :: nat where
  "PORT = 8000"

text \<open>What \<^verbatim>\<open>recv\<close> returns: at least one byte and at most the size asked for, 0, or -1.\<close>

datatype recv_result = Received string | Disconnected | Recv_Failed

record chat =
  chat_out :: string
  chat_err :: "string list"
  sent :: "string list"
  closed :: bool

definition chat_init :: chat where
  "chat_init = \<lparr>chat_out = [], chat_err = [], sent = [], closed = False\<rparr>"

text \<open>
  A message of the client: the buffer is zeroed before each call, so only a message that fills it has
  no terminator. \<open>k\<close> is how many bytes \<^verbatim>\<open>send\<close> takes, none when it fails; its result is not looked at.
  \<open>sent\<close> holds what each \<^verbatim>\<open>send\<close> has taken.
\<close>

definition echo_message :: "nat \<Rightarrow> string \<Rightarrow> chat \<Rightarrow> chat outcome" where
  "echo_message k bs st =
     (let buffer = bs @ replicate (1024 - length bs) NUL
      in if NUL \<notin> set buffer then Inl Out_Of_Bounds
         else Inr (st\<lparr>chat_out := chat_out st @ ''Received: '' @ cstr buffer @ [NL],
                      sent := sent st @ [take k (cstr buffer)]\<rparr>))"

definition end_connection :: "chat \<Rightarrow> chat" where
  "end_connection st = st\<lparr>chat_out := chat_out st @ ''[#] Client disconnected'' @ [NL], closed := True\<rparr>"

text \<open>\<open>takes i\<close> is the number of bytes the \<open>i\<close>-th \<^verbatim>\<open>send\<close> takes.\<close>

fun handle_client :: "(nat \<Rightarrow> nat) \<Rightarrow> recv_result list \<Rightarrow> chat \<Rightarrow> chat outcome" where
  "handle_client takes [] st = Inr st"
| "handle_client takes (Disconnected # rs) st = Inr (end_connection st)"
| "handle_client takes (Recv_Failed # rs) st =
     Inr (st\<lparr>chat_err := chat_err st @ [''[$] recv FAILED''], closed := True\<rparr>)"
| "handle_client takes (Received bs # rs) st =
     and_then (echo_message (takes (length (sent st))) bs st) (handle_client takes rs)"

record server_env =
  socket_ok :: bool
  bind_ok :: bool
  listen_ok :: bool
  malloc_ok :: bool
  thread_ok :: "nat \<Rightarrow> bool"

record server_state =
  server_out :: string
  server_err :: "string list"
  handled :: "int list"

text \<open>The results of \<^verbatim>\<open>accept\<close>: a negative one is reported and the loop goes on.\<close>

fun accept_loop :: "server_env \<Rightarrow> nat \<Rightarrow> int list \<Rightarrow> server_state \<Rightarrow> server_state outcome" where
  "accept_loop E i [] st = Inr st"
| "accept_loop E i (sock # socks) st =
     (if sock < 0 then accept_loop E (i + 1) socks (st\<lparr>server_err := server_err st @ [''[$] ACCEPT FAILED!'']\<rparr>)
      else
        let st1 = st\<lparr>server_out := server_out st @ ''Clinet connected'' @ [NL]\<rparr>
        in if \<not> malloc_ok E then Inl Null_Deref
           else if thread_ok E i then accept_loop E (i + 1) socks (st1\<lparr>handled := handled st1 @ [sock]\<rparr>)
           else accept_loop E (i + 1) socks (st1\<lparr>server_err := server_err st1 @ [''Thread creation failed!'']\<rparr>))"

text \<open>The exit code, if the program ends, and the state.\<close>

definition server_main :: "server_env \<Rightarrow> int list \<Rightarrow> (int option \<times> server_state) outcome" where
  "server_main E socks =
     (let st = \<lparr>server_out = [], server_err = [], handled = []\<rparr>
      in if \<not> socket_ok E then Inr (Some (-1), st\<lparr>server_err := [''Socket failed'']\<rparr>)
         else if \<not> bind_ok E then Inr (Some (-1), st\<lparr>server_err := [''[$] BIND FAILED!'']\<rparr>)
         else if \<not> listen_ok E then Inr (Some (-1), st\<lparr>server_err := [''[$] LISTEN FAILED!'']\<rparr>)
         else map_sum id (Pair None) (accept_loop E 0 socks
           (st\<lparr>server_out := ''Server is listening on port '' @ dec_nat PORT @ ''...'' @ [NL]\<rparr>)))"

section \<open>The client\<close>

definition BUFFER_SIZE :: nat where
  "BUFFER_SIZE = 1024"

record client =
  buffer :: "string option"
  stdin :: string
  client_out :: string
  client_err :: "string list"
  client_sent :: "string list"

text \<open>
  The first half of an iteration: the prompt and the line to send. The result of \<^verbatim>\<open>fgets\<close> is not looked
  at: at end of input the buffer keeps what it had, which is nothing at first.
\<close>

definition client_compose :: "client \<Rightarrow> (string \<times> client) outcome" where
  "client_compose st =
     (let st1 = st\<lparr>client_out := client_out st @ ''Enter a message to send: ''\<rparr>;
          st2 = (case fgets BUFFER_SIZE (stdin st1) of
                   None \<Rightarrow> st1
                 | Some (l, rest) \<Rightarrow> st1\<lparr>buffer := Some l, stdin := rest\<rparr>)
      in case buffer st2 of None \<Rightarrow> Inl Uninit_Read | Some b \<Rightarrow> Inr (cstr b, st2))"

text \<open>The second half: the echo; the flag says whether the loop goes on.\<close>

definition client_receive :: "recv_result \<Rightarrow> client \<Rightarrow> (bool \<times> client) outcome" where
  "client_receive r st =
     (case r of
        Received bs \<Rightarrow>
          if BUFFER_SIZE \<le> length bs then Inl Out_Of_Bounds
          else Inr (True, st\<lparr>buffer := Some bs, client_out := client_out st @ ''Server echoed: '' @ cstr bs @ [NL]\<rparr>)
      | _ \<Rightarrow> Inr (False, st\<lparr>client_out := client_out st @ ''Server disconnected or error!'' @ [NL]\<rparr>))"

text \<open>What \<^verbatim>\<open>send\<close> has taken.\<close>

definition client_message :: "string \<Rightarrow> client \<Rightarrow> client" where
  "client_message m st = st\<lparr>client_sent := client_sent st @ [m]\<rparr>"

definition client_refused :: "client \<Rightarrow> client" where
  "client_refused st = st\<lparr>client_err := client_err st @ [''Send failed!'']\<rparr>"

text \<open>One iteration per result of \<^verbatim>\<open>recv\<close>; \<open>takes i\<close> is what the \<open>i\<close>-th \<^verbatim>\<open>send\<close> takes, if it does not fail.\<close>

fun client_loop :: "(nat \<Rightarrow> nat option) \<Rightarrow> recv_result list \<Rightarrow> client \<Rightarrow> client outcome" where
  "client_loop takes [] st = Inr st"
| "client_loop takes (r # rs) st =
     and_then (client_compose st) (\<lambda>(m, st2).
       case takes (length (client_sent st2)) of
         None \<Rightarrow> Inr (client_refused st2)
       | Some k \<Rightarrow> and_then (client_receive r (client_message (take k m) st2)) (\<lambda>(go_on, st3).
           if go_on then client_loop takes rs st3 else Inr st3))"

definition client_init :: "string \<Rightarrow> client" where
  "client_init input = \<lparr>buffer = None, stdin = input, client_out = [], client_err = [], client_sent = []\<rparr>"

definition client_main :: "bool \<Rightarrow> bool \<Rightarrow> (nat \<Rightarrow> nat option) \<Rightarrow> recv_result list \<Rightarrow> string \<Rightarrow> (int \<times> client) outcome" where
  "client_main sock_ok connect_ok takes rs input =
     (let st = client_init input
      in if \<not> sock_ok then Inr (-1, st\<lparr>client_err := [''Socket failed!'']\<rparr>)
         else if \<not> connect_ok then Inr (1, st\<lparr>client_err := [''Connection failed!'']\<rparr>)
         else map_sum id (Pair 0) (client_loop takes rs st))"

section \<open>The echo\<close>

definition text_message :: "string \<Rightarrow> bool" where
  "text_message m \<longleftrightarrow> 0 < length m \<and> length m < 1024 \<and> NUL \<notin> set m"

lemma cstr_padded: "NUL \<notin> set m \<Longrightarrow> cstr (m @ replicate (Suc k) NUL) = m"
  by (simp add: cstr_def takeWhile_append)

text \<open>
  The echo: as long as a client's messages arrive in pieces of less than 1024 bytes without a null
  byte and each \<^verbatim>\<open>send\<close> takes all it is given, the server sends back exactly these pieces, in order, logs
  each, and when the client goes it closes the connection; a piece of 1024 bytes without a null byte
  makes it read past its buffer.
\<close>

theorem server_echoes:
  assumes "list_all text_message ms" and "\<And>i. i < length ms \<Longrightarrow> length (ms ! i) \<le> takes i"
  shows "handle_client takes (map Received ms @ [Disconnected]) chat_init =
      Inr \<lparr>chat_out = concat (map (\<lambda>m. ''Received: '' @ m @ [NL]) ms) @ ''[#] Client disconnected'' @ [NL],
        chat_err = [], sent = ms, closed = True\<rparr> \<and>
    (length b = 1024 \<longrightarrow> NUL \<notin> set b \<longrightarrow>
      handle_client takes (map Received ms @ [Received b]) chat_init = Inl Out_Of_Bounds)"
proof -
  have run: "handle_client takes (map Received ms @ rs) st =
      handle_client takes rs (st\<lparr>chat_out := chat_out st @ concat (map (\<lambda>m. ''Received: '' @ m @ [NL]) ms),
        sent := sent st @ ms\<rparr>)"
    if "list_all text_message ms" "\<And>i. i < length ms \<Longrightarrow> length (ms ! i) \<le> takes (length (sent st) + i)" for ms rs st
    using that
  proof (induction ms arbitrary: st)
    case Nil
    then show ?case by simp
  next
    case (Cons m ms)
    then obtain k where k: "1024 - length m = Suc k"
      by (auto simp: text_message_def dest!: less_imp_Suc_add)
    have "NUL \<notin> set m" using Cons.prems by (simp add: text_message_def)
    then have c: "cstr (m @ replicate (1024 - length m) NUL) = m" unfolding k by (rule cstr_padded)
    have t: "length m \<le> takes (length (sent st))" using Cons.prems(2) [of 0] by simp
    have "echo_message (takes (length (sent st))) m st =
        Inr (st\<lparr>chat_out := chat_out st @ ''Received: '' @ m @ [NL], sent := sent st @ [m]\<rparr>)"
      using c k t by (simp add: echo_message_def Let_def)
    moreover have "length (ms ! i) \<le> takes (length (sent st @ [m]) + i)" if "i < length ms" for i
      using Cons.prems(2) [of "Suc i"] that by simp
    ultimately show ?case using Cons by simp
  qed
  show ?thesis using run [OF assms(1), of chat_init] assms(2)
    by (simp add: chat_init_def end_connection_def echo_message_def)
qed

theorem server_echoes_witness:
  "handle_client (\<lambda>_. 2000) [Received ''hi'', Disconnected] chat_init =
    Inr \<lparr>chat_out = ''Received: hi'' @ [NL] @ ''[#] Client disconnected'' @ [NL], chat_err = [],
      sent = [''hi''], closed = True\<rparr> \<and>
   handle_client (\<lambda>_. 2000) [Received ''hi'', Received (replicate 1024 CHR ''x'')] chat_init = Inl Out_Of_Bounds"
  using server_echoes [of "[''hi'']" "\<lambda>_. 2000" "replicate 1024 CHR ''x''"] by (simp add: text_message_def)

end
