(* ===== verification/TcpEcho.thy ===== *)
theory TcpEcho
  imports TcpChat "HOL-Library.Sublist"
begin

text \<open>
  The client and the server of \<^verbatim>\<open>TCP-chat-server/\<close> together: one connection as a step relation over the
  two byte streams of a socket, which deliver bytes in order, in pieces of any size. What a \<^verbatim>\<open>send\<close> does
  not take is lost: neither end sends it again.
\<close>

section \<open>A connection\<close>

datatype client_phase = To_Send | To_Receive | Left

text \<open>
  \<open>up\<close> and \<open>down\<close> are the bytes under way; \<open>got\<close> are the pieces the client has received. \<open>whole\<close>, which no
  program keeps, says that every \<^verbatim>\<open>send\<close> that did not make the client leave took all it was given.
\<close>

record connection =
  peer :: client
  at :: client_phase
  serving :: chat
  up :: string
  down :: string
  got :: "string list"
  whole :: bool

text \<open>
  A step is one system call with the code up to the next one. A \<^verbatim>\<open>recv\<close> takes at least one byte, at
  most the 1024 of the buffer; a \<^verbatim>\<open>send\<close> takes up to \<open>k\<close> bytes. When the other end has closed, what is
  under way is still delivered. First the client's loop.
\<close>

inductive client_step :: "connection \<Rightarrow> connection \<Rightarrow> bool" where
  client_sends: "at s = To_Send \<Longrightarrow> client_compose (peer s) = Inr (m, c) \<Longrightarrow>
     client_step s (s\<lparr>peer := client_message (take k m) c, at := To_Receive, up := up s @ take k m,
       whole := whole s \<and> length m \<le> k\<rparr>)"
| client_send_fails: "at s = To_Send \<Longrightarrow> client_compose (peer s) = Inr (m, c) \<Longrightarrow>
     client_step s (s\<lparr>peer := client_refused c, at := Left\<rparr>)"
| client_receives: "at s = To_Receive \<Longrightarrow> down s = m @ rest \<Longrightarrow> m \<noteq> [] \<Longrightarrow> length m \<le> BUFFER_SIZE \<Longrightarrow>
     client_receive (Received m) (peer s) = Inr (go_on, c) \<Longrightarrow>
     client_step s (s\<lparr>peer := c, at := To_Send, down := rest, got := got s @ [m]\<rparr>)"
| client_told: "at s = To_Receive \<Longrightarrow> closed (serving s) \<Longrightarrow> down s = [] \<Longrightarrow>
     client_receive Disconnected (peer s) = Inr (go_on, c) \<Longrightarrow>
     client_step s (s\<lparr>peer := c, at := Left\<rparr>)"
| client_recv_fails: "at s = To_Receive \<Longrightarrow> client_receive Recv_Failed (peer s) = Inr (go_on, c) \<Longrightarrow>
     client_step s (s\<lparr>peer := c, at := Left\<rparr>)"

text \<open>The loop of the server's thread: when its \<^verbatim>\<open>send\<close> fails (\<open>k = 0\<close>) or is short, it goes on all the same.\<close>

inductive server_step :: "connection \<Rightarrow> connection \<Rightarrow> bool" where
  server_echoes: "\<not> closed (serving s) \<Longrightarrow> up s = m @ rest \<Longrightarrow> m \<noteq> [] \<Longrightarrow> length m \<le> 1024 \<Longrightarrow>
     echo_message k m (serving s) = Inr v \<Longrightarrow>
     server_step s (s\<lparr>serving := v, up := rest, down := down s @ last (sent v),
       whole := whole s \<and> length (cstr m) \<le> k\<rparr>)"
| server_told: "\<not> closed (serving s) \<Longrightarrow> at s = Left \<Longrightarrow> up s = [] \<Longrightarrow>
     server_step s (s\<lparr>serving := end_connection (serving s)\<rparr>)"
| server_recv_fails: "\<not> closed (serving s) \<Longrightarrow>
     handle_client takes [Recv_Failed] (serving s) = Inr v \<Longrightarrow>
     server_step s (s\<lparr>serving := v\<rparr>)"

inductive connection_step :: "connection \<Rightarrow> connection \<Rightarrow> bool" where
  client_moves: "client_step s s' \<Longrightarrow> connection_step s s'"
| server_moves: "server_step s s' \<Longrightarrow> connection_step s s'"

lemmas client_moves_by = client_step.intros [THEN client_moves]

lemmas server_moves_by = server_step.intros [THEN server_moves]

lemma connection_cases [consumes 1, case_names client_sends client_send_fails client_receives client_told
    client_recv_fails server_echoes server_told server_recv_fails]:
  assumes "connection_step s s'"
    and "\<And>m c k. s' = s\<lparr>peer := client_message (take k m) c, at := To_Receive, up := up s @ take k m,
        whole := whole s \<and> length m \<le> k\<rparr> \<Longrightarrow> at s = To_Send \<Longrightarrow> client_compose (peer s) = Inr (m, c) \<Longrightarrow> P"
    and "\<And>m c. s' = s\<lparr>peer := client_refused c, at := Left\<rparr> \<Longrightarrow> at s = To_Send \<Longrightarrow>
      client_compose (peer s) = Inr (m, c) \<Longrightarrow> P"
    and "\<And>m rest go_on c. s' = s\<lparr>peer := c, at := To_Send, down := rest, got := got s @ [m]\<rparr> \<Longrightarrow>
      at s = To_Receive \<Longrightarrow> down s = m @ rest \<Longrightarrow> m \<noteq> [] \<Longrightarrow> length m \<le> BUFFER_SIZE \<Longrightarrow>
      client_receive (Received m) (peer s) = Inr (go_on, c) \<Longrightarrow> P"
    and "\<And>go_on c. s' = s\<lparr>peer := c, at := Left\<rparr> \<Longrightarrow> at s = To_Receive \<Longrightarrow> closed (serving s) \<Longrightarrow> down s = [] \<Longrightarrow>
      client_receive Disconnected (peer s) = Inr (go_on, c) \<Longrightarrow> P"
    and "\<And>go_on c. s' = s\<lparr>peer := c, at := Left\<rparr> \<Longrightarrow> at s = To_Receive \<Longrightarrow>
      client_receive Recv_Failed (peer s) = Inr (go_on, c) \<Longrightarrow> P"
    and "\<And>m rest v k. s' = s\<lparr>serving := v, up := rest, down := down s @ last (sent v),
        whole := whole s \<and> length (cstr m) \<le> k\<rparr> \<Longrightarrow> \<not> closed (serving s) \<Longrightarrow> up s = m @ rest \<Longrightarrow> m \<noteq> [] \<Longrightarrow>
      length m \<le> 1024 \<Longrightarrow> echo_message k m (serving s) = Inr v \<Longrightarrow> P"
    and "s' = s\<lparr>serving := end_connection (serving s)\<rparr> \<Longrightarrow> \<not> closed (serving s) \<Longrightarrow> at s = Left \<Longrightarrow> up s = [] \<Longrightarrow> P"
    and "\<And>takes v. s' = s\<lparr>serving := v\<rparr> \<Longrightarrow> \<not> closed (serving s) \<Longrightarrow>
      handle_client takes [Recv_Failed] (serving s) = Inr v \<Longrightarrow> P"
  shows P
  using assms(1)
proof cases
  case client_moves
  then show ?thesis by cases (use assms(2-6) in blast)+
next
  case server_moves
  then show ?thesis by cases (use assms(7-9) in blast)+
qed

definition connected :: "string \<Rightarrow> connection" where
  "connected input = \<lparr>peer = client_init input, at = To_Send, serving = chat_init, up = [], down = [], got = [],
     whole = True\<rparr>"

inductive connection_reach :: "string \<Rightarrow> connection \<Rightarrow> bool" for input :: string where
  start: "connection_reach input (connected input)"
| step: "connection_reach input s \<Longrightarrow> connection_step s s' \<Longrightarrow> connection_reach input s'"

section \<open>What the two ends do\<close>

lemma cstr_no_NUL: "NUL \<notin> set (cstr s)"
  by (auto simp: cstr_def dest: set_takeWhileD)

lemma compose_facts:
  assumes "client_compose c = Inr (m, c')"
  shows "NUL \<notin> set m" and "client_sent c' = client_sent c"
    and "(\<exists>l. stdin c = l @ stdin c' \<and> m = cstr l \<and> l \<noteq> []) \<or> stdin c = [] \<and> stdin c' = []"
proof -
  show "NUL \<notin> set m" "client_sent c' = client_sent c"
    using assms cstr_no_NUL by (auto simp: client_compose_def Let_def split: option.splits prod.splits)
  show "(\<exists>l. stdin c = l @ stdin c' \<and> m = cstr l \<and> l \<noteq> []) \<or> stdin c = [] \<and> stdin c' = []"
  proof (cases "stdin c")
    case Nil
    then show ?thesis using assms by (auto simp: client_compose_def fgets_def Let_def split: option.splits)
  next
    case (Cons x xs)
    obtain l r where t: "take_line (BUFFER_SIZE - 1) (stdin c) = (l, r)" by fastforce
    have "l \<noteq> []" using take_line_not_Nil [of 1022 x xs l r] t Cons by (simp add: BUFFER_SIZE_def)
    then show ?thesis
      using assms take_line_append [OF t] t Cons
      by (auto simp: client_compose_def fgets_def Let_def intro!: exI [of _ l])
  qed
qed

lemma receive_facts:
  assumes "client_receive r c = Inr (go_on, c')"
  shows "client_sent c' = client_sent c" and "stdin c' = stdin c"
  using assms by (auto simp: client_receive_def split: recv_result.splits if_splits)

lemma echo_facts:
  assumes "echo_message k m v = Inr v'" and "NUL \<notin> set m"
  shows "sent v' = sent v @ [take k m]" and "cstr m = m"
proof -
  show "cstr m = m" using assms(2) by (rule cstr_id)
  have "1024 - length m \<noteq> 0" using assms by (auto simp: echo_message_def Let_def split: if_splits)
  then obtain i where i: "1024 - length m = Suc i" by (cases "1024 - length m") auto
  have "cstr (m @ replicate (1024 - length m) NUL) = m" unfolding i by (rule cstr_padded [OF assms(2)])
  then show "sent v' = sent v @ [take k m]" using assms(1) by (auto simp: echo_message_def Let_def split: if_splits)
qed

section \<open>The streams\<close>

text \<open>
  What the client has received and what is under way is part of what it has sent, in the same order,
  and all of it as long as every \<^verbatim>\<open>send\<close> took all it was given.
\<close>

definition streams_ok :: "connection \<Rightarrow> bool" where
  "streams_ok s \<longleftrightarrow> subseq (concat (got s) @ down s @ up s) (concat (client_sent (peer s))) \<and>
     (whole s \<longrightarrow> concat (client_sent (peer s)) = concat (got s) @ down s @ up s) \<and>
     concat (sent (serving s)) = concat (got s) @ down s \<and> NUL \<notin> set (up s)"

lemma client_message_sel [simp]:
  "client_sent (client_message m c) = client_sent c @ [m]" "stdin (client_message m c) = stdin c"
  "client_sent (client_refused c) = client_sent c" "stdin (client_refused c) = stdin c"
  by (simp_all add: client_message_def client_refused_def)

text \<open>A piece of which only a part goes back.\<close>

lemma subseq_cut: "subseq (a @ m @ b) c \<Longrightarrow> subseq (a @ take k m @ b) c"
proof -
  assume s: "subseq (a @ m @ b) c"
  have "subseq (take k m) m" by (simp add: prefix_imp_subseq take_is_prefix)
  then have "subseq (a @ take k m @ b) (a @ m @ b)" by (intro list_emb_append_mono) simp_all
  then show ?thesis using s by (rule subseq_order.trans)
qed

lemma streams_step:
  assumes "connection_step s s'" and "streams_ok s"
  shows "streams_ok s'"
  using assms(1)
proof (cases rule: connection_cases)
  case (client_sends m c k)
  have "NUL \<notin> set (take k m)" using compose_facts(1) [OF client_sends(3)] by (auto dest: in_set_takeD)
  moreover have "subseq ((concat (got s) @ down s @ up s) @ take k m) (concat (client_sent (peer s)) @ take k m)"
    using assms(2) unfolding subseq_append by (simp add: streams_ok_def)
  ultimately show ?thesis using assms(2) compose_facts(2) [OF client_sends(3)] client_sends(1) by (simp add: streams_ok_def)
next
  case (client_send_fails m c)
  then show ?thesis using assms(2) compose_facts(2) [OF client_send_fails(3)] by (simp add: streams_ok_def)
next
  case (client_receives m rest go_on c)
  then show ?thesis using assms(2) receive_facts(1) [OF client_receives(6)] by (simp add: streams_ok_def)
next
  case (client_told go_on c)
  then show ?thesis using assms(2) receive_facts(1) [OF client_told(5)] by (simp add: streams_ok_def)
next
  case (client_recv_fails go_on c)
  then show ?thesis using assms(2) receive_facts(1) [OF client_recv_fails(3)] by (simp add: streams_ok_def)
next
  case (server_echoes m rest v k)
  have "NUL \<notin> set m" using assms(2) server_echoes by (auto simp: streams_ok_def)
  note e = echo_facts [OF server_echoes(6) this]
  have "subseq ((concat (got s) @ down s) @ m @ rest) (concat (client_sent (peer s)))"
    using assms(2) server_echoes(3) by (simp add: streams_ok_def)
  from subseq_cut [OF this, of k] show ?thesis using assms(2) server_echoes e by (simp add: streams_ok_def)
next
  case server_told
  then show ?thesis using assms(2) by (simp add: streams_ok_def end_connection_def)
next
  case (server_recv_fails takes v)
  then show ?thesis using assms(2) by (auto simp: streams_ok_def)
qed

text \<open>
  While every \<^verbatim>\<open>send\<close> takes all it is given, what the client has sent is what it has read; after the end
  of its input it sends something more. The line of a refused \<^verbatim>\<open>send\<close> is lost.
\<close>

definition typed_ok :: "string \<Rightarrow> connection \<Rightarrow> bool" where
  "typed_ok input s \<longleftrightarrow> (whole s \<longrightarrow>
     (\<exists>more. concat (client_sent (peer s)) = input @ more \<and> stdin (peer s) = []) \<or>
     (\<exists>lost. concat (client_sent (peer s)) @ lost @ stdin (peer s) = input \<and> (lost \<noteq> [] \<longrightarrow> at s = Left)))"

lemma typed_same:
  assumes "typed_ok input s" and "client_sent (peer s') = client_sent (peer s)" and "stdin (peer s') = stdin (peer s)"
    and "at s = Left \<Longrightarrow> at s' = Left" and "whole s' \<Longrightarrow> whole s"
  shows "typed_ok input s'"
  using assms by (auto simp: typed_ok_def)

lemma typed_step:
  assumes "connection_step s s'" and "typed_ok input s" and "NUL \<notin> set input"
  shows "typed_ok input s'"
  using assms(1)
proof (cases rule: connection_cases)
  case (client_sends m c k)
  note facts = compose_facts [OF client_sends(3)]
  show ?thesis
  proof (cases "whole s \<and> length m \<le> k")
    case False
    then show ?thesis using client_sends(1) by (auto simp: typed_ok_def)
  next
    case True
    then have k: "take k m = m" by simp
    consider (more) more where "concat (client_sent (peer s)) = input @ more" "stdin (peer s) = []"
      | (rest) "concat (client_sent (peer s)) @ stdin (peer s) = input"
      using assms(2) client_sends(2) True by (auto simp: typed_ok_def)
    then show ?thesis
    proof cases
      case more
      then show ?thesis using facts client_sends(1) by (auto simp: typed_ok_def)
    next
      case rest
      from facts(3) show ?thesis
      proof
        assume "\<exists>l. stdin (peer s) = l @ stdin c \<and> m = cstr l \<and> l \<noteq> []"
        then obtain l where l: "stdin (peer s) = l @ stdin c" "m = cstr l" by blast
        have "NUL \<notin> set l" using l(1) rest assms(3) by auto
        then have "m = l" using l(2) by simp
        then have "concat (client_sent (peer s')) @ stdin (peer s') = input"
          using rest l(1) facts(2) client_sends(1) k by simp
        then show ?thesis by (auto simp: typed_ok_def)
      next
        assume "stdin (peer s) = [] \<and> stdin c = []"
        then show ?thesis using rest facts(2) client_sends(1) by (auto simp: typed_ok_def)
      qed
    qed
  qed
next
  case (client_send_fails m c)
  note facts = compose_facts [OF client_send_fails(3)]
  then show ?thesis using assms(2) client_send_fails(1,2) by (auto simp: typed_ok_def)
next
  case (client_receives m rest go_on c)
  show ?thesis
    by (rule typed_same [OF assms(2)])
      (use client_receives receive_facts [OF client_receives(6)] in simp_all)
next
  case (client_told go_on c)
  show ?thesis
    by (rule typed_same [OF assms(2)]) (use client_told receive_facts [OF client_told(5)] in simp_all)
next
  case (client_recv_fails go_on c)
  show ?thesis
    by (rule typed_same [OF assms(2)]) (use client_recv_fails receive_facts [OF client_recv_fails(3)] in simp_all)
qed (rule typed_same [OF assms(2)]; simp)+

lemma reach_streams:
  "connection_reach input s \<Longrightarrow> streams_ok s \<and> (NUL \<notin> set input \<longrightarrow> typed_ok input s)"
proof (induction rule: connection_reach.induct)
  case start
  then show ?case
    by (simp add: streams_ok_def typed_ok_def connected_def client_init_def chat_init_def)
next
  case (step s s')
  then show ?case using streams_step [OF step(2)] typed_step [OF step(2)] by blast
qed

lemma reach_echo:
  assumes "connection_reach input s"
  shows "subseq (concat (got s) @ down s @ up s) (concat (client_sent (peer s))) \<and>
    concat (sent (serving s)) = concat (got s) @ down s \<and>
    (whole s \<longrightarrow> concat (client_sent (peer s)) = concat (got s) @ down s @ up s \<and>
      (NUL \<notin> set input \<longrightarrow> (\<exists>rest. concat (got s) @ rest = input) \<or>
        (\<exists>more. concat (client_sent (peer s)) = input @ more)))"
proof -
  have s: "streams_ok s" using reach_streams [OF assms] by blast
  have "(\<exists>rest. concat (got s) @ rest = input) \<or> (\<exists>more. concat (client_sent (peer s)) = input @ more)"
    if "NUL \<notin> set input" "whole s"
  proof -
    have "concat (client_sent (peer s)) = concat (got s) @ down s @ up s" using s that(2) by (simp add: streams_ok_def)
    moreover have "typed_ok input s" using reach_streams [OF assms] that(1) by blast
    ultimately show ?thesis using that(2) by (fastforce simp: typed_ok_def)
  qed
  then show ?thesis using s unfolding streams_ok_def by blast
qed

text \<open>
  C34: The connection as a whole: however the socket splits and joins the bytes, whatever calls of either
  end fail, with \<^verbatim>\<open>send\<close> taking none or only some of its bytes, and however their steps interleave, the
  client receives nothing but bytes it has sent, each at most once and in order: what it has received,
  followed by what is under way back and out, is a subsequence of what its calls of \<^verbatim>\<open>send\<close> took, and what
  the server's took is what it has received or will. As long as every \<^verbatim>\<open>send\<close> that did not make the
  client leave took all it was given, nothing is missing either, and for an input without null bytes what has come back is a beginning of
  the input, until all of the input has been sent.
\<close>

theorem echo_stream:
  assumes "connection_reach input s"
  shows "subseq (concat (got s) @ down s @ up s) (concat (client_sent (peer s))) \<and>
    concat (sent (serving s)) = concat (got s) @ down s \<and>
    (whole s \<longrightarrow> concat (client_sent (peer s)) = concat (got s) @ down s @ up s \<and>
      (NUL \<notin> set input \<longrightarrow> (\<exists>rest. concat (got s) @ rest = input) \<or>
        (\<exists>more. concat (client_sent (peer s)) = input @ more)))"
  by (rule reach_echo [OF assms])

text \<open>The message \<open>hi\<close> is sent; its first byte is echoed and comes back.\<close>

lemma reach_first_byte:
  "\<exists>s. connection_reach (''hi'' @ [NL]) s \<and> at s = To_Receive \<and> up s = ''i'' @ [NL] \<and> down s = ''h'' \<and> got s = [] \<and>
    whole s \<and> sent (serving s) = [''h''] \<and> \<not> closed (serving s)"
proof -
  let ?i = "connected (''hi'' @ [NL])"
  have c: "client_compose (peer ?i) = Inr (''hi'' @ [NL], (peer ?i)\<lparr>client_out := ''Enter a message to send: '',
      buffer := Some (''hi'' @ [NL]), stdin := []\<rparr>)"
    using fgets_line [of "''hi''" BUFFER_SIZE "[]"]
    by (simp add: client_compose_def connected_def client_init_def BUFFER_SIZE_def)
  obtain s1 where s1: "connection_reach (''hi'' @ [NL]) s1" "at s1 = To_Receive" "up s1 = ''hi'' @ [NL]" "down s1 = []"
      "got s1 = []" "serving s1 = chat_init" "whole s1"
    using connection_reach.step [OF connection_reach.start client_moves_by(1) [OF _ c, of 3]]
    by (simp add: connected_def)
  obtain v where v: "echo_message 1 ''h'' (serving s1) = Inr v"
    by (simp add: echo_message_def Let_def)
  have l: "sent v = [''h'']" "\<not> closed v" "length (cstr ''h'') \<le> 1"
    using echo_facts [OF v] s1(6) v by (auto simp: chat_init_def echo_message_def Let_def)
  have "\<not> closed (serving s1)" "up s1 = ''h'' @ ''i'' @ [NL]" using s1(3,6) by (simp_all add: chat_init_def)
  from connection_reach.step [OF s1(1) server_moves_by(1) [OF this _ _ v]] show ?thesis
    using s1(2,4,5,7) l by (intro exI [of _ "s1\<lparr>serving := v, up := ''i'' @ [NL], down := down s1 @ last (sent v),
      whole := whole s1 \<and> length (cstr ''h'') \<le> 1\<rparr>"]) simp
qed

theorem echo_stream_witness:
  "\<exists>s. connection_reach (''hi'' @ [NL]) s \<and> got s = [''h''] \<and> down s = [] \<and> up s = ''i'' @ [NL] \<and>
    concat (client_sent (peer s)) = ''h'' @ ''i'' @ [NL]"
proof -
  obtain s2 where s2: "connection_reach (''hi'' @ [NL]) s2" "at s2 = To_Receive" "up s2 = ''i'' @ [NL]" "down s2 = ''h''"
      "got s2 = []" "whole s2"
    using reach_first_byte by blast
  obtain d where d: "client_receive (Received ''h'') (peer s2) = Inr (True, d)"
    by (simp add: client_receive_def BUFFER_SIZE_def)
  have "down s2 = ''h'' @ []" using s2(4) by simp
  from connection_reach.step [OF s2(1) client_moves_by(3) [OF s2(2) this _ _ d]]
  obtain s3 where s3: "connection_reach (''hi'' @ [NL]) s3" "got s3 = [''h'']" "down s3 = []" "up s3 = ''i'' @ [NL]" "whole s3"
    using s2(3,5,6) by (simp add: BUFFER_SIZE_def)
  then show ?thesis using echo_stream [OF s3(1)] by auto
qed

text \<open>A refused \<^verbatim>\<open>send\<close> of the server loses an echo for good: the rest of \<open>hi\<close> is read, and only \<open>h\<close> comes back.\<close>

lemma echo_lost:
  "\<exists>s. connection_reach (''hi'' @ [NL]) s \<and> at s = To_Receive \<and> up s = [] \<and> down s = ''h'' \<and> got s = [] \<and>
    \<not> closed (serving s)"
proof -
  obtain s2 where s2: "connection_reach (''hi'' @ [NL]) s2" "at s2 = To_Receive" "up s2 = ''i'' @ [NL]" "down s2 = ''h''"
      "got s2 = []" "\<not> closed (serving s2)"
    using reach_first_byte by blast
  obtain v where v: "echo_message 0 (''i'' @ [NL]) (serving s2) = Inr v"
    by (simp add: echo_message_def Let_def)
  have l: "last (sent v) = []" "\<not> closed v"
    using echo_facts [OF v] s2(6) v by (auto simp: echo_message_def Let_def)
  have "up s2 = (''i'' @ [NL]) @ []" using s2(3) by simp
  from connection_reach.step [OF s2(1) server_moves_by(1) [OF s2(6) this _ _ v]] show ?thesis
    using s2(2,4,5) l by (intro exI [of _ "s2\<lparr>serving := v, up := [], down := down s2 @ last (sent v),
      whole := whole s2 \<and> length (cstr (''i'' @ [NL])) \<le> 0\<rparr>"]) simp
qed

end
