(* ===== verification/TcpServer.thy ===== *)
theory TcpServer
  imports TcpEcho StepMachine
begin

text \<open>
  The server of \<^verbatim>\<open>TCP-chat-server/server.c\<close> with all its clients: the main thread accepting, one thread per
  connection, each started with the address of a block that holds its socket, interleaved in any way.
\<close>

section \<open>The server and its threads\<close>

text \<open>
  What a thread is about to do. The main thread goes from \<open>Accepting\<close> over \<open>Got\<close> (a descriptor) to \<open>Stored\<close>
  (a block with it); a client's thread from \<open>Starting\<close> with the address of its block over \<open>Serving\<close> to
  \<open>Ending\<close>, when it has closed its socket and has still to free the block.
\<close>

datatype task = Accepting | Got int | Stored nat | Starting nat | Serving nat int | Ending nat

text \<open>What \<^verbatim>\<open>main\<close> tells the thread of a client; the address of the peer is never read.\<close>

record client_data =
  client_socket :: int
  client_address :: "u8 list"

text \<open>
  The blocks of type \<^verbatim>\<open>client_data\<close> by their address, the connections by their descriptor, with what their
  clients type, and the threads, the main thread first. \<open>past\<close> holds the connections the server has closed
  whose descriptor \<^verbatim>\<open>accept\<close> has given out again: their clients can still receive what is under way.
\<close>

record service =
  tasks :: "task list"
  blocks :: "nat \<Rightarrow> client_data option"
  socks :: "int \<Rightarrow> (string \<times> connection) option"
  past :: "(string \<times> connection) list"
  reports :: "string list"

definition open_sock :: "service \<Rightarrow> int \<Rightarrow> bool" where
  "open_sock s fd \<longleftrightarrow> (case socks s fd of None \<Rightarrow> False | Some (i, c) \<Rightarrow> \<not> closed (serving c))"

definition service_init :: service where
  "service_init = \<lparr>tasks = [Accepting], blocks = Map.empty, socks = Map.empty, past = [], reports = []\<rparr>"

text \<open>
  The main thread: \<^verbatim>\<open>accept\<close> returns a descriptor that is not open, \<^verbatim>\<open>malloc\<close> a block that is not in use
  (when it returns \<^verbatim>\<open>NULL\<close> the execution ends with the access to it, and there is no step).
\<close>

inductive main_step :: "service \<Rightarrow> service \<Rightarrow> bool" where
  accepts: "tasks s = Accepting # ts \<Longrightarrow> 0 \<le> fd \<Longrightarrow> \<not> open_sock s fd \<Longrightarrow>
     main_step s (s\<lparr>tasks := Got fd # ts, socks := (socks s)(fd \<mapsto> (input, connected input)),
       past := past s @ (case socks s fd of None \<Rightarrow> [] | Some ic \<Rightarrow> [ic])\<rparr>)"
| accept_fails: "tasks s = Accepting # ts \<Longrightarrow>
     main_step s (s\<lparr>reports := reports s @ [''[$] ACCEPT FAILED!'']\<rparr>)"
| stores: "tasks s = Got fd # ts \<Longrightarrow> blocks s a = None \<Longrightarrow>
     main_step s (s\<lparr>tasks := Stored a # ts,
       blocks := (blocks s)(a \<mapsto> \<lparr>client_socket = fd, client_address = peer_address\<rparr>)\<rparr>)"
| creates: "tasks s = Stored a # ts \<Longrightarrow>
     main_step s (s\<lparr>tasks := Accepting # ts @ [Starting a]\<rparr>)"
| create_fails: "tasks s = Stored a # ts \<Longrightarrow>
     main_step s (s\<lparr>tasks := Accepting # ts, reports := reports s @ [''Thread creation failed!'']\<rparr>)"

text \<open>
  A client's thread: it reads the socket from its block, serves it until the connection ends, which
  closes the socket, and frees the block.
\<close>

inductive thread_step :: "service \<Rightarrow> service \<Rightarrow> bool" where
  starts: "tasks s = ts @ Starting a # us \<Longrightarrow> blocks s a = Some data \<Longrightarrow>
     thread_step s (s\<lparr>tasks := ts @ Serving a (client_socket data) # us\<rparr>)"
| serves: "tasks s = ts @ Serving a fd # us \<Longrightarrow> socks s fd = Some (input, c) \<Longrightarrow> server_step c c' \<Longrightarrow>
     thread_step s (s\<lparr>tasks := ts @ (if closed (serving c') then Ending a else Serving a fd) # us,
       socks := (socks s)(fd \<mapsto> (input, c'))\<rparr>)"
| frees: "tasks s = ts @ Ending a # us \<Longrightarrow>
     thread_step s (s\<lparr>tasks := ts @ us, blocks := (blocks s)(a := None)\<rparr>)"

text \<open>All of them, and the clients, those of past connections included.\<close>

inductive service_step :: "service \<Rightarrow> service \<Rightarrow> bool" where
  main_moves: "main_step s s' \<Longrightarrow> service_step s s'"
| thread_moves: "thread_step s s' \<Longrightarrow> service_step s s'"
| client_acts: "socks s fd = Some (input, c) \<Longrightarrow> client_step c c' \<Longrightarrow>
     service_step s (s\<lparr>socks := (socks s)(fd \<mapsto> (input, c'))\<rparr>)"
| past_client_acts: "past s = ps @ (input, c) # qs \<Longrightarrow> client_step c c' \<Longrightarrow>
     service_step s (s\<lparr>past := ps @ (input, c') # qs\<rparr>)"

lemmas main_moves_by = main_step.intros [THEN main_moves]

lemmas thread_moves_by = thread_step.intros [THEN thread_moves]

lemma client_serving: "client_step c c' \<Longrightarrow> serving c' = serving c"
  by (erule client_step.cases) simp_all

abbreviation service_reach :: "service \<Rightarrow> bool" where
  "service_reach s \<equiv> service_step\<^sup>*\<^sup>* service_init s"

section \<open>Who holds what\<close>

fun addr_of :: "task \<Rightarrow> nat option" where
  "addr_of (Stored a) = Some a"
| "addr_of (Starting a) = Some a"
| "addr_of (Serving a fd) = Some a"
| "addr_of (Ending a) = Some a"
| "addr_of t = None"

fun sock_of :: "(nat \<Rightarrow> client_data option) \<Rightarrow> task \<Rightarrow> int option" where
  "sock_of bl (Got fd) = Some fd"
| "sock_of bl (Stored a) = map_option client_socket (bl a)"
| "sock_of bl (Starting a) = map_option client_socket (bl a)"
| "sock_of bl (Serving a fd) = Some fd"
| "sock_of bl t = None"

text \<open>The values a list of threads holds, one for each of them that holds one.\<close>

definition held :: "('t \<Rightarrow> 'v option) \<Rightarrow> 't list \<Rightarrow> 'v list" where
  "held f ts = List.map_filter f ts"

lemma held_simps [simp]: "held f [] = []" "held f (t # ts) = (case f t of None \<Rightarrow> [] | Some v \<Rightarrow> [v]) @ held f ts"
  "held f (ts @ us) = held f ts @ held f us"
  by (simp_all add: held_def map_filter_simps map_filter_def split: option.splits)

fun task_ok :: "(nat \<Rightarrow> client_data option) \<Rightarrow> task \<Rightarrow> bool" where
  "task_ok bl (Serving a fd) \<longleftrightarrow> map_option client_socket (bl a) = Some fd"
| "task_ok bl t \<longleftrightarrow> (case addr_of t of None \<Rightarrow> True | Some a \<Rightarrow> bl a \<noteq> None)"

fun main_task :: "task \<Rightarrow> bool" where
  "main_task Accepting \<longleftrightarrow> True"
| "main_task (Got fd) \<longleftrightarrow> True"
| "main_task (Stored a) \<longleftrightarrow> True"
| "main_task t \<longleftrightarrow> False"

definition service_ok :: "service \<Rightarrow> bool" where
  "service_ok s \<longleftrightarrow> tasks s \<noteq> [] \<and> main_task (hd (tasks s)) \<and> distinct (held addr_of (tasks s)) \<and> distinct (held (sock_of (blocks s)) (tasks s)) \<and>
     list_all (task_ok (blocks s)) (tasks s) \<and> list_all (open_sock s) (held (sock_of (blocks s)) (tasks s)) \<and>
     (\<forall>fd input c. socks s fd = Some (input, c) \<longrightarrow> connection_reach input c) \<and>
     (\<forall>input c. (input, c) \<in> set (past s) \<longrightarrow> connection_reach input c)"

lemma held_other [simp]:
  "a \<notin> set (held addr_of ts) \<Longrightarrow> held (sock_of (bl(a := x))) ts = held (sock_of bl) ts"
proof (induction ts)
  case (Cons t ts)
  then show ?case by (cases t) auto
qed simp

lemma tasks_other [simp]:
  "a \<notin> set (held addr_of ts) \<Longrightarrow> list_all (task_ok (bl(a := x))) ts = list_all (task_ok bl) ts"
proof (induction ts)
  case (Cons t ts)
  then show ?case by (cases t) auto
qed simp

lemma fresh_block: "list_all (task_ok bl) ts \<Longrightarrow> bl a = None \<Longrightarrow> a \<notin> set (held addr_of ts)"
proof (induction ts)
  case (Cons t ts)
  then show ?case by (cases t) auto
qed simp

lemma open_sock_frames [simp]:
  "open_sock (s\<lparr>tasks := ts\<rparr>) = open_sock s" "open_sock (s\<lparr>blocks := bl\<rparr>) = open_sock s"
  "open_sock (s\<lparr>reports := rs\<rparr>) = open_sock s" "open_sock (s\<lparr>past := ps\<rparr>) = open_sock s"
  by (auto simp: open_sock_def fun_eq_iff)

lemma service_ok_init: "service_ok service_init"
  by (simp add: service_ok_def service_init_def)

lemma main_step_ok:
  assumes "main_step s s'" and "service_ok s"
  shows "service_ok s'"
  using assms(1)
proof cases
  case (accepts ts fd input)
  then show ?thesis using assms(2) connection_reach.start [of input]
    by (auto simp: service_ok_def list_all_iff open_sock_def connected_def chat_init_def split: option.splits)
next
  case (accept_fails ts)
  then show ?thesis using assms(2) by (simp add: service_ok_def)
next
  case (stores fd ts a)
  then show ?thesis using assms(2) fresh_block [of "blocks s" ts a]
    by (auto simp: service_ok_def)
next
  case (creates a ts)
  then show ?thesis using assms(2) by (auto simp: service_ok_def split: option.splits)
next
  case (create_fails a ts)
  then show ?thesis using assms(2) by (auto simp: service_ok_def split: option.splits)
qed

lemma thread_step_ok:
  assumes "thread_step s s'" and "service_ok s"
  shows "service_ok s'"
  using assms(1)
proof cases
  case (starts ts a us data)
  then show ?thesis using assms(2) by (cases ts) (auto simp: service_ok_def)
next
  case (serves ts a fd us input c c')
  then show ?thesis using assms(2) connection_reach.step [OF _ server_moves, of input c c']
    by (cases ts) (auto simp: service_ok_def list_all_iff open_sock_def)
next
  case (frees ts a us)
  have "ts \<noteq> []" using assms(2) frees(2) by (cases ts) (simp_all add: service_ok_def)
  then show ?thesis using assms(2) frees by (auto simp: service_ok_def)
qed

lemma service_ok_step:
  assumes "service_step s s'" and "service_ok s"
  shows "service_ok s'"
  using assms(1)
proof cases
  case main_moves
  then show ?thesis using main_step_ok assms(2) by blast
next
  case thread_moves
  then show ?thesis using thread_step_ok assms(2) by blast
next
  case (client_acts fd input c c')
  then show ?thesis using assms(2) connection_reach.step [OF _ client_moves, of input c c'] client_serving
    by (auto simp: service_ok_def list_all_iff open_sock_def)
next
  case (past_client_acts ps input c qs c')
  then show ?thesis using assms(2) connection_reach.step [OF _ client_moves, of input c c']
    by (auto simp: service_ok_def)
qed

interpretation sv: invariant_steps service_step service_ok
  by unfold_locales (rule service_ok_step)

lemma reach_service_ok: "service_reach s \<Longrightarrow> service_ok s"
  by (rule sv.reach_holds [OF _ service_ok_init])

section \<open>Each client its own server\<close>

text \<open>The connections the server has ever accepted, with what their clients type.\<close>

definition connections :: "service \<Rightarrow> (string \<times> connection) set" where
  "connections s = ran (socks s) \<union> set (past s)"

lemma reach_connections:
  "service_reach s \<Longrightarrow> (input, c) \<in> connections s \<Longrightarrow> connection_reach input c"
  using reach_service_ok by (auto simp: service_ok_def connections_def ran_def)

text \<open>
  C37: The server with any number of clients: however accepting, storing and reading the sockets, serving,
  closing and freeing interleave, descriptors that are closed being given out again, no two threads ever
  hold the same block or the same socket; a thread serves the socket that was accepted for it, which is
  open; and every client, those of past connections included, gets back its own bytes and nobody else's,
  in order, as on a connection alone: all of them as long as every \<^verbatim>\<open>send\<close> of the connection took all it was
  given, and else some of them.
\<close>

theorem service_isolates:
  assumes "service_reach s"
  shows "distinct (held addr_of (tasks s)) \<and> distinct (held (sock_of (blocks s)) (tasks s)) \<and>
    (\<forall>a fd. Serving a fd \<in> set (tasks s) \<longrightarrow> map_option client_socket (blocks s a) = Some fd \<and> open_sock s fd) \<and>
    (\<forall>input c. (input, c) \<in> connections s \<longrightarrow>
      subseq (concat (got c) @ down c @ up c) (concat (client_sent (peer c))) \<and>
      (whole c \<longrightarrow> concat (client_sent (peer c)) = concat (got c) @ down c @ up c \<and>
        (NUL \<notin> set input \<longrightarrow> (\<exists>rest. concat (got c) @ rest = input) \<or>
          (\<exists>more. concat (client_sent (peer c)) = input @ more))))"
proof (intro conjI allI impI)
  have ok: "service_ok s" by (rule reach_service_ok [OF assms])
  show "distinct (held addr_of (tasks s))" "distinct (held (sock_of (blocks s)) (tasks s))"
    using ok by (simp_all add: service_ok_def)
  fix a fd
  assume "Serving a fd \<in> set (tasks s)"
  then obtain ts us where "tasks s = ts @ Serving a fd # us" by (metis split_list)
  then show "map_option client_socket (blocks s a) = Some fd" "open_sock s fd" using ok by (auto simp: service_ok_def)
next
  fix input c
  assume "(input, c) \<in> connections s"
  note r = reach_echo [OF reach_connections [OF assms this]]
  show "subseq (concat (got c) @ down c @ up c) (concat (client_sent (peer c)))" using r by blast
  assume "whole c"
  then show "concat (client_sent (peer c)) = concat (got c) @ down c @ up c" using r by blast
  assume "NUL \<notin> set input"
  then show "(\<exists>rest. concat (got c) @ rest = input) \<or> (\<exists>more. concat (client_sent (peer c)) = input @ more)"
    using r \<open>whole c\<close> by blast
qed

text \<open>Two clients, one served.\<close>

definition two_clients :: service where
  "two_clients = \<lparr>tasks = [Got 5, Serving 100 4], blocks = [100 \<mapsto> \<lparr>client_socket = 4, client_address = []\<rparr>],
     socks = [4 \<mapsto> (''hi'', connected ''hi''), 5 \<mapsto> (''ho'', connected ''ho'')], past = [], reports = []\<rparr>"

lemma reach_two_clients: "service_reach two_clients"
proof -
  let ?c = "(''hi'', connected ''hi'')"
  let ?s1 = "\<lparr>tasks = [Got 4], blocks = Map.empty, socks = [4 \<mapsto> ?c], past = [], reports = []\<rparr>"
  let ?s2 = "?s1\<lparr>tasks := [Stored 100], blocks := [100 \<mapsto> \<lparr>client_socket = 4, client_address = []\<rparr>]\<rparr>"
  let ?s3 = "?s2\<lparr>tasks := [Accepting, Starting 100]\<rparr>"
  let ?s4 = "?s3\<lparr>tasks := [Accepting, Serving 100 4]\<rparr>"
  have "service_step service_init ?s1"
    using main_moves_by(1) [of service_init "[]" 4 "''hi''"] by (simp add: service_init_def open_sock_def)
  moreover have "service_step ?s1 ?s2" using main_moves_by(3) [of ?s1 4 "[]" 100 "[]"] by simp
  moreover have "service_step ?s2 ?s3" using main_moves_by(4) [of ?s2 100 "[]"] by simp
  moreover have "service_step ?s3 ?s4" using thread_moves_by(1) [of ?s3 "[Accepting]" 100 "[]" "\<lparr>client_socket = 4, client_address = []\<rparr>"] by simp
  moreover have "service_step ?s4 two_clients"
    using main_moves_by(1) [of ?s4 "[Serving 100 4]" 5 "''ho''"] by (simp add: two_clients_def open_sock_def)
  ultimately show ?thesis by (meson rtranclp.rtrancl_into_rtrancl rtranclp.rtrancl_refl)
qed

theorem service_isolates_witness:
  "distinct (held (sock_of (blocks two_clients)) (tasks two_clients)) \<and> open_sock two_clients 4 \<and>
    map_option client_socket (blocks two_clients 100) = Some 4"
  using service_isolates [OF reach_two_clients] by (auto simp: two_clients_def)

section \<open>A thread that cannot be created\<close>

definition abandoned :: "service \<Rightarrow> int \<Rightarrow> nat \<Rightarrow> chat \<Rightarrow> bool" where
  "abandoned s fd a v \<longleftrightarrow> (\<exists>input c. socks s fd = Some (input, c) \<and> serving c = v) \<and> \<not> closed v \<and>
     fd \<notin> set (held (sock_of (blocks s)) (tasks s)) \<and> map_option client_socket (blocks s a) = Some fd \<and> a \<notin> set (held addr_of (tasks s))"

lemma abandoned_main:
  assumes "main_step s s'" and "abandoned s fd a v" and "service_ok s"
  shows "abandoned s' fd a v"
  using assms(1)
proof cases
  case (accepts ts fd' input)
  then show ?thesis using assms(2) by (auto simp: abandoned_def open_sock_def)
next
  case (stores fd' ts a')
  then show ?thesis using assms(2,3) fresh_block [of "blocks s" ts a'] by (auto simp: abandoned_def service_ok_def)
next
  case (create_fails a' ts)
  then show ?thesis using assms(2) by (auto simp: abandoned_def split: option.splits)
qed (use assms(2) in \<open>auto simp: abandoned_def\<close>)

lemma abandoned_thread:
  assumes "thread_step s s'" and "abandoned s fd a v" and "service_ok s"
  shows "abandoned s' fd a v"
  using assms(1)
proof cases
  case (frees ts a' us)
  then show ?thesis using assms(2,3) by (auto simp: abandoned_def service_ok_def)
qed (use assms(2) in \<open>auto simp: abandoned_def\<close>)

lemma abandoned_step:
  assumes "service_step s s'" and "abandoned s fd a v" and "service_ok s"
  shows "abandoned s' fd a v"
  using assms(1)
proof cases
  case main_moves
  then show ?thesis using abandoned_main assms(2,3) by blast
next
  case thread_moves
  then show ?thesis using abandoned_thread assms(2,3) by blast
next
  case (client_acts fd' input c c')
  then show ?thesis using assms(2) client_serving by (auto simp: abandoned_def)
next
  case (past_client_acts ps input c qs c')
  then show ?thesis using assms(2) by (auto simp: abandoned_def)
qed

lemma abandoned_for_ever:
  "service_step\<^sup>*\<^sup>* s s' \<Longrightarrow> service_ok s \<Longrightarrow> abandoned s fd a v \<Longrightarrow> abandoned s' fd a v"
  by (rule sv.reach_keeps [where P = "\<lambda>s. abandoned s fd a v"]) (blast intro: abandoned_step)+

text \<open>
  C38: When \<^verbatim>\<open>pthread_create\<close> fails the server reports it and goes on, but keeps the socket and the block:
  from then on, whatever happens while the process runs, no thread reads or closes the socket, its client never gets an answer
  nor the end of the connection, and the block is never freed.
\<close>

theorem service_abandons:
  assumes "service_reach s" and "tasks s = Stored a # ts"
  shows "\<exists>fd input c s1. socks s fd = Some (input, c) \<and> service_step s s1 \<and>
    reports s1 = reports s @ [''Thread creation failed!''] \<and>
    (\<forall>s2. service_step\<^sup>*\<^sup>* s1 s2 \<longrightarrow> open_sock s2 fd \<and> fd \<notin> set (held (sock_of (blocks s2)) (tasks s2)) \<and>
      map_option (\<lambda>(i, c). serving c) (socks s2 fd) = Some (serving c) \<and>
      map_option client_socket (blocks s2 a) = Some fd)"
proof -
  have ok: "service_ok s" by (rule reach_service_ok [OF assms(1)])
  let ?s1 = "s\<lparr>tasks := Accepting # ts, reports := reports s @ [''Thread creation failed!'']\<rparr>"
  obtain fd where fd: "map_option client_socket (blocks s a) = Some fd" using ok assms(2) by (auto simp: service_ok_def)
  then obtain input c where c: "socks s fd = Some (input, c)" "\<not> closed (serving c)"
    using ok assms(2) by (auto simp: service_ok_def open_sock_def split: option.splits)
  have 1: "service_step s ?s1" by (rule main_moves_by(5) [OF assms(2)])
  have "abandoned ?s1 fd a (serving c)"
    using ok assms(2) fd c by (auto simp: abandoned_def service_ok_def)
  note for_ever = abandoned_for_ever [OF _ service_ok_step [OF 1 ok] this]
  have "open_sock s2 fd \<and> fd \<notin> set (held (sock_of (blocks s2)) (tasks s2)) \<and>
      map_option (\<lambda>(i, c). serving c) (socks s2 fd) = Some (serving c) \<and>
      map_option client_socket (blocks s2 a) = Some fd"
    if "service_step\<^sup>*\<^sup>* ?s1 s2" for s2
    using for_ever [OF that] by (auto simp: abandoned_def open_sock_def)
  then show ?thesis using 1 c(1) by (intro exI [of _ fd] exI [of _ input] exI [of _ c] exI [of _ ?s1]) simp
qed

theorem service_abandons_witness:
  "\<exists>fd s1. reports s1 = [''Thread creation failed!''] \<and>
    service_step \<lparr>tasks = [Stored 100], blocks = [100 \<mapsto> \<lparr>client_socket = 4, client_address = []\<rparr>], socks = [4 \<mapsto> (''hi'', connected ''hi'')], past = [], reports = []\<rparr> s1 \<and>
    open_sock s1 fd"
proof -
  let ?c = "(''hi'', connected ''hi'')"
  let ?s1 = "\<lparr>tasks = [Got 4], blocks = Map.empty, socks = [4 \<mapsto> ?c], past = [], reports = []\<rparr>"
  let ?s2 = "\<lparr>tasks = [Stored 100], blocks = [100 \<mapsto> \<lparr>client_socket = 4, client_address = []\<rparr>], socks = [4 \<mapsto> ?c], past = [], reports = []\<rparr>"
  have "service_step service_init ?s1"
    using main_moves_by(1) [of service_init "[]" 4 "''hi''"] by (simp add: service_init_def open_sock_def)
  moreover have "service_step ?s1 ?s2" using main_moves_by(3) [of ?s1 4 "[]" 100 "[]"] by simp
  ultimately have "service_reach ?s2" by (meson rtranclp.rtrancl_into_rtrancl rtranclp.rtrancl_refl)
  from service_abandons [OF this, of 100 "[]"] show ?thesis by fastforce
qed

end
