(* ===== verification/TcpLive.thy ===== *)
theory TcpLive
  imports TcpEcho
begin

text \<open>
  A connection of \<^verbatim>\<open>TCP-chat-server/\<close> that goes well: a client that waits is answered. And one that does
  not: pieces of the socket in which both ends run over their buffers.
\<close>

section \<open>An answer is under way\<close>

text \<open>
  Nothing empty is sent: as long as every \<^verbatim>\<open>send\<close> took all it was given, a waiting client has bytes under
  way, and its buffer is not empty.
\<close>

definition awaited :: "connection \<Rightarrow> bool" where
  "awaited s \<longleftrightarrow> NUL \<notin> set (stdin (peer s)) \<and> NUL \<notin> set (down s) \<and>
     (case buffer (peer s) of None \<Rightarrow> True | Some b \<Rightarrow> cstr b \<noteq> []) \<and>
     (at s = To_Receive \<and> whole s \<longrightarrow> up s \<noteq> [] \<or> down s \<noteq> [])"

lemma cstr_Nil [simp]: "cstr [] = []"
  by (simp add: cstr_def)

lemma compose_awaited:
  assumes "client_compose c = Inr (m, c')" and "NUL \<notin> set (stdin c)"
    and "case buffer c of None \<Rightarrow> True | Some b \<Rightarrow> cstr b \<noteq> []"
  shows "m \<noteq> []" and "NUL \<notin> set (stdin c')" and "\<exists>b. buffer c' = Some b \<and> cstr b \<noteq> []"
proof -
  have "(\<exists>b. buffer c' = Some b \<and> m = cstr b \<and> cstr b \<noteq> []) \<and> NUL \<notin> set (stdin c')"
  proof (cases "fgets BUFFER_SIZE (stdin c)")
    case None
    then show ?thesis using assms by (auto simp: client_compose_def Let_def split: option.splits)
  next
    case (Some p)
    then obtain l rest where f: "fgets BUFFER_SIZE (stdin c) = Some (l, rest)" by (cases p) auto
    then have t: "take_line (BUFFER_SIZE - 1) (stdin c) = (l, rest)" "stdin c \<noteq> []"
      by (auto simp: fgets_def split: if_splits)
    then obtain x xs where x: "stdin c = x # xs" by (cases "stdin c") auto
    have "l \<noteq> []" using take_line_not_Nil [of 1022 x xs l rest] t(1) x by (simp add: BUFFER_SIZE_def)
    moreover have "stdin c = l @ rest" using take_line_append [OF t(1)] by simp
    ultimately show ?thesis using assms f by (auto simp: client_compose_def Let_def)
  qed
  then show "m \<noteq> []" "NUL \<notin> set (stdin c')" "\<exists>b. buffer c' = Some b \<and> cstr b \<noteq> []" by auto
qed

lemma receive_buffer:
  "client_receive (Received m) c = Inr (go_on, c') \<Longrightarrow> buffer c' = Some m"
  by (auto simp: client_receive_def split: if_splits)

lemma awaited_step:
  assumes "connection_step s s'" and "awaited s" and "streams_ok s"
  shows "awaited s'"
  using assms(1)
proof (cases rule: connection_cases)
  case (client_sends m c k)
  then show ?thesis using assms(2) compose_awaited [OF client_sends(3)]
    by (auto simp: awaited_def client_message_def)
next
  case (client_send_fails m c)
  then show ?thesis using assms(2) compose_awaited [OF client_send_fails(3)]
    by (auto simp: awaited_def client_refused_def)
next
  case (client_receives m rest go_on c)
  then show ?thesis
    using assms(2) receive_facts(2) [OF client_receives(6)] receive_buffer [OF client_receives(6)]
    by (auto simp: awaited_def)
next
  case (client_told go_on c)
  then show ?thesis using assms(2) by (auto simp: awaited_def client_receive_def)
next
  case (client_recv_fails go_on c)
  then show ?thesis using assms(2) by (auto simp: awaited_def client_receive_def)
next
  case (server_echoes m rest v k)
  have "NUL \<notin> set m" using assms(3) server_echoes(3) by (simp add: streams_ok_def)
  note e = echo_facts [OF server_echoes(6) this]
  have "NUL \<notin> set (take k m)" using \<open>NUL \<notin> set m\<close> by (auto dest: in_set_takeD)
  then show ?thesis using assms(2) server_echoes e by (auto simp: awaited_def)
qed (use assms(2) in \<open>simp_all add: awaited_def\<close>)

lemma reach_awaited: "connection_reach input s \<Longrightarrow> NUL \<notin> set input \<Longrightarrow> awaited s"
proof (induction rule: connection_reach.induct)
  case start
  then show ?case by (simp add: awaited_def connected_def client_init_def)
next
  case (step s s')
  then show ?case using awaited_step reach_streams by blast
qed

section \<open>The answer\<close>

text \<open>A step in which nothing fails or is cut short and neither end leaves.\<close>

definition healthy_step :: "connection \<Rightarrow> connection \<Rightarrow> bool" where
  "healthy_step s s' \<longleftrightarrow> connection_step s s' \<and> at s' \<noteq> Left \<and> \<not> closed (serving s') \<and> whole s'"

lemma healthy_waiting:
  assumes "healthy_step s s'" and "at s = To_Receive"
  shows "at s' = To_Send \<and> (\<exists>m. m \<noteq> [] \<and> got s' = got s @ [m]) \<or>
    at s' = To_Receive \<and> got s' = got s \<and> length (up s') < length (up s)"
proof -
  have step: "connection_step s s'" and ok: "at s' \<noteq> Left" "\<not> closed (serving s')"
    using assms(1) by (simp_all add: healthy_step_def)
  from step show ?thesis
  proof (cases rule: connection_cases)
    case (server_recv_fails takes v)
    then show ?thesis using ok by auto
  qed (use assms(2) ok in \<open>auto simp: end_connection_def\<close>)
qed

lemma healthy_exists:
  assumes "streams_ok s" and "awaited s" and "at s = To_Receive" and "\<not> closed (serving s)" and "whole s"
  shows "\<exists>s'. healthy_step s s'"
proof (cases "down s")
  case (Cons x rest)
  obtain c where "client_receive (Received [x]) (peer s) = Inr (True, c)"
    by (simp add: client_receive_def BUFFER_SIZE_def)
  from client_moves_by(3) [OF assms(3) _ _ _ this, of rest] show ?thesis
    using Cons assms(4,5) by (auto simp: healthy_step_def BUFFER_SIZE_def)
next
  case Nil
  then obtain x rest where u: "up s = [x] @ rest" using assms(2,3,5) by (cases "up s") (auto simp: awaited_def)
  have n: "NUL \<notin> set [x]" using assms(1) u by (simp add: streams_ok_def)
  obtain v where v: "echo_message 1 [x] (serving s) = Inr v" by (simp add: echo_message_def Let_def)
  then have "\<not> closed v" using assms(4) by (auto simp: echo_message_def Let_def split: if_splits)
  then show ?thesis using server_moves_by(1) [OF assms(4) u _ _ v] echo_facts(2) [OF v n] assms(3,5)
    by (auto simp: healthy_step_def)
qed

lemma healthy_got: "healthy_step s s' \<Longrightarrow> \<exists>ms. got s' = got s @ ms"
  by (auto simp: healthy_step_def elim!: connection_cases)

lemma healthy_path_got: "(healthy_step ^^ n) s s' \<Longrightarrow> \<exists>ms. got s' = got s @ ms"
proof (induction n arbitrary: s')
  case (Suc n)
  then obtain t where "(healthy_step ^^ n) s t" "healthy_step t s'" by auto
  then show ?case using Suc.IH healthy_got by (metis append.assoc)
qed simp

lemma healthy_answer:
  "(healthy_step ^^ n) s s' \<Longrightarrow> at s = To_Receive \<Longrightarrow> length (up s) < n \<Longrightarrow>
    \<exists>m ms. m \<noteq> [] \<and> got s' = got s @ m # ms"
proof (induction n arbitrary: s)
  case (Suc n)
  from Suc.prems(1) obtain t where t: "healthy_step s t" "(healthy_step ^^ n) t s'" by (rule relpowp_Suc_E2)
  from healthy_waiting [OF t(1) Suc.prems(2)] show ?case
  proof
    assume "at t = To_Send \<and> (\<exists>m. m \<noteq> [] \<and> got t = got s @ [m])"
    then show ?thesis using healthy_path_got [OF t(2)] by auto
  next
    assume "at t = To_Receive \<and> got t = got s \<and> length (up t) < length (up s)"
    then show ?thesis using Suc.IH [OF t(2)] Suc.prems(3) by auto
  qed
qed simp

text \<open>
  C35: A waiting client is answered: for an input without null bytes, in every reachable state of a
  connection in which the client waits in \<^verbatim>\<open>recv\<close>, the server has not closed and every \<^verbatim>\<open>send\<close> so far took
  all it was given, a step without a failure is possible; and whichever such steps are made, the client
  has got a non-empty piece of the echo after at most one more of them than there are bytes the server
  has not yet read.
\<close>

theorem echo_answers:
  assumes "connection_reach input s" and "NUL \<notin> set input" and "at s = To_Receive" and "\<not> closed (serving s)"
    and "whole s"
  shows "(\<exists>s'. healthy_step s s') \<and>
    (\<forall>s'. (healthy_step ^^ Suc (length (up s))) s s' \<longrightarrow> (\<exists>m ms. m \<noteq> [] \<and> got s' = got s @ m # ms))"
  using healthy_exists [OF _ reach_awaited [OF assms(1,2)] assms(3-5)] reach_streams [OF assms(1)]
    healthy_answer [OF _ assms(3)]
  by blast

theorem echo_answers_witness:
  "\<exists>s. connection_reach ''hi'' s \<and> at s = To_Receive \<and> up s = ''hi'' \<and> (\<exists>s'. healthy_step s s')"
proof -
  have c: "client_compose (peer (connected ''hi'')) = Inr (''hi'', (peer (connected ''hi''))\<lparr>
      client_out := ''Enter a message to send: '', buffer := Some ''hi'', stdin := []\<rparr>)"
    by (simp add: client_compose_def connected_def client_init_def fgets_def take_line_last BUFFER_SIZE_def)
  obtain s where s: "connection_reach ''hi'' s" "at s = To_Receive" "up s = ''hi''" "\<not> closed (serving s)" "whole s"
    using connection_reach.step [OF connection_reach.start client_moves_by(1) [OF _ c, of 2]]
    by (simp add: connected_def chat_init_def)
  have "NUL \<notin> set ''hi''" by simp
  from echo_answers [OF s(1) this s(2,4,5)] show ?thesis using s by blast
qed

text \<open>
  Without these conditions a client can wait for ever with nothing wrong to be seen: an input line that
  starts with a null byte makes it send nothing and wait for an answer.
\<close>

lemma nothing_sent:
  "\<exists>s. connection_reach (NUL # [NL]) s \<and> at s = To_Receive \<and> up s = [] \<and> down s = [] \<and> whole s \<and>
    \<not> closed (serving s) \<and> \<not> (\<exists>s'. healthy_step s s')"
proof -
  let ?i = "connected (NUL # [NL])"
  have c: "client_compose (peer ?i) = Inr ([], (peer ?i)\<lparr>client_out := ''Enter a message to send: '',
      buffer := Some (NUL # [NL]), stdin := []\<rparr>)"
    using fgets_line [of "[NUL]" BUFFER_SIZE "[]"]
    by (simp add: client_compose_def connected_def client_init_def BUFFER_SIZE_def cstr_def)
  obtain s where s: "connection_reach (NUL # [NL]) s" "at s = To_Receive" "up s = []" "down s = []" "whole s"
      "\<not> closed (serving s)"
    using connection_reach.step [OF connection_reach.start client_moves_by(1) [OF _ c, of 0]]
    by (simp add: connected_def chat_init_def)
  have "\<not> healthy_step s s'" for s'
  proof
    assume h: "healthy_step s s'"
    then have "connection_step s s'" by (simp add: healthy_step_def)
    then show False
      by (cases rule: connection_cases) (use h s in \<open>auto simp: healthy_step_def\<close>)
  qed
  then show ?thesis using s by blast
qed

section \<open>Pieces that overrun a buffer\<close>

text \<open>Two lines are sent, and one byte of the first comes back in between.\<close>

definition sent_both :: "string \<Rightarrow> string \<Rightarrow> connection \<Rightarrow> bool" where
  "sent_both l1 l2 s \<longleftrightarrow> at s = To_Receive \<and> \<not> closed (serving s) \<and> down s = [] \<and>
     up s = tl (l1 @ [NL]) @ l2 @ [NL]"

lemma compose_line:
  assumes "NL \<notin> set l" and "NUL \<notin> set l" and "length l + 1 < BUFFER_SIZE" and "stdin c = l @ NL # rest"
  shows "\<exists>c'. client_compose c = Inr (l @ [NL], c') \<and> stdin c' = rest"
  using fgets_line [OF assms(1,3), of rest] assms(2,4) by (simp add: client_compose_def)

lemma reach_sent_both:
  assumes "NL \<notin> set l1" "NUL \<notin> set l1" "length l1 + 1 < BUFFER_SIZE"
    and "NL \<notin> set l2" "NUL \<notin> set l2" "length l2 + 1 < BUFFER_SIZE"
  shows "\<exists>s. connection_reach (l1 @ NL # l2 @ [NL]) s \<and> sent_both l1 l2 s"
proof -
  let ?input = "l1 @ NL # l2 @ [NL]"
  obtain x xs where x: "l1 @ [NL] = x # xs" by (cases "l1 @ [NL]") auto
  have nul: "x \<noteq> NUL" using assms(2) x by (cases l1) auto
  have "at (connected ?input) = To_Send" "stdin (peer (connected ?input)) = ?input"
    by (simp_all add: connected_def client_init_def)
  then obtain c where c: "client_compose (peer (connected ?input)) = Inr (l1 @ [NL], c)" "stdin c = l2 @ [NL]"
    using compose_line [OF assms(1-3)] by blast
  obtain s1 where s1: "connection_reach ?input s1" "at s1 = To_Receive" "up s1 = x # xs" "down s1 = []"
      "serving s1 = chat_init" "stdin (peer s1) = l2 @ [NL]"
    using connection_reach.step [OF connection_reach.start client_moves_by(1) [OF _ c(1), of "length (x # xs)"]] c(2) x
    by (simp add: connected_def)
  obtain v where v: "echo_message 1 [x] (serving s1) = Inr v" by (simp add: echo_message_def Let_def)
  then have e: "last (sent v) = [x]" "\<not> closed v" using echo_facts [OF v] nul s1(5)
    by (auto simp: echo_message_def Let_def chat_init_def split: if_splits)
  have "\<not> closed (serving s1)" "up s1 = [x] @ xs" using s1(3,5) by (simp_all add: chat_init_def)
  from connection_reach.step [OF s1(1) server_moves_by(1) [OF this _ _ v]]
  obtain s2 where s2: "connection_reach ?input s2" "at s2 = To_Receive" "up s2 = xs" "down s2 = [x] @ []"
      "\<not> closed (serving s2)" "stdin (peer s2) = l2 @ [NL]"
    using s1(2,4,6) e by simp
  obtain d where d: "client_receive (Received [x]) (peer s2) = Inr (True, d)"
    by (simp add: client_receive_def BUFFER_SIZE_def)
  have sd: "stdin d = l2 @ NL # []" using receive_facts(2) [OF d] s2(6) by simp
  from connection_reach.step [OF s2(1) client_moves_by(3) [OF s2(2,4) _ _ d]]
  obtain s3 where s3: "connection_reach ?input s3" "at s3 = To_Send" "up s3 = xs" "down s3 = []"
      "\<not> closed (serving s3)" "peer s3 = d"
    using s2(3,5) by (simp add: BUFFER_SIZE_def)
  obtain c3 where c3: "client_compose (peer s3) = Inr (l2 @ [NL], c3)"
    using compose_line [OF assms(4-6) sd] s3(6) by blast
  from connection_reach.step [OF s3(1) client_moves_by(1) [OF s3(2) c3, of "length (l2 @ [NL])"]]
  obtain s4 where s4: "connection_reach ?input s4" "at s4 = To_Receive" "up s4 = xs @ l2 @ [NL]" "down s4 = []"
      "\<not> closed (serving s4)"
    using s3(3-5) by simp
  have "xs = tl (l1 @ [NL])" using x by simp
  then show ?thesis using s4 by (auto simp: sent_both_def)
qed

text \<open>The server echoes what is left of the first line, then the second.\<close>

lemma reach_echo_line:
  assumes "connection_reach input s" and "at s = To_Receive" and "\<not> closed (serving s)" and "up s = m @ rest"
    and "m \<noteq> []" and "length m < 1024" and "NUL \<notin> set m"
  shows "\<exists>s'. connection_reach input s' \<and> at s' = To_Receive \<and> \<not> closed (serving s') \<and> up s' = rest \<and>
    down s' = down s @ m"
proof -
  obtain v where v: "echo_message (length m) m (serving s) = Inr v" using assms(6) by (simp add: echo_message_def Let_def)
  then have "last (sent v) = m" "\<not> closed v" using echo_facts [OF v assms(7)] assms(3)
    by (auto simp: echo_message_def Let_def split: if_splits)
  then show ?thesis
    using connection_reach.step [OF assms(1) server_moves_by(1) [OF assms(3,4,5) _ v]] assms(2,6)
    by (intro exI [of _ "s\<lparr>serving := v, up := rest, down := down s @ m,
      whole := whole s \<and> length (cstr m) \<le> length m\<rparr>"]) simp
qed

text \<open>
  C36: The buffers of both programs can be overrun with them alone: when the input has two lines that fit the
  client's buffer but not both together, and the first byte of the first line comes back on its own, a
  state is reached in which the \<^verbatim>\<open>recv\<close> of the server may return 1024 bytes, with which it reads past its
  buffer; and one in which that of the client may, with which it writes past its buffer.
\<close>

theorem pieces_overrun:
  assumes "NL \<notin> set l1" "NUL \<notin> set l1" "length l1 + 1 < BUFFER_SIZE"
    and "NL \<notin> set l2" "NUL \<notin> set l2" "length l2 + 1 < BUFFER_SIZE" and "1024 < length l1 + length l2 + 2"
  shows "(\<exists>s m rest. connection_reach (l1 @ NL # l2 @ [NL]) s \<and> \<not> closed (serving s) \<and> up s = m @ rest \<and>
      length m = 1024 \<and> (\<forall>k. echo_message k m (serving s) = Inl Out_Of_Bounds)) \<and>
    (\<exists>s m rest. connection_reach (l1 @ NL # l2 @ [NL]) s \<and> at s = To_Receive \<and> down s = m @ rest \<and>
      length m = BUFFER_SIZE \<and> client_receive (Received m) (peer s) = Inl Out_Of_Bounds)"
proof -
  let ?input = "l1 @ NL # l2 @ [NL]" and ?both = "tl (l1 @ [NL]) @ l2 @ [NL]"
  obtain s where s: "connection_reach ?input s" "at s = To_Receive" "\<not> closed (serving s)" "down s = []" "up s = ?both"
    using reach_sent_both [OF assms(1-6)] by (auto simp: sent_both_def)
  have nul: "NUL \<notin> set (tl (l1 @ [NL]))" "NUL \<notin> set (l2 @ [NL])"
    using assms(2,5) by (cases l1; simp)+
  have len: "1024 \<le> length ?both" using assms(7) by simp
  let ?m = "take 1024 ?both"
  have m: "length ?m = 1024" "NUL \<notin> set ?m" using len nul by (auto dest: in_set_takeD)
  then have "\<forall>k. echo_message k ?m (serving s) = Inl Out_Of_Bounds"
    by (simp add: echo_message_def Let_def del: take_append length_take)
  moreover have "up s = ?m @ drop 1024 ?both" using s(5) by (simp only: append_take_drop_id)
  ultimately have server: "\<exists>s m rest. connection_reach ?input s \<and> \<not> closed (serving s) \<and> up s = m @ rest \<and>
      length m = 1024 \<and> (\<forall>k. echo_message k m (serving s) = Inl Out_Of_Bounds)"
    using s(1,3) m(1) by blast
  have l1: "tl (l1 @ [NL]) \<noteq> []" "length (tl (l1 @ [NL])) < 1024"
    using assms(3,6,7) by (auto simp: BUFFER_SIZE_def tl_append split: list.splits)
  obtain s1 where s1: "connection_reach ?input s1" "at s1 = To_Receive" "\<not> closed (serving s1)" "up s1 = (l2 @ [NL]) @ []"
      "down s1 = tl (l1 @ [NL])"
    using reach_echo_line [OF s(1-3,5) l1 nul(1)] s(4) by auto
  have l2: "l2 @ [NL] \<noteq> []" "length (l2 @ [NL]) < 1024" using assms(6) by (simp_all add: BUFFER_SIZE_def)
  obtain s2 where s2: "connection_reach ?input s2" "at s2 = To_Receive" "down s2 = ?both"
    using reach_echo_line [OF s1(1-4) l2 nul(2)] s1(5) by auto
  have "client_receive (Received ?m) (peer s2) = Inl Out_Of_Bounds"
    using m(1) by (simp add: client_receive_def BUFFER_SIZE_def del: take_append length_take)
  moreover have "down s2 = ?m @ drop 1024 ?both" using s2(3) by (simp only: append_take_drop_id)
  moreover have "length ?m = BUFFER_SIZE" using m(1) by (simp add: BUFFER_SIZE_def)
  ultimately show ?thesis using server s2(1,2) by blast
qed

theorem pieces_overrun_witness:
  "\<exists>s m rest. connection_reach (replicate 600 CHR ''a'' @ NL # replicate 600 CHR ''b'' @ [NL]) s \<and>
    up s = m @ rest \<and> echo_message 1024 m (serving s) = Inl Out_Of_Bounds"
proof -
  have "NL \<notin> set (replicate 600 CHR ''a'')" "NUL \<notin> set (replicate 600 CHR ''a'')"
    "length (replicate 600 CHR ''a'') + 1 < BUFFER_SIZE"
    "NL \<notin> set (replicate 600 CHR ''b'')" "NUL \<notin> set (replicate 600 CHR ''b'')"
    "length (replicate 600 CHR ''b'') + 1 < BUFFER_SIZE"
    "1024 < length (replicate 600 CHR ''a'') + length (replicate 600 CHR ''b'') + 2"
    by (simp_all add: BUFFER_SIZE_def)
  from pieces_overrun [OF this] show ?thesis by blast
qed

end
