(* ===== verification/SmallPrograms.thy ===== *)
theory SmallPrograms
  imports CString
begin

text \<open>
  The short demonstration programs: \<^verbatim>\<open>slumber/slumber.c\<close>, \<^verbatim>\<open>signal-logger/logger.c\<close>,
  \<^verbatim>\<open>FileHandling/fhand.c\<close>, \<^verbatim>\<open>SIMD-addition\<close>, \<^verbatim>\<open>stack-growth/stack_growth.c\<close> and what
  \<^verbatim>\<open>LRUcache/lrucache.c\<close> has of a list node.
\<close>

section \<open>Sleeping\<close>

text \<open>How a call of \<^verbatim>\<open>nanosleep\<close> ends: it slept, or a signal left so many seconds, or another error.\<close>

datatype nap = Slept | Interrupted int | Nap_Error

text \<open>The seconds returned, the output and the errors; \<open>req\<close> is \<^verbatim>\<open>req.tv_sec\<close>.\<close>

fun slumber_loop :: "nap list \<Rightarrow> int \<Rightarrow> u32 \<times> string \<times> string list" where
  "slumber_loop [] req = (of_int req, [], [])"
| "slumber_loop (Slept # naps) req = (of_int req, [], [])"
| "slumber_loop (Nap_Error # naps) req = (of_int req, [], [''Unknown error!''])"
| "slumber_loop (Interrupted rem # naps) req =
     (let (r, out, err) = slumber_loop naps rem
      in (r, ''[slumber] Interrupted! '' @ dec_int rem @ '' seconds left...'' @ [NL] @ out, err))"

definition slumber :: "nap list \<Rightarrow> u32 \<Rightarrow> u32 \<times> string \<times> string list" where
  "slumber naps seconds = slumber_loop naps (uint seconds)"

definition slumber_handler :: string where
  "slumber_handler = NL # ''[Signal caught] Interrupt received!'' @ [NL]"

definition slumber_main :: "nap list \<Rightarrow> string \<times> string list" where
  "slumber_main naps =
     (let (remaining, out, err) = slumber naps 10
      in (''Going to slumber for 10 seconds. Press Ctrl+C to interrupt me...'' @ [NL] @ out @ ''It's over!'', err))"

text \<open>
  What is returned is the length of the last request, not the time left: 0 only if nothing was asked
  for, so a sleep that was never interrupted returns all its seconds.
\<close>

lemma slumber_returns_request: "fst (slumber (Slept # naps) seconds) = seconds"
  by (simp add: slumber_def)

section \<open>Logging signals\<close>

definition NSIG :: nat where
  "NSIG = 65"

definition SIGKILL :: nat where
  "SIGKILL = 9"

definition SIGSTOP :: nat where
  "SIGSTOP = 19"

text \<open>The signals for which \<^verbatim>\<open>main\<close> asks for the handler, in order.\<close>

definition installed :: "nat list" where
  "installed = filter (\<lambda>x. \<not> (x = SIGKILL \<or> x = SIGSTOP)) [1..<NSIG]"

definition handle_signal :: "(nat \<Rightarrow> string) \<Rightarrow> nat \<Rightarrow> string" where
  "handle_signal strsignal sig =
     ''Received signal: '' @ dec_nat sig @ '' ('' @ strsignal sig @ '')'' @ [NL]"

text \<open>The log after a sequence of delivered signals.\<close>

definition signal_log :: "(nat \<Rightarrow> string) \<Rightarrow> nat list \<Rightarrow> string" where
  "signal_log strsignal sigs = concat (map (handle_signal strsignal) (filter (\<lambda>s. s \<in> set installed) sigs))"

lemma installed_all: "s \<in> set installed \<longleftrightarrow> 1 \<le> s \<and> s \<le> 64 \<and> s \<noteq> 9 \<and> s \<noteq> 19"
  by (auto simp: installed_def NSIG_def SIGKILL_def SIGSTOP_def)

section \<open>Files\<close>

definition is_space :: "char \<Rightarrow> bool" where
  "is_space c \<longleftrightarrow> c \<in> {CHR '' '', NL, CHR 0x09, CHR 0x0B, CHR 0x0C, CHR 0x0D}"

text \<open>The words \<^verbatim>\<open>fscanf(f, "%s", line)\<close> reads until the end of the file.\<close>

function scan_words :: "string \<Rightarrow> string list" where
  "scan_words s =
     (let t = dropWhile is_space s
      in if t = [] then []
         else takeWhile (\<lambda>c. \<not> is_space c) t # scan_words (dropWhile (\<lambda>c. \<not> is_space c) t))"
  by pat_completeness auto
termination
proof (relation "measure length", goal_cases)
  case (2 s t)
  then have "t \<noteq> []" by blast
  then obtain c u where t: "t = c # u" by (cases t) simp_all
  have "\<not> is_space (hd t)" using hd_dropWhile [of is_space s] 2 \<open>t \<noteq> []\<close> by simp
  then have "\<not> is_space c" by (simp add: t)
  then have "length (dropWhile (\<lambda>c. \<not> is_space c) t) \<le> length u"
    using t length_dropWhile_le [of "\<lambda>c. \<not> is_space c" u] by simp
  moreover have "length t \<le> length s" using 2 length_dropWhile_le [of is_space s] by simp
  moreover have "length t = Suc (length u)" by (simp add: t)
  ultimately show ?case by simp
qed simp

declare scan_words.simps [simp del]

text \<open>The text of \<^verbatim>\<open>hello.txt\<close>, if it can be opened, read in three ways.\<close>

definition read_text_file :: "string option \<Rightarrow> string outcome" where
  "read_text_file f =
     (case f of
        None \<Rightarrow> Inl Null_Deref
      | Some content \<Rightarrow>
          if \<not> list_all (\<lambda>w. length w < 1024) (scan_words content) then Inl Out_Of_Bounds
          else Inr (''char by char:'' @ [NL, NL] @ content @ [NL] @
            ''line by line:'' @ [NL, NL] @ concat (map cstr (fgets_all 1024 content)) @ [NL] @
            ''line by line using fscanf:'' @ [NL, NL] @
            concat (map (\<lambda>w. cstr w @ [NL]) (scan_words content)) @ [NL]))"

definition write_text_file :: "(string \<Rightarrow> bool) \<Rightarrow> (string \<Rightarrow> string option) \<Rightarrow> (string \<Rightarrow> string option) outcome" where
  "write_text_file can_write fs =
     (if can_write ''output.txt'' then
        Inr (fs(''output.txt'' \<mapsto> ''C'' @ [NL] @ ''Hello, World!'' @ [NL] @
          ''a hold the value: '' @ dec_nat 67 @ [NL] @ ''name = '' @ ''written using fprintf''))
      else Inl Null_Deref)"

definition write_binary_file :: "bool \<Rightarrow> u8 list outcome" where
  "write_binary_file ok = (if ok then Inr [1, 2, 3, 4, 5] else Inl Null_Deref)"

definition read_binary_file :: "u8 list option \<Rightarrow> string outcome" where
  "read_binary_file f =
     (case f of None \<Rightarrow> Inl Null_Deref | Some bs \<Rightarrow> Inr (concat (map (\<lambda>c. dec_nat (unat c) @ '' '') bs)))"

text \<open>The output of \<^verbatim>\<open>main\<close> and the files it leaves.\<close>

definition fhand_main ::
  "(string \<Rightarrow> bool) \<Rightarrow> (string \<Rightarrow> string option) \<Rightarrow> (string \<times> (string \<Rightarrow> string option) \<times> u8 list) outcome" where
  "fhand_main can_write fs =
     and_then (read_text_file (fs ''hello.txt'')) (\<lambda>o1.
     and_then (write_text_file can_write fs) (\<lambda>fs1.
     and_then (write_binary_file (can_write ''binary.bin'')) (\<lambda>b.
     and_then (read_binary_file (Some b)) (\<lambda>o2. Inr (o1 @ o2, fs1, b)))))"

lemma read_lines_are_chars:
  assumes "NUL \<notin> set content"
  shows "concat (map cstr (fgets_all 1024 content)) = content"
proof -
  have c: "concat (fgets_all 1024 content) = content" by (simp add: concat_fgets_all)
  have "cstr l = l" if "l \<in> set (fgets_all 1024 content)" for l
    using that assms c by (metis UN_I cstr_id set_concat)
  then have "map cstr (fgets_all 1024 content) = fgets_all 1024 content" by (simp add: map_idI)
  then show ?thesis by (simp add: c)
qed

lemma binary_round_trip:
  "and_then (write_binary_file True) (\<lambda>b. read_binary_file (Some b)) = Inr ''1 2 3 4 5 ''"
  by (simp add: write_binary_file_def read_binary_file_def dec_nat.simps digit_simps)

section \<open>Vector addition\<close>

text \<open>\<^verbatim>\<open>add_values\<close> (\<^verbatim>\<open>paddb\<close> on 16 bytes): each byte of the first operand is replaced by the wrapped sum.\<close>

definition add_values :: "u8 list \<Rightarrow> u8 list \<Rightarrow> u8 list" where
  "add_values src src2 = map2 (+) (take 16 src) (take 16 src2) @ drop 16 src"

definition simd_main :: string where
  "simd_main =
     (let a = add_values [1, 2, 3, 4, 5, 6, 7, 8, 9, 10, 11, 12, 13, 14, 15, 16]
                [10, 10, 10, 10, 10, 10, 10, 10, 10, 10, 10, 10, 10, 10, 10, 10]
      in ''SIMD addition result: '' @ [NL] @ concat (map (\<lambda>x. dec_nat (unat x) @ '' '') a) @ [NL])"

lemma simd_main_output:
  "simd_main = ''SIMD addition result: '' @ [NL] @ ''11 12 13 14 15 16 17 18 19 20 21 22 23 24 25 26 '' @ [NL]"
  by (simp add: simd_main_def add_values_def dec_nat.simps digit_simps)

section \<open>Stack growth\<close>

text \<open>The addresses of the two locals as signed integers.\<close>

definition growthSecond :: "u64 \<Rightarrow> u64 \<Rightarrow> bool" where
  "growthSecond second first \<longleftrightarrow> sint first < sint second"

text \<open>\<^verbatim>\<open>growth\<close> has no return statement: its value is indeterminate, and \<^verbatim>\<open>main\<close> uses it.\<close>

definition growth :: "u64 \<Rightarrow> u64 \<Rightarrow> bool option" where
  "growth base second = (let _ = growthSecond second base in None)"

definition growth_main :: "u64 \<Rightarrow> u64 \<Rightarrow> string outcome" where
  "growth_main base second =
     (case growth base second of
        None \<Rightarrow> Inl Uninit_Read
      | Some up \<Rightarrow> Inr (if up then ''Stack grows Up'' else ''Stack grows down''))"

section \<open>List nodes\<close>

record DllNode =
  node_key :: int
  node_value :: int
  prev :: "nat option"
  nxt :: "nat option"

definition createNode :: "bool \<Rightarrow> int \<Rightarrow> int \<Rightarrow> DllNode outcome" where
  "createNode malloc_ok k v =
     (if malloc_ok then Inr \<lparr>node_key = k, node_value = v, prev = None, nxt = None\<rparr> else Inl Null_Deref)"

text \<open>The walk along \<^verbatim>\<open>next\<close>; on a cycle it never ends.\<close>

partial_function (option) iterate :: "(nat \<Rightarrow> DllNode) \<Rightarrow> nat option \<Rightarrow> unit option" where
  "iterate heap node = (case node of None \<Rightarrow> Some () | Some a \<Rightarrow> iterate heap (nxt (heap a)))"

lemma iterate_chain:
  "list_all2 (\<lambda>a b. nxt (heap a) = b) as (map Some (tl as) @ [None]) \<Longrightarrow> as \<noteq> [] \<Longrightarrow>
   iterate heap (Some (hd as)) = Some ()"
proof (induction as)
  case (Cons a as)
  show ?case
  proof (cases as)
    case Nil
    then show ?thesis using Cons.prems by (simp add: iterate.simps)
  next
    case (Cons b bs)
    then have "iterate heap (Some b) = Some ()" using Cons.IH Cons.prems by simp
    then show ?thesis using Cons Cons.prems by (subst iterate.simps) simp
  qed
qed simp

text \<open>
  The rest of the file: a table of pointers, all \<^verbatim>\<open>NULL\<close> at the start of the program, that nothing uses, a
  \<^verbatim>\<open>get\<close> that does nothing, and a loop that never ends.
\<close>

definition CACHE_SIZE :: nat where
  "CACHE_SIZE = 1000"

definition LRUCache :: "nat option list" where
  "LRUCache = replicate CACHE_SIZE None"

definition lru_get :: "string \<Rightarrow> nat option list \<Rightarrow> nat option list" where
  "lru_get key cache = cache"

partial_function (option) lru_main :: "nat option list \<Rightarrow> int option" where
  "lru_main cache = lru_main cache"

lemma lru_main_never_returns: "lru_main cache = None"
proof -
  have False if "lru_main cache = Some y" for y
    using lru_main.raw_induct [of "\<lambda>_ _. False", OF _ that] by blast
  then show ?thesis by (cases "lru_main cache") auto
qed

end
