(* ===== verification/Spec2Isabelle.thy ===== *)
theory Spec2Isabelle
  imports AllocatorStack AllocatorMisuse KvCrash JsonSafety ElfAddress ShellSession CopyFailures ThreadedFailures CopyAgreement ThreadedRace Mlfq IntVector Sysout
    HexRead TcpServer TcpLive SmallPrograms
begin

text \<open>
  \<^bold>\<open>A verification library for a collection of systems programs in C.\<close>

  The repository holds independent programs, each with its own state; they share only the C library
  and the operating system. Each program has a theory that models it, in the order of its source,
  and the larger ones a second theory with the properties.

  \<^bold>\<open>Shared.\<close>
  \<^item> \<open>Prelude\<close>: machine words, the faults that end a defined C execution (a value of \<open>fault\<close>, on the left
    of a sum; every raise is a visible branch), sequencing, little-endian memory.
  \<^item> \<open>CString\<close>: what the programs use of the C string and stdio library: decimal and hexadecimal
    numbers, \<^verbatim>\<open>strtok\<close>, \<^verbatim>\<open>strcspn\<close>, \<^verbatim>\<open>fgets\<close>, with the laws of reading lines.
  \<^item> \<open>CFloat\<close>: single-precision arithmetic by integer rounding, with bounds on quotients and on their error.
  \<^item> \<open>StepMachine\<close>, \<open>RegionHeap\<close>, \<open>KvMap\<close>, \<open>FifoQueue\<close>: contracts as locales: a machine that consumes input
    with an invariant, a step relation with one, an allocator of disjoint blocks, a map, a queue in an array. Each is interpreted on
    the model of the program that provides it (\<open>jchar\<close> and \<open>jline\<close>, \<open>phases\<close>, \<open>updates\<close> and \<open>sv\<close>, \<open>bby\<close>, \<open>kv\<close>, \<open>mq\<close>).

  \<^bold>\<open>Programs.\<close>
  \<^item> \<open>Allocator\<close>, \<open>AllocatorProps\<close>, \<open>AllocatorStack\<close>, \<open>AllocatorMisuse\<close>: \<^verbatim>\<open>baby_malloc/bby_malloc.c\<close>. The pool is a memory of bytes, a block
    header three little-endian fields in it, the free list the chain of \<^verbatim>\<open>next\<close> fields.
    \<open>internal_allocation\<close>, \<open>bby_free\<close>, \<open>bby_malloc\<close> are refined to a list of blocks (first fit, split,
    merge with the next); from it follow isolation of live blocks under any client trace, bounds and
    alignment, that releases in the reverse order of allocation undo every split (\<open>AllocatorStack\<close>), what a
    second release of a pointer does (\<open>AllocatorMisuse\<close>), and the wrap-around of large sizes.
    The search loop is bounded by the number of headers the pool can hold.
  \<^item> \<open>KvStore\<close>, \<open>KvProps\<close>, \<open>KvSession\<close>, \<open>KvFailures\<close>, \<open>KvCrash\<close>: \<^verbatim>\<open>key-value-store/spkvs.c\<close>. Files are strings, the handlers functions
    on them; the command loop is a partial function, \<open>None\<close> when it never ends. PUT, DELETE and UPDATE
    refine the operations of a map; a missing key, a value with an equals sign and a failing disk do
    what the findings say. \<open>KvSession\<close> gives the commands a meaning on the list of stored pairs, which
    whole sessions of the program refine, their output and the file included. \<open>KvFailures\<close> says what is
    left of the store when opening, removing or renaming is refused or only some bytes are written; \<open>KvCrash\<close> what is on the disk
    when the program is killed between two system calls of DELETE or UPDATE, and what the next run makes of it.
  \<^item> \<open>JsonParser\<close>, \<open>JsonDecimal\<close>, \<open>JsonSpec\<close>, \<open>JsonProps\<close>, \<open>JsonSafety\<close>: \<^verbatim>\<open>json-parser/jparse.c\<close>. One step per character,
    the states of the source. \<open>JsonDecimal\<close> bounds the error of a decimal read by \<^verbatim>\<open>strtof\<close>, which
    \<^verbatim>\<open>%.2f\<close> undoes below \<open>2 ^ 17\<close>. \<open>JsonSpec\<close> gives a grammar of objects and the lines to print for
    them; the parser prints exactly these, whatever the 512-byte reads cut, which is what the README
    documents when no array stands inside a nested object. \<open>JsonSafety\<close>: limits on the characters of a
    file, well-formed or not, within which the parser stays in its buffers.
  \<^item> \<open>ElfLoader\<close>, \<open>ElfMemory\<close>, \<open>ElfProps\<close>, \<open>ElfAddress\<close>: \<^verbatim>\<open>ELF-loader/elfload.c\<close>, phase by phase:
    identification, header, program headers, segments, interpreter, report, release. \<open>ElfMemory\<close> has a
    postcondition for every phase about the blocks and the descriptor held, on every file and with every
    refusal; the others show what the loader accepts, the memory image it
    builds, \<^verbatim>\<open>vaddr_to_host\<close> as a search with unbounded arithmetic, and the two together: the bytes a
    virtual address is translated to.
  \<^item> \<open>TinyShell\<close>, \<open>ShellProps\<close>, \<open>ShellSafety\<close>, \<open>ShellSession\<close>: \<^verbatim>\<open>toy-shell/tiny-shell.c\<close>. The token array keeps its stale
    contents; what the shell makes the system do is a list of events (children with arguments,
    streams and whether they hand \<^verbatim>\<open>execvp\<close> a file name, waits). \<open>ShellProps\<close> shows these for commands, redirections and pipelines; \<open>ShellSafety\<close> that
    on arbitrary input the array keeps its size and terminator and the shell ends exactly at \<^verbatim>\<open>exit\<close>,
    and which of its children are started without a program;
    \<open>ShellSession\<close> whole scripts, and which of the children started are still there at a prompt.
  \<^item> \<open>FileCopy\<close>, \<open>CopyProps\<close>, \<open>CopyFailures\<close>: \<^verbatim>\<open>steal/steal.c\<close>. The copy loop with failing and partial writes,
    exactness of the copies, the progress bar in single precision and its accuracy, and what holds whatever is refused.
  \<^item> \<open>ThreadedSteal\<close>, \<open>ThreadedProps\<close>, \<open>ThreadedFiles\<close>, \<open>ThreadedFailures\<close>, \<open>ThreadedRace\<close>: \<^verbatim>\<open>steal/threaded_steal.c\<close>. The workers as
    a step relation whose steps are single accesses to the mutex, the index, the files and the
    terminal: mutual exclusion, each job exactly once, termination by a rank of 40 steps for every byte
    still to be copied, exact copies, what holds whatever is refused, and a race.
    \<open>CopyAgreement\<close>: the two copiers leave the same files.
  \<^item> \<open>Mlfq\<close>: \<^verbatim>\<open>mlfq-implementation/mlfq.c\<close>, process table, queues and what there is of the scheduler; \<open>IntVector\<close>: \<^verbatim>\<open>dynamic-array/\<close>;
    \<open>Sysout\<close>: \<^verbatim>\<open>custom-printf/sysout.c\<close>; \<open>Hexditch\<close>, \<open>HexRead\<close> (the dump read back): \<^verbatim>\<open>hexdump-II/hexditch.c\<close>; \<open>SmallPrograms\<close>: \<^verbatim>\<open>slumber\<close>, \<^verbatim>\<open>signal-logger\<close>, \<^verbatim>\<open>FileHandling\<close>,
    \<^verbatim>\<open>SIMD-addition\<close>, \<^verbatim>\<open>stack-growth\<close> and \<^verbatim>\<open>LRUcache\<close>.
  \<^item> \<open>TcpChat\<close>, \<open>TcpEcho\<close>, \<open>TcpServer\<close>, \<open>TcpLive\<close>: \<^verbatim>\<open>TCP-chat-server/\<close>. The two programs over the results of their system calls; then
    both over the byte streams of a connection (\<open>client_step\<close>, \<open>server_step\<close>), with every way of cutting the bytes
    into pieces, of calls failing or taking only some bytes and of interleaving the ends: nothing comes back changed, doubled or out of order, and
    nothing is missing unless a \<^verbatim>\<open>send\<close> took less than it was given; then the server with any number of clients,
    threads (\<open>main_step\<close>, \<open>thread_step\<close>), blocks and descriptors, which keeps them apart. \<open>TcpLive\<close>: a waiting client
    is answered, and pieces with which both ends run over their buffers.

  \<^bold>\<open>Conventions.\<close> Data model LP64 with two's complement; a signed overflow, an access outside an object,
  a null dereference and the use of an indeterminate value are faults. What the operating system may
  answer (files that open, reads and writes that fail, addresses of \<^verbatim>\<open>malloc\<close>, process ids) is an
  environment argument or a list of results, so that every answer is covered. \<^verbatim>\<open>perror\<close> and messages on
  \<^verbatim>\<open>stderr\<close> are recorded without the text of \<^verbatim>\<open>errno\<close> and the final newline.

  \<^bold>\<open>Not modelled.\<close> The scheduling of \<^verbatim>\<open>mlfq.c\<close> (\<^verbatim>\<open>simulate_mlfq\<close> has no body, one branch of \<^verbatim>\<open>run_process\<close>
  does not compile), the cache of \<^verbatim>\<open>lrucache.c\<close> (only a comment), the socket calls themselves and the signal
  \<^verbatim>\<open>SIGPIPE\<close> of a \<^verbatim>\<open>send\<close> to a peer that has closed (the executions are those of a process up to it),
  programs started by the shell, and, but for the ELF loader, releases of memory and descriptors at
  the end of a run.
\<close>

end
